(* ===== verification/Codec_Lib.thy ===== *)
theory Codec_Lib
  imports Prelude
begin

text \<open>
  The third-party code under the blob codec: the \<^verbatim>\<open>zstd\<close> and \<^verbatim>\<open>xxhash-rust\<close> crates. They are
  parameters of the model, collected in one record that every definition using them takes as its
  first argument. What the codec relies on are the two named hypotheses at the end, which state
  documented behaviour of zstd: decompression returns what was compressed, and a frame names the
  dictionary it was compressed with.
\<close>

record zstd_params =
  zp_level :: int
  zp_dict :: bytes            \<comment> \<open>empty: no dictionary\<close>
  zp_window_log :: "nat option"
  zp_ldm :: bool              \<comment> \<open>long distance matching\<close>

text \<open>
  \<open>zstd_decode lib dict payload\<close> is the whole output of a streaming decoder and whether it ends in
  an error; \<open>None\<close> means that the decoder cannot be created.
\<close>

record codec_lib =
  xxh3_64 :: "bytes \<Rightarrow> u64"
  zstd_compress :: "zstd_params \<Rightarrow> bytes \<Rightarrow> bytes option"
  zstd_encode_all :: "int \<Rightarrow> bytes \<Rightarrow> bytes option"
  zstd_decode :: "bytes \<Rightarrow> bytes \<Rightarrow> (bytes \<times> bool) option"
  dict_id_from_frame :: "bytes \<Rightarrow> u32 option"
  dict_id_from_dict :: "bytes \<Rightarrow> u32 option"
  zstd_train :: "bytes list \<Rightarrow> nat \<Rightarrow> bytes option"

text \<open>\<^verbatim>\<open>decoder.take(limit).read_to_end\<close>: a frame is read at most \<open>limit\<close> bytes far, so damage behind
  that point is not noticed here.\<close>

definition decode_limited :: "codec_lib \<Rightarrow> bytes \<Rightarrow> bytes \<Rightarrow> nat \<Rightarrow> bytes result" where
  "decode_limited lib dict payload limit =
     (case zstd_decode lib dict payload of
        None \<Rightarrow> Err (Internal ''zstd decoder'')
      | Some (out, fails) \<Rightarrow>
          if limit \<le> length out then Ok (take limit out)
          else if fails then Err (Internal ''zstd decode'')
          else Ok out)"

definition zstd_lossless :: "codec_lib \<Rightarrow> bool" where
  "zstd_lossless lib \<longleftrightarrow>
     (\<forall>p chunk c. zstd_compress lib p chunk = Some c \<longrightarrow> zstd_decode lib (zp_dict p) c = Some (chunk, False)) \<and>
     (\<forall>level chunk c. zstd_encode_all lib level chunk = Some c \<longrightarrow> zstd_decode lib [] c = Some (chunk, False))"

definition zstd_frames_name_dict :: "codec_lib \<Rightarrow> bool" where
  "zstd_frames_name_dict lib \<longleftrightarrow>
     (\<forall>p chunk c. zstd_compress lib p chunk = Some c \<longrightarrow>
        dict_id_from_frame lib c = (if zp_dict p = [] then None else dict_id_from_dict lib (zp_dict p)))"

lemma decode_limited_lossless:
  assumes "zstd_decode lib dict c = Some (chunk, False)" "length chunk < limit"
  shows "decode_limited lib dict c limit = Ok chunk"
  using assms by (simp add: decode_limited_def)

lemma decode_limited_neq_Panic [simp]: "decode_limited lib dict c limit \<noteq> Panic"
  by (auto simp: decode_limited_def split: option.splits)

lemma zstd_losslessD:
  "zstd_lossless lib \<Longrightarrow> zstd_compress lib p chunk = Some c \<Longrightarrow> zstd_decode lib (zp_dict p) c = Some (chunk, False)"
  "zstd_lossless lib \<Longrightarrow> zstd_encode_all lib level chunk = Some c \<Longrightarrow> zstd_decode lib [] c = Some (chunk, False)"
  by (auto simp: zstd_lossless_def)

text \<open>
  A concrete library for the witnesses: run-length coding of constant inputs behind a marker byte
  (everything else is only marked), no dictionaries, and a byte sum as hash.
\<close>

definition toy_compress :: "bytes \<Rightarrow> bytes" where
  "toy_compress chunk =
     (if chunk \<noteq> [] \<and> chunk = replicate (length chunk) (hd chunk)
      then 1 # hd chunk # to_le_bytes (of_nat (length chunk) :: u32)
      else 0 # chunk)"

definition toy_decode :: "bytes \<Rightarrow> (bytes \<times> bool) option" where
  "toy_decode c =
     (case c of
        [] \<Rightarrow> None
      | m # rest \<Rightarrow>
          if m = 0 then Some (rest, False)
          else (case rest of
                  [] \<Rightarrow> None
                | b # n \<Rightarrow> Some (replicate (le_decode n) b, False)))"

definition toy_lib :: codec_lib where
  "toy_lib = \<lparr>xxh3_64 = (\<lambda>bs. of_nat (le_decode bs)),
     zstd_compress = (\<lambda>p chunk. if length chunk < 2 ^ 32 \<and> zp_dict p = [] then Some (toy_compress chunk) else None),
     zstd_encode_all = (\<lambda>level chunk. if length chunk < 2 ^ 32 then Some (toy_compress chunk) else None),
     zstd_decode = (\<lambda>dict c. toy_decode c),
     dict_id_from_frame = (\<lambda>_. None), dict_id_from_dict = (\<lambda>_. None),
     zstd_train = (\<lambda>samples n. Some (take n (concat samples)))\<rparr>"

lemma toy_decode_compress:
  "length chunk < 2 ^ 32 \<Longrightarrow> toy_decode (toy_compress chunk) = Some (chunk, False)"
  by (auto simp: toy_decode_def toy_compress_def to_le_bytes_def le_decode_encode unat_of_nat)

lemma toy_lossless: "zstd_lossless toy_lib"
  by (auto simp: zstd_lossless_def toy_lib_def toy_decode_compress split: if_splits)

lemma toy_names_dict: "zstd_frames_name_dict toy_lib"
  by (auto simp: zstd_frames_name_dict_def toy_lib_def split: if_splits)

end
