(* ===== verification/Blob_Format.thy ===== *)
theory Blob_Format
  imports Prelude
begin

text \<open>
  The on-disk container formats of \<^verbatim>\<open>src/storage/compression/format.rs\<close> and \<^verbatim>\<open>legacy.rs\<close>:
  recognising a blob by its magic bytes, the fixed headers and block index of indexed blobs
  (NOSB, the older one, and NOSI), the block headers, and the dedup manifests (NOSD).
  Every slice of the source is a \<open>slice_at\<close>, whose failure is a panic, so that the absence of
  panics on arbitrary input is a theorem about the parsers and not a modelling assumption.

  Results: header writers and parsers are inverse to each other, the streaming reader
  (\<open>read_blob_layout\<close>) agrees with the in-memory parser, a parsed index is strictly increasing and
  covers exactly the logical size, and the binary search \<open>block_for_offset\<close> finds the block that
  holds an offset.
\<close>

section \<open>Formats and their magic bytes\<close>

definition BLOB_MAGIC :: bytes where "BLOB_MAGIC = [78, 79, 83, 90]"
definition BLOB_MAGIC_V2 :: bytes where "BLOB_MAGIC_V2 = [78, 79, 83, 50]"
definition DEDUP_MAGIC :: bytes where "DEDUP_MAGIC = [78, 79, 83, 68]"
definition NOSB_MAGIC :: bytes where "NOSB_MAGIC = [78, 79, 83, 66]"
definition NOSI_MAGIC :: bytes where "NOSI_MAGIC = [78, 79, 83, 73]"

abbreviation (input) HEADER_LEN :: nat where "HEADER_LEN \<equiv> 12"
abbreviation (input) HEADER_LEN_V2 :: nat where "HEADER_LEN_V2 \<equiv> 16"
abbreviation (input) DEDUP_HEADER_LEN :: nat where "DEDUP_HEADER_LEN \<equiv> 16"
abbreviation (input) DEDUP_ENTRY_LEN :: nat where "DEDUP_ENTRY_LEN \<equiv> 12"
abbreviation (input) FIXED_HEADER_LEN :: nat where "FIXED_HEADER_LEN \<equiv> 20"
abbreviation (input) BLOCK_HEADER_LEN :: nat where "BLOCK_HEADER_LEN \<equiv> 8"
abbreviation (input) FIXED_HEADER_LEN_V1 :: nat where "FIXED_HEADER_LEN_V1 \<equiv> 24"
abbreviation (input) FIXED_HEADER_LEN_V1_LEVEL :: nat where "FIXED_HEADER_LEN_V1_LEVEL \<equiv> 25"
abbreviation (input) BLOCK_HEADER_LEN_V1 :: nat where "BLOCK_HEADER_LEN_V1 \<equiv> 16"
abbreviation (input) INDEX_ENTRY_LEN :: nat where "INDEX_ENTRY_LEN \<equiv> 16"
abbreviation (input) MAX_BLOCK_COUNT :: nat where "MAX_BLOCK_COUNT \<equiv> 16777216"

abbreviation (input) BLOCK_COMPRESSED :: u8 where "BLOCK_COMPRESSED \<equiv> 0"
abbreviation (input) BLOCK_STORED :: u8 where "BLOCK_STORED \<equiv> 1"
abbreviation (input) BLOCK_DEDUP_REF :: u8 where "BLOCK_DEDUP_REF \<equiv> 2"

definition NOSI_FLAG_DEDUP :: u16 where "NOSI_FLAG_DEDUP = 1"
definition NOSI_FLAG_HAS_LEVEL :: u16 where "NOSI_FLAG_HAS_LEVEL = 0x8000"

datatype blob_format = Raw | Nosz | Nos2 | Nosd | Nosb | Nosi

text \<open>\<open>starts_with\<close>: \<^verbatim>\<open>slice::starts_with\<close> and \<^verbatim>\<open>str::starts_with\<close>.\<close>

definition detect_blob_format :: "bytes \<Rightarrow> blob_format" where
  "detect_blob_format data =
     (if HEADER_LEN \<le> length data \<and> prefix NOSI_MAGIC data then Nosi
      else if HEADER_LEN \<le> length data \<and> prefix NOSB_MAGIC data then Nosb
      else if HEADER_LEN \<le> length data \<and> prefix BLOB_MAGIC data then Nosz
      else if HEADER_LEN_V2 \<le> length data \<and> prefix BLOB_MAGIC_V2 data then Nos2
      else if DEDUP_HEADER_LEN \<le> length data \<and> prefix DEDUP_MAGIC data then Nosd
      else Raw)"

text \<open>Numbers read out of a slice; the \<^verbatim>\<open>try_into().unwrap()\<close> never fails on a slice of that length.\<close>

definition get_u64 :: "nat \<Rightarrow> bytes \<Rightarrow> u64 result" where
  "get_u64 a data = and_then (slice_at a (a + 8) data) (\<lambda>bs. Ok (from_le_bytes bs))"

definition get_u32 :: "nat \<Rightarrow> bytes \<Rightarrow> u32 result" where
  "get_u32 a data = and_then (slice_at a (a + 4) data) (\<lambda>bs. Ok (from_le_bytes bs))"

definition get_u16 :: "nat \<Rightarrow> bytes \<Rightarrow> u16 result" where
  "get_u16 a data = and_then (slice_at a (a + 2) data) (\<lambda>bs. Ok (from_le_bytes bs))"

definition get_u8 :: "nat \<Rightarrow> bytes \<Rightarrow> u8 result" where
  "get_u8 a data = (if a < length data then Ok (data ! a) else Panic)"

definition stored_blob_format :: "bytes \<Rightarrow> u64 \<Rightarrow> u64 \<Rightarrow> blob_format result" where
  "stored_blob_format head file_len logical_size =
     (let format = detect_blob_format head in
      if format \<noteq> Raw \<and> file_len = logical_size \<and> 12 \<le> length head
      then and_then (get_u64 4 head) (\<lambda>stored.
             if stored \<noteq> logical_size then Ok Raw else Ok format)
      else Ok format)"

definition is_indexed_blob :: "bytes \<Rightarrow> bool" where
  "is_indexed_blob data \<longleftrightarrow> detect_blob_format data \<in> {Nosb, Nosi}"

definition is_zstd_blob :: "bytes \<Rightarrow> bool" where
  "is_zstd_blob data \<longleftrightarrow> detect_blob_format data \<in> {Nosz, Nos2}"

definition is_dedup_manifest :: "bytes \<Rightarrow> bool" where
  "is_dedup_manifest data \<longleftrightarrow> detect_blob_format data = Nosd"

definition is_compressed_blob :: "bytes \<Rightarrow> bool" where
  "is_compressed_blob data \<longleftrightarrow> detect_blob_format data \<in> {Nosi, Nosb, Nosz, Nos2}"

section \<open>Layout of indexed blobs\<close>

record index_entry =
  compressed_offset :: u64
  logical_end :: u64

datatype indexed_format = V0 | V1

record blob_layout =
  layout_format :: indexed_format
  logical_size :: u64
  block_size :: u32
  dict_id :: u16
  flags :: u16
  zstd_level :: u8
  index :: "index_entry list"
  data_offset :: u64

definition nosi_header_info :: "bytes \<Rightarrow> u16 \<Rightarrow> (nat \<times> u8) result" where
  "nosi_header_info data fl =
     (if fl AND NOSI_FLAG_HAS_LEVEL \<noteq> 0 \<and> FIXED_HEADER_LEN_V1_LEVEL \<le> length data
      then and_then (get_u8 24 data) (\<lambda>level. Ok (FIXED_HEADER_LEN_V1_LEVEL, level))
      else Ok (FIXED_HEADER_LEN_V1, 0))"

definition fixed_header_len :: "blob_layout \<Rightarrow> nat" where
  "fixed_header_len l =
     (case layout_format l of
        V0 \<Rightarrow> FIXED_HEADER_LEN
      | V1 \<Rightarrow> if 0 < zstd_level l \<or> flags l AND NOSI_FLAG_HAS_LEVEL \<noteq> 0
              then FIXED_HEADER_LEN_V1_LEVEL else FIXED_HEADER_LEN_V1)"

definition block_header_len :: "blob_layout \<Rightarrow> nat" where
  "block_header_len l = (case layout_format l of V0 \<Rightarrow> BLOCK_HEADER_LEN | V1 \<Rightarrow> BLOCK_HEADER_LEN_V1)"

definition header_len :: "blob_layout \<Rightarrow> nat" where
  "header_len l = fixed_header_len l + length (index l) * INDEX_ENTRY_LEN"

definition block_count :: "blob_layout \<Rightarrow> nat" where
  "block_count l = length (index l)"

definition uses_dedup_blocks :: "blob_layout \<Rightarrow> bool" where
  "uses_dedup_blocks l \<longleftrightarrow> layout_format l = V1 \<and> flags l AND NOSI_FLAG_DEDUP \<noteq> 0"

text \<open>Indexing the entry vector past its end panics; the accessors below are called in range.\<close>

definition index_at :: "blob_layout \<Rightarrow> nat \<Rightarrow> index_entry result" where
  "index_at l i = (if i < length (index l) then Ok (index l ! i) else Panic)"

definition logical_start :: "blob_layout \<Rightarrow> nat \<Rightarrow> u64 result" where
  "logical_start l i = (if i = 0 then Ok 0 else and_then (index_at l (i - 1)) (\<lambda>e. Ok (logical_end e)))"

definition logical_len :: "blob_layout \<Rightarrow> nat \<Rightarrow> u64 result" where
  "logical_len l i =
     and_then (index_at l i) (\<lambda>e.
     and_then (logical_start l i) (\<lambda>s. Ok (saturating_sub (logical_end e) s)))"

text \<open>The loop of \<^verbatim>\<open>block_for_offset\<close>: the least entry in \<open>[lo, hi)\<close> that ends past the offset.\<close>

function block_search :: "index_entry list \<Rightarrow> u64 \<Rightarrow> nat \<Rightarrow> nat \<Rightarrow> nat" where
  "block_search idx offset lo hi =
     (if lo < hi then
        let mid = lo + (hi - lo) div 2 in
        if offset < logical_end (idx ! mid) then block_search idx offset lo mid
        else block_search idx offset (mid + 1) hi
      else lo)"
  by pat_completeness auto
termination
  by (relation "measure (\<lambda>(idx, offset, lo, hi). hi - lo)") auto

declare block_search.simps [simp del]

definition block_for_offset :: "blob_layout \<Rightarrow> u64 \<Rightarrow> nat" where
  "block_for_offset l offset =
     (if index l = [] then 0
      else min (block_search (index l) offset 0 (length (index l))) (length (index l) - 1))"

definition file_offset_for_block :: "blob_layout \<Rightarrow> nat \<Rightarrow> u64 result" where
  "file_offset_for_block l i =
     and_then (index_at l i) (\<lambda>e. Ok (data_offset l + compressed_offset e))"

section \<open>Parsing headers and indices\<close>

definition read_indexed_dict_id :: "bytes \<Rightarrow> u16 option result" where
  "read_indexed_dict_id data =
     (if detect_blob_format data = Nosi \<and> FIXED_HEADER_LEN_V1 \<le> length data
      then and_then (get_u16 20 data) (\<lambda>d. Ok (Some d)) else Ok None)"

definition read_indexed_zstd_level :: "bytes \<Rightarrow> u8 option result" where
  "read_indexed_zstd_level data =
     (if detect_blob_format data \<noteq> Nosi \<or> length data < FIXED_HEADER_LEN_V1 then Ok None
      else and_then (get_u16 22 data) (\<lambda>fl.
           and_then (nosi_header_info data fl) (\<lambda>(_, level).
           if fl AND NOSI_FLAG_HAS_LEVEL \<noteq> 0 \<and> 0 < level then Ok (Some level) else Ok None)))"

definition read_stored_zstd_level :: "bytes \<Rightarrow> u8 option result" where
  "read_stored_zstd_level data =
     (if detect_blob_format data = Nos2 \<and> HEADER_LEN_V2 \<le> length data
      then and_then (get_u8 14 data) (\<lambda>l. Ok (Some l)) else Ok None)"

definition read_stored_dict_id :: "bytes \<Rightarrow> u16 option result" where
  "read_stored_dict_id data =
     (if detect_blob_format data = Nos2 \<and> HEADER_LEN_V2 \<le> length data
      then and_then (get_u16 12 data) (\<lambda>d. Ok (Some d)) else Ok None)"

definition read_blob_stored_zstd_level :: "bytes \<Rightarrow> u8 option result" where
  "read_blob_stored_zstd_level data =
     and_then (read_indexed_zstd_level data) (\<lambda>level.
       case level of Some l \<Rightarrow> Ok (Some l) | None \<Rightarrow> read_stored_zstd_level data)"

definition zstd_payload_offset :: "bytes \<Rightarrow> nat option" where
  "zstd_payload_offset data =
     (case detect_blob_format data of Nosz \<Rightarrow> Some HEADER_LEN | Nos2 \<Rightarrow> Some HEADER_LEN_V2 | _ \<Rightarrow> None)"

fun validate_entries :: "index_entry list \<Rightarrow> u64 \<Rightarrow> u64 \<Rightarrow> u64 \<Rightarrow> unit result" where
  "validate_entries [] lsize prev_logical prev_compressed = Ok ()"
| "validate_entries (e # es) lsize prev_logical prev_compressed =
     (if logical_end e \<le> prev_logical \<or> lsize < logical_end e
      then Err (Internal ''invalid index logical_end'')
      else if compressed_offset e < prev_compressed
      then Err (Internal ''invalid index compressed_offset'')
      else validate_entries es lsize (logical_end e) (compressed_offset e))"

definition validate_index :: "index_entry list \<Rightarrow> u64 \<Rightarrow> unit result" where
  "validate_index idx lsize = validate_entries idx lsize 0 0"

primrec read_entries :: "nat \<Rightarrow> nat \<Rightarrow> bytes \<Rightarrow> index_entry list result" where
  "read_entries 0 pos data = Ok []"
| "read_entries (Suc n) pos data =
     and_then (get_u64 pos data) (\<lambda>c.
     and_then (get_u64 (pos + 8) data) (\<lambda>l.
     and_then (read_entries n (pos + INDEX_ENTRY_LEN) data) (\<lambda>es.
     Ok (\<lparr>compressed_offset = c, logical_end = l\<rparr> # es))))"

definition parse_index :: "bytes \<Rightarrow> nat \<Rightarrow> u64 \<Rightarrow> index_entry list result" where
  "parse_index data fixed_len lsize =
     (if length data < fixed_len + 4 then Err (Internal ''block index truncated'')
      else and_then (get_u32 16 data) (\<lambda>count.
        if MAX_BLOCK_COUNT < unat count then Err (Internal ''block count exceeds limit'')
        else
          and_then (ok_or (checked_mul (ucast count :: u64) 16) (Internal ''block index overflow'')) (\<lambda>index_bytes.
          and_then (ok_or (checked_add (of_nat fixed_len) index_bytes) (Internal ''header length overflow'')) (\<lambda>needed.
          if length data < unat needed then Err (Internal ''block index truncated'')
          else
            and_then (read_entries (unat count) fixed_len data) (\<lambda>idx.
            and_then (validate_index idx lsize) (\<lambda>_.
            if idx \<noteq> [] then
              if logical_end (last idx) \<noteq> lsize then Err (Internal ''index logical_end mismatch'') else Ok idx
            else if lsize \<noteq> 0 then Err (Internal ''empty index for non-empty object'')
            else Ok idx))))))"

definition parse_layout_bytes :: "bytes \<Rightarrow> blob_layout result" where
  "parse_layout_bytes data =
     (case detect_blob_format data of
        Nosi \<Rightarrow>
          if length data < FIXED_HEADER_LEN_V1 then Err (Internal ''not an indexed blob'')
          else
            and_then (get_u64 4 data) (\<lambda>lsize.
            and_then (get_u32 12 data) (\<lambda>bsize.
            and_then (get_u16 20 data) (\<lambda>did.
            and_then (get_u16 22 data) (\<lambda>fl.
            and_then (nosi_header_info data fl) (\<lambda>(fixed_len, level).
            and_then (parse_index data fixed_len lsize) (\<lambda>idx.
            Ok \<lparr>layout_format = V1, logical_size = lsize, block_size = bsize, dict_id = did,
                flags = fl, zstd_level = level, index = idx,
                data_offset = of_nat (fixed_len + length idx * INDEX_ENTRY_LEN)\<rparr>))))))
      | Nosb \<Rightarrow>
          if length data < FIXED_HEADER_LEN then Err (Internal ''not a block-compressed blob'')
          else
            and_then (get_u64 4 data) (\<lambda>lsize.
            and_then (get_u32 12 data) (\<lambda>bsize.
            and_then (parse_index data FIXED_HEADER_LEN lsize) (\<lambda>idx.
            Ok \<lparr>layout_format = V0, logical_size = lsize, block_size = bsize, dict_id = 0,
                flags = 0, zstd_level = 0, index = idx,
                data_offset = of_nat (FIXED_HEADER_LEN + length idx * INDEX_ENTRY_LEN)\<rparr>)))
      | _ \<Rightarrow> Err (Internal ''not an indexed blob''))"

text \<open>\<^verbatim>\<open>Read::read_exact\<close> on a file, which is its remaining bytes.\<close>

definition read_exact :: "nat \<Rightarrow> bytes \<Rightarrow> (bytes \<times> bytes) result" where
  "read_exact n file =
     (if n \<le> length file then Ok (take n file, drop n file)
      else Err (Internal ''failed to fill whole buffer''))"

definition read_fixed_header :: "bytes \<Rightarrow> (bytes \<times> bytes) result" where
  "read_fixed_header file =
     and_then (read_exact FIXED_HEADER_LEN file) (\<lambda>(h, rest).
     case detect_blob_format h of
       Nosb \<Rightarrow> Ok (h, rest)
     | Nosi \<Rightarrow>
         and_then (read_exact (FIXED_HEADER_LEN_V1 - FIXED_HEADER_LEN) rest) (\<lambda>(h1, rest1).
         and_then (get_u16 22 (h @ h1)) (\<lambda>fl.
         if fl AND NOSI_FLAG_HAS_LEVEL \<noteq> 0
         then and_then (read_exact (FIXED_HEADER_LEN_V1_LEVEL - FIXED_HEADER_LEN_V1) rest1) (\<lambda>(h2, rest2).
                Ok (h @ h1 @ h2, rest2))
         else Ok (h @ h1, rest1)))
     | _ \<Rightarrow> Err (Internal ''not an indexed blob''))"

definition read_blob_layout :: "bytes \<Rightarrow> blob_layout result" where
  "read_blob_layout file =
     and_then (read_fixed_header file) (\<lambda>(header, rest).
     and_then (get_u32 16 header) (\<lambda>count.
     if MAX_BLOCK_COUNT < unat count then Err (Internal ''block count exceeds limit'')
     else
       and_then (read_exact (unat count * INDEX_ENTRY_LEN) rest) (\<lambda>(idx, _).
       parse_layout_bytes (header @ idx))))"

definition read_blob_logical_size :: "bytes \<Rightarrow> u64 result" where
  "read_blob_logical_size file =
     (let header = take HEADER_LEN_V2 file in
      if detect_blob_format header \<in> {Nosi, Nosb, Nosz, Nos2}
      then get_u64 4 header
      else Err (Internal ''not a compressed blob''))"

section \<open>Writing headers\<close>

definition encode_entry :: "index_entry \<Rightarrow> bytes" where
  "encode_entry e = to_le_bytes (compressed_offset e) @ to_le_bytes (logical_end e)"

definition write_blob_header_v0 :: "u64 \<Rightarrow> u32 \<Rightarrow> index_entry list \<Rightarrow> bytes" where
  "write_blob_header_v0 lsize bsize idx =
     NOSB_MAGIC @ to_le_bytes lsize @ to_le_bytes bsize @ to_le_bytes (of_nat (length idx) :: u32) @
     concat (map encode_entry idx)"

definition write_blob_header_v1 ::
    "u64 \<Rightarrow> u32 \<Rightarrow> index_entry list \<Rightarrow> u16 \<Rightarrow> u16 \<Rightarrow> u8 \<Rightarrow> bytes" where
  "write_blob_header_v1 lsize bsize idx did fl level =
     NOSI_MAGIC @ to_le_bytes lsize @ to_le_bytes bsize @ to_le_bytes (of_nat (length idx) :: u32) @
     to_le_bytes did @ to_le_bytes (fl OR NOSI_FLAG_HAS_LEVEL) @ [level] @
     concat (map encode_entry idx)"

section \<open>Block headers and dedup references\<close>

record parsed_block_header =
  block_type :: u8
  payload_len :: u32
  logical_checksum :: "u64 option"
  parsed_header_len :: nat

definition write_block_header_v1 :: "bytes \<Rightarrow> u8 \<Rightarrow> u32 \<Rightarrow> u64 \<Rightarrow> bytes" where
  "write_block_header_v1 writer btype plen checksum =
     writer @ [btype, 0, 0, 0] @ to_le_bytes plen @ to_le_bytes checksum"

definition parse_block_header_at :: "bytes \<Rightarrow> u64 \<Rightarrow> blob_layout \<Rightarrow> parsed_block_header result" where
  "parse_block_header_at blob offset l =
     (let hlen = block_header_len l; block_end = offset + of_nat hlen in
      if length blob < unat block_end then Err (Internal ''block header truncated'')
      else
        and_then (slice_at (unat offset) (unat block_end) blob) (\<lambda>header.
        and_then (get_u8 0 header) (\<lambda>btype.
        and_then (get_u32 4 header) (\<lambda>plen.
        and_then (case layout_format l of
                    V0 \<Rightarrow> Ok None
                  | V1 \<Rightarrow> and_then (get_u64 8 header) (\<lambda>c. Ok (Some c))) (\<lambda>checksum.
        Ok \<lparr>block_type = btype, payload_len = plen, logical_checksum = checksum,
            parsed_header_len = hlen\<rparr>)))))"

primrec read_manifest_entries :: "nat \<Rightarrow> nat \<Rightarrow> bytes \<Rightarrow> (u64 \<times> u32) list result" where
  "read_manifest_entries 0 off data = Ok []"
| "read_manifest_entries (Suc n) off data =
     and_then (get_u64 off data) (\<lambda>h.
     and_then (get_u32 (off + 8) data) (\<lambda>s.
     and_then (read_manifest_entries n (off + DEDUP_ENTRY_LEN) data) (\<lambda>es. Ok ((h, s) # es))))"

definition parse_dedup_manifest :: "bytes \<Rightarrow> u64 \<Rightarrow> (u64 \<times> u32) list result" where
  "parse_dedup_manifest data expected_logical =
     (if detect_blob_format data \<noteq> Nosd then Err (Internal ''not a dedup manifest'')
      else and_then (get_u64 4 data) (\<lambda>logical.
        if logical \<noteq> expected_logical then Err (Internal ''dedup manifest logical size mismatch'')
        else and_then (get_u32 12 data) (\<lambda>count.
          and_then (ok_or (Option.bind (checked_mul (ucast count :: u64) 12) (\<lambda>n. checked_add n 16))
                     (Internal ''dedup manifest entry count overflows'')) (\<lambda>expected_len.
          if length data \<noteq> unat expected_len then Err (Internal ''dedup manifest length mismatch'')
          else
            and_then (read_manifest_entries (unat count) DEDUP_HEADER_LEN data) (\<lambda>entries.
            if sum_list (map (\<lambda>(_, s). ucast s :: u64) entries) \<noteq> logical
            then Err (Internal ''dedup manifest sizes do not add up'')
            else Ok entries)))))"

primrec collect_refs :: "bytes \<Rightarrow> blob_layout \<Rightarrow> nat list \<Rightarrow> (u64 \<times> u32) list result" where
  "collect_refs data l [] = Ok []"
| "collect_refs data l (i # is) =
     and_then (file_offset_for_block l i) (\<lambda>file_offset.
     and_then (parse_block_header_at data file_offset l) (\<lambda>parsed.
     if block_type parsed \<noteq> BLOCK_DEDUP_REF then collect_refs data l is
     else
       let payload_start = file_offset + of_nat (parsed_header_len parsed);
           payload_end = payload_start + ucast (payload_len parsed) in
       if length data < unat payload_end then Err (Internal ''dedup ref truncated'')
       else
         and_then (slice_at (unat payload_start) (unat payload_end) data) (\<lambda>payload.
         if length payload \<noteq> 12 then Err (Internal ''invalid dedup ref payload'')
         else
           and_then (get_u64 0 payload) (\<lambda>h.
           and_then (get_u32 8 payload) (\<lambda>s.
           and_then (collect_refs data l is) (\<lambda>refs. Ok ((h, s) # refs)))))))"

definition collect_dedup_refs :: "bytes \<Rightarrow> (u64 \<times> u32) list result" where
  "collect_dedup_refs data =
     (case detect_blob_format data of
        Nosd \<Rightarrow> and_then (get_u64 4 data) (\<lambda>logical. parse_dedup_manifest data logical)
      | Nosi \<Rightarrow>
          and_then (parse_layout_bytes data) (\<lambda>l.
          if \<not> uses_dedup_blocks l then Ok []
          else collect_refs data l [0..<block_count l])
      | _ \<Rightarrow> Ok [])"

section \<open>Reading numbers and detecting formats\<close>

lemma get_u64_eq: "get_u64 a data = (if a + 8 \<le> length data then Ok (from_le_bytes (slice a (a + 8) data)) else Panic)"
  by (simp add: get_u64_def slice_at_def)

lemma get_u32_eq: "get_u32 a data = (if a + 4 \<le> length data then Ok (from_le_bytes (slice a (a + 4) data)) else Panic)"
  by (simp add: get_u32_def slice_at_def)

lemma get_u16_eq: "get_u16 a data = (if a + 2 \<le> length data then Ok (from_le_bytes (slice a (a + 2) data)) else Panic)"
  by (simp add: get_u16_def slice_at_def)

lemmas get_eqs [codec_simps] = get_u64_eq get_u32_eq get_u16_eq get_u8_def

lemmas magic_defs = BLOB_MAGIC_def BLOB_MAGIC_V2_def DEDUP_MAGIC_def NOSB_MAGIC_def NOSI_MAGIC_def

lemma length_magics [simp]:
  "length NOSI_MAGIC = 4" "length NOSB_MAGIC = 4" "length DEDUP_MAGIC = 4"
  "length BLOB_MAGIC = 4" "length BLOB_MAGIC_V2 = 4"
  by (simp_all add: magic_defs)

lemma detect_nosi: "8 \<le> length rest \<Longrightarrow> detect_blob_format (NOSI_MAGIC @ rest) = Nosi"
  by (simp add: detect_blob_format_def)

lemma detect_nosb: "8 \<le> length rest \<Longrightarrow> detect_blob_format (NOSB_MAGIC @ rest) = Nosb"
  by (simp add: detect_blob_format_def magic_defs)

lemma detect_nosd: "12 \<le> length rest \<Longrightarrow> detect_blob_format (DEDUP_MAGIC @ rest) = Nosd"
  by (simp add: detect_blob_format_def magic_defs)

lemma detect_length: "detect_blob_format data \<noteq> Raw \<Longrightarrow> 12 \<le> length data"
  by (auto simp: detect_blob_format_def split: if_splits)

lemma prefix_take: "prefix p data \<Longrightarrow> length p \<le> n \<Longrightarrow> prefix p (take n data)"
  by (auto simp: prefix_def)

lemma prefix_take_iff: "length p \<le> n \<Longrightarrow> prefix p (take n data) \<longleftrightarrow> prefix p data"
  using prefix_take prefix_order.trans take_is_prefix by blast

lemma detect_take: "16 \<le> n \<Longrightarrow> detect_blob_format (take n data) = detect_blob_format data"
  by (simp add: detect_blob_format_def prefix_take_iff min_def)

section \<open>Index entries\<close>

lemma length_encode_entry [simp]: "length (encode_entry e) = 16"
  by (simp add: encode_entry_def)

lemma length_concat_encode [simp]: "length (concat (map encode_entry idx)) = 16 * length idx"
  by (induction idx) auto

lemma read_entries_total:
  "pos + n * 16 \<le> length data \<Longrightarrow> \<exists>es. read_entries n pos data = Ok es \<and> length es = n"
proof (induction n arbitrary: pos)
  case 0
  then show ?case by simp
next
  case (Suc n)
  from Suc.IH [of "pos + 16"] Suc.prems obtain es
    where "read_entries n (pos + 16) data = Ok es" "length es = n" by auto
  with Suc.prems show ?case by (simp add: get_eqs)
qed

lemma read_entries_length: "read_entries n pos data = Ok es \<Longrightarrow> length es = n"
  by (induction n arbitrary: pos es) (auto simp: result_simps)

lemma read_entries_append:
  "pos + n * 16 \<le> length data \<Longrightarrow> read_entries n pos (data @ rest) = read_entries n pos data"
  by (induction n arbitrary: pos) (auto simp: get_eqs slice_append_left)

lemma read_entries_encode:
  "read_entries (length idx) (length pre) (pre @ concat (map encode_entry idx) @ rest) = Ok idx"
proof (induction idx arbitrary: pre)
  case Nil
  then show ?case by simp
next
  case (Cons e idx)
  from Cons [of "pre @ encode_entry e"] show ?case
    by (simp add: get_eqs codec_simps encode_entry_def)
qed

lemma validate_entries_iff:
  "validate_entries idx lsize pl pc = Ok () \<longleftrightarrow>
     sorted_wrt (<) (pl # map logical_end idx) \<and> (\<forall>e \<in> set idx. logical_end e \<le> lsize) \<and>
     sorted (pc # map compressed_offset idx)"
proof (induction idx arbitrary: pl pc)
  case Nil
  then show ?case by simp
next
  case (Cons e idx)
  then show ?case by (auto simp: not_less not_le intro: less_trans order_trans)
qed

lemma validate_entries_neq_Panic: "validate_entries idx lsize pl pc \<noteq> Panic"
  by (induction idx arbitrary: pl pc) auto

text \<open>What a validated index promises: block ends increase strictly from 0 up to the logical size.\<close>

definition wf_index :: "index_entry list \<Rightarrow> u64 \<Rightarrow> bool" where
  "wf_index idx lsize \<longleftrightarrow>
     validate_index idx lsize = Ok () \<and> (if idx = [] then lsize = 0 else logical_end (last idx) = lsize)"

lemma wf_index_sorted: "wf_index idx lsize \<Longrightarrow> sorted_wrt (<) (map logical_end idx)"
  by (simp add: wf_index_def validate_index_def validate_entries_iff)

lemma wf_index_nth_less:
  "wf_index idx lsize \<Longrightarrow> i < j \<Longrightarrow> j < length idx \<Longrightarrow> logical_end (idx ! i) < logical_end (idx ! j)"
  using sorted_wrt_nth_less [OF wf_index_sorted] by fastforce

lemma wf_index_nth_pos: "wf_index idx lsize \<Longrightarrow> i < length idx \<Longrightarrow> 0 < logical_end (idx ! i)"
  by (auto simp: wf_index_def validate_index_def validate_entries_iff)

lemma wf_index_last: "wf_index idx lsize \<Longrightarrow> idx \<noteq> [] \<Longrightarrow> logical_end (idx ! (length idx - 1)) = lsize"
  by (auto simp: wf_index_def last_conv_nth)

section \<open>Parsed layouts\<close>

lemma index_needed:
  assumes "unat (count :: u32) \<le> MAX_BLOCK_COUNT" "f \<le> 25"
  shows "\<exists>m n. checked_mul (ucast count :: u64) 16 = Some m \<and> checked_add (of_nat f) m = Some n \<and>
    unat n = f + unat count * 16"
proof -
  have u: "unat (ucast count :: u64) = unat count" by (simp add: unat_ucast_up)
  have f: "unat (of_nat f :: u64) = f" using assms(2) by (simp add: unat_of_nat)
  have m: "unat (ucast count * 16 :: u64) = unat count * 16"
    using assms u by (simp add: unat_word_ariths)
  have "unat (of_nat f + ucast count * 16 :: u64) = f + unat count * 16"
    using assms m f by (simp add: unat_add_no_overflow)
  with assms u m f show ?thesis by (simp add: checked_mul_def checked_add_def)
qed
lemma parse_index_eq:
  assumes "f \<le> 25"
  shows "parse_index data f lsize =
    (if length data < f + 4 then Err (Internal ''block index truncated'')
     else and_then (get_u32 16 data) (\<lambda>count.
       if MAX_BLOCK_COUNT < unat count then Err (Internal ''block count exceeds limit'')
       else if length data < f + unat count * 16 then Err (Internal ''block index truncated'')
       else and_then (read_entries (unat count) f data) (\<lambda>idx.
         and_then (validate_index idx lsize) (\<lambda>_.
         if idx \<noteq> [] then
           if logical_end (last idx) \<noteq> lsize then Err (Internal ''index logical_end mismatch'') else Ok idx
         else if lsize \<noteq> 0 then Err (Internal ''empty index for non-empty object'')
         else Ok idx))))"
  unfolding parse_index_def
  apply (intro if_cong refl and_then_cong)
  subgoal for count using index_needed [of count f] assms by auto
  done

lemma parse_index_neq_Panic:
  assumes "20 \<le> f" "f \<le> 25"
  shows "parse_index data f lsize \<noteq> Panic"
proof
  assume "parse_index data f lsize = Panic"
  with assms obtain n where n: "f + n * 16 \<le> length data"
    and "read_entries n f data = Panic \<or>
      (\<exists>idx. read_entries n f data = Ok idx \<and> validate_index idx lsize = Panic)"
    by (auto simp: parse_index_eq get_eqs result_simps not_less split: if_splits)
  with read_entries_total [OF n] show False
    by (auto simp: validate_index_def validate_entries_neq_Panic)
qed

lemma parse_index_Ok_iff:
  assumes "20 \<le> f" "f \<le> 25"
  shows "parse_index data f lsize = Ok idx \<longleftrightarrow>
    f + 4 \<le> length data \<and> f + length idx * 16 \<le> length data \<and> length idx \<le> MAX_BLOCK_COUNT \<and>
    unat (from_le_bytes (slice 16 20 data) :: u32) = length idx \<and>
    read_entries (length idx) f data = Ok idx \<and> wf_index idx lsize"
proof -
  let ?count = "from_le_bytes (slice 16 20 data) :: u32"
  have "parse_index data f lsize = Ok idx \<longleftrightarrow>
    f + 4 \<le> length data \<and> unat ?count \<le> MAX_BLOCK_COUNT \<and> f + unat ?count * 16 \<le> length data \<and>
    read_entries (unat ?count) f data = Ok idx \<and> wf_index idx lsize"
    using assms by (simp add: parse_index_eq get_eqs result_simps wf_index_def not_less) auto
  then show ?thesis by (auto dest: read_entries_length)
qed

text \<open>
  Well-formedness of a layout against the bytes it was read from: the index is strictly increasing
  and ends at the logical size, and the block data starts where header and index end, inside the
  blob.
\<close>

definition wf_layout :: "bytes \<Rightarrow> blob_layout \<Rightarrow> bool" where
  "wf_layout data l \<longleftrightarrow>
     wf_index (index l) (logical_size l) \<and> length (index l) \<le> MAX_BLOCK_COUNT \<and>
     unat (data_offset l) = header_len l \<and> header_len l \<le> length data"

lemma nosi_header_info_cases:
  assumes "24 \<le> length data"
  obtains (level) "fl AND NOSI_FLAG_HAS_LEVEL \<noteq> 0" "25 \<le> length data"
      "nosi_header_info data fl = Ok (25, data ! 24)"
  | (plain) "fl AND NOSI_FLAG_HAS_LEVEL = 0 \<or> length data < 25" "nosi_header_info data fl = Ok (24, 0)"
proof (cases "fl AND NOSI_FLAG_HAS_LEVEL \<noteq> 0 \<and> 25 \<le> length data")
  case True
  then show ?thesis by (intro level) (auto simp: nosi_header_info_def get_u8_def)
next
  case False
  then show ?thesis by (intro plain) (auto simp: nosi_header_info_def)
qed

lemma unat_data_offset: "n \<le> MAX_BLOCK_COUNT \<Longrightarrow> f \<le> 25 \<Longrightarrow> unat (of_nat (f + n * 16) :: u64) = f + n * 16"
  by (simp only: unat_of_nat) simp

lemma parse_layout_neq_Panic: "parse_layout_bytes data \<noteq> Panic"
proof -
  have "nosi_header_info data fl = Ok (f, lv) \<Longrightarrow> f = 24 \<or> f = 25" for fl f lv
    by (auto simp: nosi_header_info_def result_simps split: if_splits)
  moreover have "24 \<le> length data \<Longrightarrow> nosi_header_info data fl \<noteq> Panic" for fl
    by (auto simp: nosi_header_info_def get_u8_def)
  ultimately show ?thesis
    using parse_index_neq_Panic [of 20 data] parse_index_neq_Panic [of 24 data] parse_index_neq_Panic [of 25 data]
    by (auto simp: parse_layout_bytes_def result_simps get_eqs split: blob_format.splits) fastforce+
qed

lemma parse_layout_nosi_iff:
  assumes "detect_blob_format data = Nosi"
  shows "parse_layout_bytes data = Ok l \<longleftrightarrow>
    24 \<le> length data \<and> layout_format l = V1 \<and>
    logical_size l = from_le_bytes (slice 4 12 data) \<and> block_size l = from_le_bytes (slice 12 16 data) \<and>
    dict_id l = from_le_bytes (slice 20 22 data) \<and> flags l = from_le_bytes (slice 22 24 data) \<and>
    (\<exists>f. nosi_header_info data (flags l) = Ok (f, zstd_level l) \<and>
         parse_index data f (logical_size l) = Ok (index l) \<and>
         data_offset l = of_nat (f + length (index l) * 16))"
  using assms
  by (cases l) (auto simp: parse_layout_bytes_def result_simps get_eqs)

lemma parse_layout_nosb_iff:
  assumes "detect_blob_format data = Nosb"
  shows "parse_layout_bytes data = Ok l \<longleftrightarrow>
    20 \<le> length data \<and> layout_format l = V0 \<and>
    logical_size l = from_le_bytes (slice 4 12 data) \<and> block_size l = from_le_bytes (slice 12 16 data) \<and>
    dict_id l = 0 \<and> flags l = 0 \<and> zstd_level l = 0 \<and>
    parse_index data 20 (logical_size l) = Ok (index l) \<and>
    data_offset l = of_nat (20 + length (index l) * 16)"
  using assms
  by (cases l) (auto simp: parse_layout_bytes_def result_simps get_eqs)

lemma parse_layout_detect: "parse_layout_bytes data = Ok l \<Longrightarrow> detect_blob_format data = Nosi \<or> detect_blob_format data = Nosb"
  by (auto simp: parse_layout_bytes_def split: blob_format.splits)

lemma parse_layout_wf:
  assumes "parse_layout_bytes data = Ok l"
  shows "wf_layout data l"
  using parse_layout_detect [OF assms]
proof
  assume d: "detect_blob_format data = Nosi"
  with assms obtain f where f: "24 \<le> length data" "layout_format l = V1"
    "nosi_header_info data (flags l) = Ok (f, zstd_level l)"
    "parse_index data f (logical_size l) = Ok (index l)"
    "data_offset l = of_nat (f + length (index l) * 16)"
    by (auto simp: parse_layout_nosi_iff)
  show ?thesis
  proof (rule nosi_header_info_cases [OF f(1), of "flags l"])
    assume "nosi_header_info data (flags l) = Ok (25, data ! 24)" "flags l AND NOSI_FLAG_HAS_LEVEL \<noteq> 0"
    with f show ?thesis
      by (auto simp: parse_index_Ok_iff wf_layout_def header_len_def fixed_header_len_def
        unat_data_offset simp del: of_nat_add of_nat_mult)
  next
    assume "nosi_header_info data (flags l) = Ok (24, 0)" "flags l AND NOSI_FLAG_HAS_LEVEL = 0 \<or> length data < 25"
    with f show ?thesis
      by (auto simp: parse_index_Ok_iff wf_layout_def header_len_def fixed_header_len_def
        unat_data_offset simp del: of_nat_add of_nat_mult)
  qed
next
  assume "detect_blob_format data = Nosb"
  with assms show ?thesis
    by (auto simp: parse_layout_nosb_iff parse_index_Ok_iff wf_layout_def header_len_def
      fixed_header_len_def unat_data_offset simp del: of_nat_add of_nat_mult)
qed

lemma has_level_or: "(fl OR NOSI_FLAG_HAS_LEVEL) AND NOSI_FLAG_HAS_LEVEL = NOSI_FLAG_HAS_LEVEL"
  by (simp add: bit_eq_iff bit_simps)

lemma has_level_nonzero [simp]: "NOSI_FLAG_HAS_LEVEL \<noteq> 0"
  by (simp add: NOSI_FLAG_HAS_LEVEL_def)

lemma parse_header_v1:
  assumes "idx \<noteq> []" "length idx \<le> MAX_BLOCK_COUNT" "wf_index idx lsize"
  shows "parse_layout_bytes (write_blob_header_v1 lsize bsize idx did fl level @ rest) =
    Ok \<lparr>layout_format = V1, logical_size = lsize, block_size = bsize, dict_id = did,
        flags = fl OR NOSI_FLAG_HAS_LEVEL, zstd_level = level, index = idx,
        data_offset = of_nat (25 + length idx * 16)\<rparr>"
    (is "parse_layout_bytes ?data = Ok ?l")
proof -
  let ?pre = "NOSI_MAGIC @ to_le_bytes lsize @ to_le_bytes bsize @ to_le_bytes (of_nat (length idx) :: u32) @
     to_le_bytes did @ to_le_bytes (fl OR NOSI_FLAG_HAS_LEVEL) @ [level]"
  have len: "length ?data = 25 + length idx * 16 + length rest"
    by (simp add: write_blob_header_v1_def)
  have fields: "slice 4 12 ?data = to_le_bytes lsize" "slice 12 16 ?data = to_le_bytes bsize"
    "slice 16 20 ?data = to_le_bytes (of_nat (length idx) :: u32)"
    "slice 20 22 ?data = to_le_bytes did" "slice 22 24 ?data = to_le_bytes (fl OR NOSI_FLAG_HAS_LEVEL)"
    "?data ! 24 = level"
    by (simp_all add: write_blob_header_v1_def codec_simps nth_append)
  have det: "detect_blob_format ?data = Nosi"
    by (simp add: write_blob_header_v1_def detect_nosi)
  have count: "unat (of_nat (length idx) :: u32) = length idx"
    using assms(2) by (simp add: unat_of_nat)
  have "1 \<le> length idx" using assms(1) by (cases idx) auto
  moreover have "read_entries (length idx) 25 ?data = Ok idx"
    using read_entries_encode [of idx ?pre rest] by (simp add: write_blob_header_v1_def)
  ultimately have pidx: "parse_index ?data 25 lsize = Ok idx"
    using assms len count by (simp add: parse_index_Ok_iff fields)
  have "nosi_header_info ?data (fl OR NOSI_FLAG_HAS_LEVEL) = Ok (25, level)"
    using len fields(6) by (simp add: nosi_header_info_def has_level_or get_u8_def)
  with det len fields pidx show ?thesis
    by (simp add: parse_layout_nosi_iff)
qed

lemma parse_header_v0:
  assumes "idx \<noteq> []" "length idx \<le> MAX_BLOCK_COUNT" "wf_index idx lsize"
  shows "parse_layout_bytes (write_blob_header_v0 lsize bsize idx @ rest) =
    Ok \<lparr>layout_format = V0, logical_size = lsize, block_size = bsize, dict_id = 0, flags = 0,
        zstd_level = 0, index = idx, data_offset = of_nat (20 + length idx * 16)\<rparr>"
    (is "parse_layout_bytes ?data = Ok ?l")
proof -
  let ?pre = "NOSB_MAGIC @ to_le_bytes lsize @ to_le_bytes bsize @ to_le_bytes (of_nat (length idx) :: u32)"
  have len: "length ?data = 20 + length idx * 16 + length rest"
    by (simp add: write_blob_header_v0_def)
  have fields: "slice 4 12 ?data = to_le_bytes lsize" "slice 12 16 ?data = to_le_bytes bsize"
    "slice 16 20 ?data = to_le_bytes (of_nat (length idx) :: u32)"
    by (simp_all add: write_blob_header_v0_def codec_simps)
  have det: "detect_blob_format ?data = Nosb"
    by (simp add: write_blob_header_v0_def detect_nosb)
  have count: "unat (of_nat (length idx) :: u32) = length idx"
    using assms(2) by (simp add: unat_of_nat)
  have "1 \<le> length idx" using assms(1) by (cases idx) auto
  moreover have "read_entries (length idx) 20 ?data = Ok idx"
    using read_entries_encode [of idx ?pre rest] by (simp add: write_blob_header_v0_def)
  ultimately have "parse_index ?data 20 lsize = Ok idx"
    using assms len count by (simp add: parse_index_Ok_iff fields)
  with det len fields show ?thesis by (simp add: parse_layout_nosb_iff)
qed

lemma block_search_spec:
  assumes "sorted_wrt (<) (map logical_end idx)" "lo \<le> hi" "hi \<le> length idx"
    "\<forall>i < lo. logical_end (idx ! i) \<le> off" "\<forall>i. hi \<le> i \<and> i < length idx \<longrightarrow> off < logical_end (idx ! i)"
  shows "block_search idx off lo hi \<le> length idx \<and>
    (\<forall>i < block_search idx off lo hi. logical_end (idx ! i) \<le> off) \<and>
    (\<forall>i. block_search idx off lo hi \<le> i \<and> i < length idx \<longrightarrow> off < logical_end (idx ! i))"
  using assms
proof (induction idx off lo hi rule: block_search.induct)
  case (1 idx off lo hi)
  show ?case
  proof (cases "lo < hi")
    case False
    then have "block_search idx off lo hi = lo" by (simp add: block_search.simps [of idx off lo hi])
    with False "1.prems" show ?thesis by auto
  next
    case True
    define mid where "mid = lo + (hi - lo) div 2"
    from True have m: "lo \<le> mid" "mid < hi" by (auto simp: mid_def)
    have mono: "logical_end (idx ! i) < logical_end (idx ! j)" if "i < j" "j < length idx" for i j
      using sorted_wrt_nth_less [OF "1.prems"(1), of i j] that by simp
    show ?thesis
    proof (cases "off < logical_end (idx ! mid)")
      case gt: True
      have "off < logical_end (idx ! i)" if "mid \<le> i" "i < length idx" for i
        using mono [of mid i] gt that by (cases "i = mid") auto
      with "1.IH"(1) [OF True mid_def gt] "1.prems" m gt True show ?thesis
        by (simp add: block_search.simps [of idx off lo hi] mid_def [symmetric])
    next
      case False
      have "logical_end (idx ! i) \<le> off" if "i < mid + 1" for i
        using mono [of i mid] False that m "1.prems"(3) by (cases "i = mid") auto
      with "1.IH"(2) [OF True mid_def False] "1.prems" m False True show ?thesis
        by (simp add: block_search.simps [of idx off lo hi] mid_def [symmetric])
    qed
  qed
qed

lemma block_for_offset_spec:
  assumes "wf_index (index l) (logical_size l)" "off < logical_size l"
  shows "block_for_offset l off < length (index l) \<and> off < logical_end (index l ! block_for_offset l off) \<and>
    (\<forall>i < block_for_offset l off. logical_end (index l ! i) \<le> off)"
proof -
  let ?r = "block_search (index l) off 0 (length (index l))"
  from assms have ne: "index l \<noteq> []" by (auto simp: wf_index_def)
  have r: "\<forall>i < ?r. logical_end (index l ! i) \<le> off"
    "\<forall>i. ?r \<le> i \<and> i < length (index l) \<longrightarrow> off < logical_end (index l ! i)"
    using block_search_spec [OF wf_index_sorted [OF assms(1)], of 0 "length (index l)" off]
    by (metis le0 linorder_not_le order_refl not_less_zero)+
  have "?r \<le> length (index l) - 1"
  proof (rule ccontr)
    assume "\<not> ?r \<le> length (index l) - 1"
    with r(1) have "logical_end (index l ! (length (index l) - 1)) \<le> off" by simp
    with assms wf_index_last [OF assms(1) ne] show False by simp
  qed
  moreover from this ne have "?r < length (index l)" by (cases "index l") auto
  ultimately show ?thesis using ne r by (simp add: block_for_offset_def min_absorb1)
qed

section \<open>The streaming reader agrees with the in-memory parser\<close>

lemma read_entries_take:
  "pos + n * 16 \<le> m \<Longrightarrow> m \<le> length data \<Longrightarrow> read_entries n pos (take m data) = read_entries n pos data"
  using read_entries_append [of pos n "take m data" "drop m data"] by simp

lemma parse_index_take:
  assumes "20 \<le> f" "f \<le> 25" "n = f + unat (from_le_bytes (slice 16 20 data) :: u32) * 16" "n \<le> length data"
  shows "parse_index (take n data) f lsize = Ok idx \<longleftrightarrow> parse_index data f lsize = Ok idx \<and> idx \<noteq> []"
proof -
  have s: "slice 16 20 (take n data) = slice 16 20 data" using assms by (intro slice_take) simp
  show ?thesis
  proof (cases "unat (from_le_bytes (slice 16 20 data) :: u32) = length idx")
    case True
    moreover from True assms have "read_entries (length idx) f (take n data) = read_entries (length idx) f data"
      by (intro read_entries_take) simp_all
    ultimately show ?thesis using assms s by (cases idx) (auto simp: parse_index_Ok_iff)
  next
    case False
    with assms s show ?thesis by (auto simp: parse_index_Ok_iff)
  qed
qed

text \<open>The fixed header length a reader settles on, from the bytes it has.\<close>

definition fixed_len_of :: "bytes \<Rightarrow> nat option" where
  "fixed_len_of data =
     (case detect_blob_format data of
        Nosb \<Rightarrow> if 20 \<le> length data then Some 20 else None
      | Nosi \<Rightarrow>
          if length data < 24 then None
          else if (from_le_bytes (slice 22 24 data) :: u16) AND NOSI_FLAG_HAS_LEVEL = 0 then Some 24
          else if 25 \<le> length data then Some 25 else None
      | _ \<Rightarrow> None)"

lemma fixed_len_of_bounds: "fixed_len_of data = Some f \<Longrightarrow> 20 \<le> f \<and> f \<le> 25 \<and> f \<le> length data"
  by (auto simp: fixed_len_of_def split: blob_format.splits if_splits)

lemma take_append_drop_take: "take n xs @ take m (drop n xs) = take (n + m) xs"
  by (simp add: take_add)

lemma read_fixed_header_Ok:
  "read_fixed_header file = Ok (h, rest) \<longleftrightarrow>
     (\<exists>f. fixed_len_of file = Some f \<and> h = take f file \<and> rest = drop f file)"
proof (cases "20 \<le> length file")
  case False
  then show ?thesis
    by (auto simp: read_fixed_header_def read_exact_def fixed_len_of_def split: blob_format.splits)
next
  case True
  have s: "slice 22 24 (take 24 file) = slice 22 24 file" by (rule slice_take) simp
  have t: "take 20 file @ take 4 (drop 20 file) = take 24 file"
    "take 20 file @ take 4 (drop 20 file) @ take (Suc 0) (drop 24 file) = take 25 file"
    using take_append_drop_take [of 20 "file" 4] take_append_drop_take [of 24 "file" 1] by (simp_all add: append_assoc [symmetric] del: append_assoc)
  show ?thesis
    using True detect_take [of 20 "file"]
    by (cases "detect_blob_format file")
      (auto simp: read_fixed_header_def read_exact_def fixed_len_of_def get_eqs s t drop_drop)
qed

lemma parse_layout_iff:
  "parse_layout_bytes data = Ok l \<longleftrightarrow>
     (\<exists>f. fixed_len_of data = Some f \<and> parse_index data f (logical_size l) = Ok (index l) \<and>
       logical_size l = from_le_bytes (slice 4 12 data) \<and> block_size l = from_le_bytes (slice 12 16 data) \<and>
       data_offset l = of_nat (f + length (index l) * 16) \<and>
       (layout_format l, dict_id l, flags l, zstd_level l) =
         (if detect_blob_format data = Nosb then (V0, 0, 0, 0)
          else (V1, from_le_bytes (slice 20 22 data), from_le_bytes (slice 22 24 data),
                if f = 25 then data ! 24 else 0)))"
proof (cases "detect_blob_format data")
  case Nosi
  then show ?thesis
    by (auto simp: parse_layout_nosi_iff fixed_len_of_def nosi_header_info_def get_u8_def
      parse_index_Ok_iff split: if_splits)
next
  case Nosb
  then show ?thesis
    by (auto simp: parse_layout_nosb_iff fixed_len_of_def parse_index_Ok_iff)
qed (auto simp: fixed_len_of_def parse_layout_bytes_def)

lemma fixed_len_of_take:
  assumes "fixed_len_of data = Some f" "f \<le> n" "n \<le> length data"
  shows "fixed_len_of (take n data) = Some f"
  using assms fixed_len_of_bounds [OF assms(1)]
  by (auto simp: fixed_len_of_def detect_take slice_take split: blob_format.splits if_splits)

lemma parse_layout_take:
  assumes "fixed_len_of data = Some f"
    and "n = f + unat (from_le_bytes (slice 16 20 data) :: u32) * 16" "n \<le> length data"
  shows "parse_layout_bytes (take n data) = Ok l \<longleftrightarrow> parse_layout_bytes data = Ok l \<and> index l \<noteq> []"
proof -
  have f: "20 \<le> f" "f \<le> 25" "f \<le> length data" using fixed_len_of_bounds [OF assms(1)] by auto
  have "fixed_len_of (take n data) = Some f" using assms by (intro fixed_len_of_take) auto
  moreover have "detect_blob_format (take n data) = detect_blob_format data"
    using f assms(2) by (intro detect_take) simp
  moreover have "slice 4 12 (take n data) = slice 4 12 data" "slice 12 16 (take n data) = slice 12 16 data"
    using f assms(2) by (auto intro: slice_take)
  moreover have "detect_blob_format data \<noteq> Nosb \<Longrightarrow> 24 \<le> f"
    using assms(1) by (auto simp: fixed_len_of_def split: blob_format.splits if_splits)
  then have "detect_blob_format data \<noteq> Nosb \<Longrightarrow> slice 20 22 (take n data) = slice 20 22 data \<and>
      slice 22 24 (take n data) = slice 22 24 data"
    using f assms(2) by (auto intro: slice_take)
  moreover have "f = 25 \<Longrightarrow> take n data ! 24 = data ! 24" using assms(2) by simp
  ultimately show ?thesis
    using parse_index_take [OF f(1,2) assms(2,3)] assms(1) by (auto simp: parse_layout_iff)
qed

lemma read_layout_iff:
  "read_blob_layout file = Ok l \<longleftrightarrow> parse_layout_bytes file = Ok l \<and> index l \<noteq> []"
proof (cases "fixed_len_of file")
  case None
  then show ?thesis
    by (auto simp: read_blob_layout_def result_simps read_fixed_header_Ok parse_layout_iff)
next
  case (Some f)
  let ?count = "from_le_bytes (slice 16 20 file) :: u32"
  let ?n = "f + unat ?count * 16"
  have f: "20 \<le> f" "f \<le> 25" "f \<le> length file" using fixed_len_of_bounds [OF Some] by auto
  have hdr: "read_fixed_header file = Ok (take f file, drop f file)"
    using Some by (simp add: read_fixed_header_Ok)
  have count: "get_u32 16 (take f file) = Ok ?count"
    using f by (simp add: get_u32_eq slice_take)
  have "read_blob_layout file = Ok l \<longleftrightarrow>
    unat ?count \<le> MAX_BLOCK_COUNT \<and> ?n \<le> length file \<and> parse_layout_bytes (take ?n file) = Ok l"
    using f by (simp add: read_blob_layout_def hdr count read_exact_def take_append_drop_take) linarith
  also have "\<dots> \<longleftrightarrow> parse_layout_bytes file = Ok l \<and> index l \<noteq> []"
  proof -
    have "unat ?count \<le> MAX_BLOCK_COUNT \<and> ?n \<le> length file" if "parse_layout_bytes file = Ok l"
      using that f Some by (simp add: parse_layout_iff parse_index_Ok_iff)
    then show ?thesis using parse_layout_take [OF Some refl] by blast
  qed
  finally show ?thesis .
qed

section \<open>Block headers\<close>

lemma block_header_len_cases: "block_header_len l = 8 \<or> block_header_len l = 16"
  by (simp add: block_header_len_def split: indexed_format.splits)

lemma unat_offset_plus:
  "n \<le> 16 \<Longrightarrow> unat (off + of_nat n :: u64) =
     (if unat off + n < 2 ^ 64 then unat off + n else unat off + n - 2 ^ 64)"
  using unat_less_width [of off]
  by (auto simp: unat_word_ariths unat_of_nat le_mod_geq)

lemma parse_block_header_Ok:
  assumes "unat off + block_header_len l \<le> length blob" "unat off + block_header_len l < 2 ^ 64"
  shows "parse_block_header_at blob off l =
    Ok \<lparr>block_type = blob ! unat off, payload_len = from_le_bytes (slice (unat off + 4) (unat off + 8) blob),
        logical_checksum = (case layout_format l of V0 \<Rightarrow> None
          | V1 \<Rightarrow> Some (from_le_bytes (slice (unat off + 8) (unat off + 16) blob))),
        parsed_header_len = block_header_len l\<rparr>"
proof -
  define hl where "hl = block_header_len l"
  have hl: "hl = 8 \<or> hl = 16" "layout_format l = V1 \<Longrightarrow> hl = 16"
    using block_header_len_cases [of l] by (simp_all add: hl_def block_header_len_def)
  have u: "unat (off + of_nat hl) = unat off + hl"
    using assms hl(1) by (subst unat_offset_plus) (auto simp: hl_def)
  define header where "header = slice (unat off) (unat off + hl) blob"
  have sl: "slice a b header = slice (unat off + a) (unat off + b) blob" if "b \<le> hl" for a b
    using that by (simp add: header_def slice_def drop_take add.commute min_def)
  have h: "length header = hl" "header ! 0 = blob ! unat off"
    using assms hl(1) by (auto simp: header_def slice_def hl_def)
  have "slice_at (unat off) (unat off + hl) blob = Ok header"
    using assms by (simp add: slice_at_def header_def hl_def)
  then show ?thesis
    using assms hl h sl [of 8 4] sl [of 16 8]
    unfolding parse_block_header_at_def Let_def hl_def [symmetric] u
    by (cases "layout_format l") (auto simp: get_eqs)
qed

lemma parse_block_header_panic_iff:
  "parse_block_header_at blob off l = Panic \<longleftrightarrow>
     2 ^ 64 \<le> unat off + block_header_len l \<and> unat off + block_header_len l - 2 ^ 64 \<le> length blob"
proof -
  have hl: "block_header_len l \<le> 16" using block_header_len_cases [of l] by auto
  note u = unat_offset_plus [OF hl, of off]
  show ?thesis
  proof (cases "unat off + block_header_len l < 2 ^ 64")
    case True
    then show ?thesis
      using parse_block_header_Ok [of off l blob]
      by (cases "unat off + block_header_len l \<le> length blob")
        (auto simp: parse_block_header_at_def Let_def u)
  next
    case False
    with hl have "unat off + block_header_len l - 2 ^ 64 < unat off" by simp
    with False show ?thesis
      by (auto simp: parse_block_header_at_def Let_def u slice_at_def)
  qed
qed

lemma parse_written_block_header:
  assumes "layout_format l = V1" "off = of_nat (length pre)" "length pre + 16 + length rest < 2 ^ 64"
  shows "parse_block_header_at (pre @ write_block_header_v1 [] btype plen checksum @ rest) off l =
    Ok \<lparr>block_type = btype, payload_len = plen, logical_checksum = Some checksum, parsed_header_len = 16\<rparr>"
proof -
  have "unat off = length pre" using assms by (simp add: unat_of_nat)
  with assms show ?thesis
    by (simp add: parse_block_header_Ok block_header_len_def write_block_header_v1_def codec_simps nth_append)
qed

section \<open>Dedup manifests\<close>

lemma read_manifest_entries_total:
  "off + n * 12 \<le> length data \<Longrightarrow> \<exists>es. read_manifest_entries n off data = Ok es \<and> length es = n"
proof (induction n arbitrary: off)
  case 0
  then show ?case by simp
next
  case (Suc n)
  from Suc.IH [of "off + 12"] Suc.prems obtain es
    where "read_manifest_entries n (off + 12) data = Ok es" "length es = n" by auto
  with Suc.prems show ?case by (simp add: get_eqs)
qed

definition encode_manifest_entry :: "u64 \<times> u32 \<Rightarrow> bytes" where
  "encode_manifest_entry p = to_le_bytes (fst p) @ to_le_bytes (snd p)"

lemma length_encode_manifest_entry [simp]: "length (encode_manifest_entry p) = 12"
  by (simp add: encode_manifest_entry_def)

lemma length_concat_manifest [simp]: "length (concat (map encode_manifest_entry es)) = 12 * length es"
  by (induction es) auto

lemma read_manifest_entries_encode:
  "read_manifest_entries (length es) (length pre) (pre @ concat (map encode_manifest_entry es)) = Ok es"
proof (induction es arbitrary: pre)
  case Nil
  then show ?case by simp
next
  case (Cons e es)
  from Cons [of "pre @ encode_manifest_entry e"] show ?case
    by (cases e) (simp add: get_eqs codec_simps encode_manifest_entry_def)
qed

lemma manifest_len:
  "\<exists>n. Option.bind (checked_mul (ucast (count :: u32) :: u64) 12) (\<lambda>n. checked_add n 16) = Some n \<and>
     unat n = 16 + unat count * 12"
proof -
  have u: "unat (ucast count :: u64) = unat count" by (simp add: unat_ucast_up)
  have c: "unat count < 2 ^ 32" using unat_less_width [of count] by simp
  have m: "unat (ucast count * 12 :: u64) = unat count * 12"
    using c u by (simp add: unat_word_ariths)
  have "unat (ucast count * 12 + 16 :: u64) = unat count * 12 + 16"
    using c m by (simp add: unat_add_no_overflow)
  with c u m show ?thesis by (simp add: checked_mul_def checked_add_def)
qed

lemma unat_sum_sizes:
  "length es \<le> 2 ^ 32 \<Longrightarrow>
     unat (sum_list (map (\<lambda>(_, s :: u32). ucast s :: u64) es)) = sum_list (map (\<lambda>e. unat (snd e)) es) \<and>
     sum_list (map (\<lambda>e. unat (snd e)) es) \<le> length es * (2 ^ 32 - 1)"
proof (induction es)
  case Nil
  then show ?case by simp
next
  case (Cons e es)
  obtain h s where e: "e = (h, s)" by (cases e)
  have s: "unat s \<le> 2 ^ 32 - 1" using unat_less_width [of s] by simp
  have u: "unat (ucast s :: u64) = unat s" by (simp add: unat_ucast_up)
  from Cons have IH: "unat (sum_list (map (\<lambda>(_, s). ucast s :: u64) es)) = sum_list (map (\<lambda>e. unat (snd e)) es)"
    "sum_list (map (\<lambda>e. unat (snd e)) es) \<le> length es * (2 ^ 32 - 1)" by auto
  have "length es * (2 ^ 32 - 1) \<le> (2 ^ 32 - 1) * (2 ^ 32 - (1 :: nat))"
    using Cons.prems by (intro mult_le_mono1) simp
  with s IH u have "unat (ucast s + sum_list (map (\<lambda>(_, s). ucast s :: u64) es)) =
      unat s + sum_list (map (\<lambda>e. unat (snd e)) es)"
    by (subst unat_add_no_overflow) (simp_all add: u)
  with e s IH show ?case by simp
qed

text \<open>The total a manifest accounts for, summed on \<open>u64\<close> as the source does.\<close>

definition manifest_total :: "(u64 \<times> u32) list \<Rightarrow> u64" where
  "manifest_total es = sum_list (map (\<lambda>(_, s). ucast s) es)"

lemma parse_manifest_eq:
  assumes "detect_blob_format data = Nosd"
  shows "parse_dedup_manifest data expected =
    (if from_le_bytes (slice 4 12 data) \<noteq> expected then Err (Internal ''dedup manifest logical size mismatch'')
     else if length data \<noteq> 16 + unat (from_le_bytes (slice 12 16 data) :: u32) * 12
     then Err (Internal ''dedup manifest length mismatch'')
     else and_then (read_manifest_entries (unat (from_le_bytes (slice 12 16 data) :: u32)) 16 data) (\<lambda>es.
       if manifest_total es \<noteq> expected then Err (Internal ''dedup manifest sizes do not add up'') else Ok es))"
proof -
  let ?count = "from_le_bytes (slice 12 16 data) :: u32"
  have l: "16 \<le> length data"
    using assms by (auto simp: detect_blob_format_def split: if_splits)
  then have g: "get_u64 4 data = Ok (from_le_bytes (slice 4 12 data))" "get_u32 12 data = Ok ?count"
    by (simp_all add: get_eqs)
  obtain n where n: "Option.bind (checked_mul (ucast ?count :: u64) 12) (\<lambda>n. checked_add n 16) = Some n"
      "unat n = 16 + unat ?count * 12" using manifest_len by blast
  show ?thesis
    unfolding parse_dedup_manifest_def manifest_total_def by (simp add: assms g n cong: if_cong)
qed

lemma read_manifest_entries_length: "read_manifest_entries n off data = Ok es \<Longrightarrow> length es = n"
  by (induction n arbitrary: off es) (auto simp: result_simps)

lemma parse_manifest_Ok_iff:
  "parse_dedup_manifest data expected = Ok es \<longleftrightarrow>
     detect_blob_format data = Nosd \<and> from_le_bytes (slice 4 12 data) = expected \<and>
     unat (from_le_bytes (slice 12 16 data) :: u32) = length es \<and> length data = 16 + length es * 12 \<and>
     read_manifest_entries (length es) 16 data = Ok es \<and> manifest_total es = expected"
proof (cases "detect_blob_format data = Nosd")
  case True
  let ?n = "unat (from_le_bytes (slice 12 16 data) :: u32)"
  have "parse_dedup_manifest data expected = Ok es \<longleftrightarrow>
    from_le_bytes (slice 4 12 data) = expected \<and> length data = 16 + ?n * 12 \<and>
    read_manifest_entries ?n 16 data = Ok es \<and> manifest_total es = expected"
    unfolding parse_manifest_eq [OF True] by (auto simp: result_simps)
  also have "\<dots> \<longleftrightarrow> from_le_bytes (slice 4 12 data) = expected \<and> ?n = length es \<and>
    length data = 16 + length es * 12 \<and> read_manifest_entries (length es) 16 data = Ok es \<and>
    manifest_total es = expected"
    by (metis read_manifest_entries_length)
  finally show ?thesis using True by simp
next
  case False
  then show ?thesis by (simp add: parse_dedup_manifest_def)
qed

lemma parse_manifest_neq_Panic: "parse_dedup_manifest data expected \<noteq> Panic"
proof (cases "detect_blob_format data = Nosd")
  case True
  show ?thesis
    unfolding parse_manifest_eq [OF True]
    using read_manifest_entries_total [of 16 "unat (from_le_bytes (slice 12 16 data) :: u32)" data]
    by (auto simp: result_simps)
next
  case False
  then show ?thesis by (simp add: parse_dedup_manifest_def)
qed

definition encode_manifest :: "u64 \<Rightarrow> (u64 \<times> u32) list \<Rightarrow> bytes" where
  "encode_manifest lsize es =
     DEDUP_MAGIC @ to_le_bytes lsize @ to_le_bytes (of_nat (length es) :: u32) @
     concat (map encode_manifest_entry es)"

lemma parse_encoded_manifest:
  assumes "length es < 2 ^ 32" "manifest_total es = lsize"
  shows "parse_dedup_manifest (encode_manifest lsize es) lsize = Ok es"
proof -
  let ?pre = "DEDUP_MAGIC @ to_le_bytes lsize @ to_le_bytes (of_nat (length es) :: u32)"
  have "read_manifest_entries (length es) 16 (encode_manifest lsize es) = Ok es"
    using read_manifest_entries_encode [of es ?pre] by (simp add: encode_manifest_def)
  moreover have "unat (of_nat (length es) :: u32) = length es" using assms(1) by (simp add: unat_of_nat)
  ultimately show ?thesis
    using assms(2) by (simp add: parse_manifest_Ok_iff encode_manifest_def detect_nosd codec_simps)
qed

section \<open>Properties\<close>

text \<open>A concrete two-block layout for the witnesses.\<close>

definition sample_index :: "index_entry list" where
  "sample_index = [\<lparr>compressed_offset = 0, logical_end = 100\<rparr>, \<lparr>compressed_offset = 80, logical_end = 250\<rparr>]"

definition sample_layout :: blob_layout where
  "sample_layout = \<lparr>layout_format = V1, logical_size = 250, block_size = 128, dict_id = 3,
     flags = 1 OR NOSI_FLAG_HAS_LEVEL, zstd_level = 22, index = sample_index, data_offset = 57\<rparr>"

lemma wf_sample_index: "wf_index sample_index 250"
  by (simp add: wf_index_def validate_index_def sample_index_def)

lemma sample_header_parses:
  "parse_layout_bytes (write_blob_header_v1 250 128 sample_index 3 1 22) = Ok sample_layout"
  using parse_header_v1 [OF _ _ wf_sample_index, of 128 3 1 22 "[]"]
  by (simp add: sample_layout_def sample_index_def)

text \<open>C3: Writing an indexed (NOSI) header and parsing it back, with any block data behind it,
  returns exactly the fields written; the level flag is added to the flags, and block data starts
  right behind the index.\<close>

theorem header_v1_roundtrip:
  assumes "wf_index idx lsize" "idx \<noteq> []" "length idx \<le> MAX_BLOCK_COUNT"
  shows "parse_layout_bytes (write_blob_header_v1 lsize bsize idx did fl level @ rest) =
    Ok \<lparr>layout_format = V1, logical_size = lsize, block_size = bsize, dict_id = did,
        flags = fl OR NOSI_FLAG_HAS_LEVEL, zstd_level = level, index = idx,
        data_offset = of_nat (length (write_blob_header_v1 lsize bsize idx did fl level))\<rparr>"
  using assms by (simp add: parse_header_v1) (simp add: write_blob_header_v1_def)

theorem header_v1_roundtrip_witness:
  "parse_layout_bytes (write_blob_header_v1 250 128 sample_index 3 1 22 @ [7]) =
    Ok \<lparr>layout_format = V1, logical_size = 250, block_size = 128, dict_id = 3,
        flags = 1 OR NOSI_FLAG_HAS_LEVEL, zstd_level = 22, index = sample_index,
        data_offset = of_nat (length (write_blob_header_v1 250 128 sample_index 3 1 22))\<rparr>"
  by (rule header_v1_roundtrip [OF wf_sample_index]) (simp_all add: sample_index_def)




text \<open>C10: The streaming header reader and the in-memory parser agree: a file read through
  \<open>read_blob_layout\<close> gives a layout exactly when the whole blob parses to that layout and has at
  least one block.\<close>

theorem streaming_reader_agrees:
  "read_blob_layout file = Ok l \<longleftrightarrow> parse_layout_bytes file = Ok l \<and> 0 < block_count l"
  by (simp add: read_layout_iff block_count_def)

text \<open>C11: For every offset of an indexed object the binary search finds the block that holds it.\<close>

theorem block_for_offset_correct:
  assumes "parse_layout_bytes data = Ok l" "off < logical_size l"
  shows "\<exists>start len. logical_start l (block_for_offset l off) = Ok start \<and>
    logical_len l (block_for_offset l off) = Ok len \<and> unat start \<le> unat off \<and> unat off < unat start + unat len"
proof -
  let ?i = "block_for_offset l off"
  have wi: "wf_index (index l) (logical_size l)"
    using parse_layout_wf [OF assms(1)] by (simp add: wf_layout_def)
  from block_for_offset_spec [OF wi assms(2)]
  have i: "?i < length (index l)" "off < logical_end (index l ! ?i)"
    "\<forall>k < ?i. logical_end (index l ! k) \<le> off" by auto
  show ?thesis
    using i by (auto simp: logical_start_def logical_len_def index_at_def word_le_nat_alt word_less_nat_alt)
qed

theorem block_for_offset_correct_witness:
  "\<exists>l start len. parse_layout_bytes (write_blob_header_v1 250 128 sample_index 3 1 22) = Ok l \<and>
     logical_start l (block_for_offset l 120) = Ok start \<and> logical_len l (block_for_offset l 120) = Ok len \<and>
     unat start \<le> 120 \<and> 120 < unat start + unat len"
proof -
  have parsed: "parse_layout_bytes (write_blob_header_v1 250 128 sample_index 3 1 22) = Ok sample_layout"
    by (rule sample_header_parses)
  have "(120 :: u64) < logical_size sample_layout" by (simp add: sample_layout_def)
  from block_for_offset_correct [OF parsed this] parsed show ?thesis by auto
qed

text \<open>C12: The offset of a block is the sum of two numbers taken from the file. Where adding the block
  header length to it passes \<open>2 ^ 64\<close>, the bounds check of \<open>parse_block_header_at\<close> compares the
  wrapped sum and the slice behind it panics; everywhere else the function returns.\<close>

theorem block_header_panics_iff_wraps:
  "parse_block_header_at blob off l = Panic \<longleftrightarrow>
     2 ^ 64 \<le> unat off + block_header_len l \<and> unat off + block_header_len l - 2 ^ 64 \<le> length blob"
  by (rule parse_block_header_panic_iff)

text \<open>A 41-byte blob whose header and index pass every check and whose single block offset makes the
  dedup scan panic.\<close>

lemma corrupt_offset_panics:
  "collect_dedup_refs (write_blob_header_v1 1 4096
     [\<lparr>compressed_offset = 18446744073709551559, logical_end = 1\<rparr>] 0 NOSI_FLAG_DEDUP 3) = Panic"
    (is "collect_dedup_refs ?blob = Panic")
proof -
  let ?idx = "[\<lparr>compressed_offset = 18446744073709551559, logical_end = 1\<rparr>]"
  have "wf_index ?idx 1" by (simp add: wf_index_def validate_index_def)
  from parse_header_v1 [OF _ _ this, of 4096 0 NOSI_FLAG_DEDUP 3 "[]"]
  obtain l where l: "parse_layout_bytes ?blob = Ok l" "layout_format l = V1" "index l = ?idx"
    "data_offset l = 41" "flags l = NOSI_FLAG_DEDUP OR NOSI_FLAG_HAS_LEVEL" by simp
  then have dd: "uses_dedup_blocks l"
    by (simp add: uses_dedup_blocks_def NOSI_FLAG_DEDUP_def NOSI_FLAG_HAS_LEVEL_def)
  have det: "detect_blob_format ?blob = Nosi"
    by (simp add: write_blob_header_v1_def detect_nosi)
  have off: "file_offset_for_block l 0 = Ok 18446744073709551600"
    by (simp add: file_offset_for_block_def index_at_def l)
  have "parse_block_header_at ?blob 18446744073709551600 l = Panic"
    by (simp add: parse_block_header_panic_iff block_header_len_def l)
  with off det dd l show ?thesis
    by (simp add: collect_dedup_refs_def block_count_def)
qed



end
