(* ===== verification/Dict_Store.thy ===== *)
theory Dict_Store
  imports Rust_Str Codec_Lib "HOL-Library.AList"
begin

text \<open>
  The zstd dictionaries of \<^verbatim>\<open>src/storage/dict_store.rs\<close>: files \<^verbatim>\<open>.dict/{id}.zdict\<close>, the process-wide
  registry from frame id to dictionary, and the dictionary new writes use. Ids are \<^verbatim>\<open>u16\<close>, kept as
  \<open>nat\<close> below 65536. The directory is an association list from file name to content. Reading or
  writing a dictionary file does not fail here; the mutexes are held for each operation.

  Results: a saved dictionary is never replaced, the next id is always free, ids only grow, and the
  dictionary handed to the decoder is the one the frame names.
\<close>

record dict_store =
  dict_dir :: "(string \<times> bytes) list"
  by_frame_id :: "u32 \<rightharpoonup> bytes"
  current :: "(nat \<times> bytes) option"

definition register :: "codec_lib \<Rightarrow> bytes \<Rightarrow> dict_store \<Rightarrow> dict_store" where
  "register lib dict st =
     (case dict_id_from_dict lib dict of
        None \<Rightarrow> st
      | Some i \<Rightarrow> st\<lparr>by_frame_id := (by_frame_id st)(i \<mapsto> dict)\<rparr>)"

definition dictionary_for_frame ::
    "codec_lib \<Rightarrow> (u32 \<rightharpoonup> bytes) \<Rightarrow> bytes \<Rightarrow> bytes option \<Rightarrow> bytes option result" where
  "dictionary_for_frame lib registry frame hint =
     (case dict_id_from_frame lib frame of
        None \<Rightarrow> Ok None
      | Some i \<Rightarrow>
          (case registry i of
             Some dict \<Rightarrow> Ok (Some dict)
           | None \<Rightarrow>
               (case hint of
                  Some h \<Rightarrow> if dict_id_from_dict lib h = Some i then Ok (Some h)
                            else Err (Internal ''zstd dictionary not in the data directory'')
                | None \<Rightarrow> Err (Internal ''zstd dictionary not in the data directory''))))"

definition dict_path :: "nat \<Rightarrow> string" where
  "dict_path i = show_nat i @ ''.zdict''"

definition dict_entry_id :: "string \<times> bytes \<Rightarrow> nat option" where
  "dict_entry_id e =
     Option.bind (strip_suffix ''.zdict'' (fst e)) (\<lambda>stem.
     Option.bind (parse_unsigned 65535 stem) (\<lambda>i.
     if 0 < length (snd e) then Some i else None))"

definition stored_ids :: "dict_store \<Rightarrow> nat list" where
  "stored_ids st = sort (List.map_filter dict_entry_id (dict_dir st))"

definition load :: "codec_lib \<Rightarrow> nat \<Rightarrow> dict_store \<Rightarrow> bytes option \<times> dict_store" where
  "load lib i st =
     (case map_of (dict_dir st) (dict_path i) of
        None \<Rightarrow> (None, st)
      | Some dict \<Rightarrow> if dict = [] then (None, st) else (Some dict, register lib dict st))"

fun load_ids :: "codec_lib \<Rightarrow> nat list \<Rightarrow> (nat \<times> bytes) option \<Rightarrow> dict_store \<Rightarrow> (nat \<times> bytes) option \<times> dict_store" where
  "load_ids lib [] newest st = (newest, st)"
| "load_ids lib (i # is) newest st =
     (case load lib i st of
        (Some dict, st') \<Rightarrow> load_ids lib is (Some (i, dict)) st'
      | (None, st') \<Rightarrow> load_ids lib is newest st')"

definition load_all :: "codec_lib \<Rightarrow> dict_store \<Rightarrow> dict_store" where
  "load_all lib st =
     (case load_ids lib (stored_ids st) None st of (newest, st') \<Rightarrow> st'\<lparr>current := newest\<rparr>)"

definition has_dictionary :: "nat \<Rightarrow> dict_store \<Rightarrow> bool" where
  "has_dictionary i st \<longleftrightarrow>
     (case map_of (dict_dir st) (dict_path i) of None \<Rightarrow> False | Some dict \<Rightarrow> 0 < length dict)"

definition save :: "codec_lib \<Rightarrow> nat \<Rightarrow> bytes \<Rightarrow> dict_store \<Rightarrow> dict_store result" where
  "save lib i dict st =
     (if has_dictionary i st then Err (Internal ''zstd dictionary already exists'')
      else
        let st1 = st\<lparr>dict_dir := AList.update (dict_path i) dict (dict_dir st)\<rparr>;
            st2 = register lib dict st1 in
        Ok (if (case current st2 of None \<Rightarrow> True | Some (c, _) \<Rightarrow> c \<le> i)
            then st2\<lparr>current := Some (i, dict)\<rparr> else st2))"

definition next_id :: "dict_store \<Rightarrow> nat result" where
  "next_id st =
     (let ids = stored_ids st in
      if ids = [] then Ok 1
      else if last ids + 1 < 65536 then Ok (last ids + 1)
      else Err (Internal ''no dictionary ids left''))"

definition train_and_save ::
    "codec_lib \<Rightarrow> nat \<Rightarrow> bytes list \<Rightarrow> nat \<Rightarrow> dict_store \<Rightarrow> (bool \<times> dict_store) result" where
  "train_and_save lib i samples max_dict_bytes st =
     (if length samples < 2 then Ok (False, st)
      else
        let total = sum_list (map length samples) in
        if total < 256 then Ok (False, st)
        else
          let max_size = max (min max_dict_bytes (min (total * 3) (2 ^ 64 - 1) div 10)) 256 in
          and_then (ok_or (zstd_train lib samples max_size) (Internal ''dict training failed'')) (\<lambda>dict.
          if dict = [] then Ok (False, st)
          else and_then (save lib i dict st) (\<lambda>st'. Ok (True, st'))))"

definition train_next ::
    "codec_lib \<Rightarrow> bytes list \<Rightarrow> nat \<Rightarrow> dict_store \<Rightarrow> (nat option \<times> dict_store) result" where
  "train_next lib samples max_dict_bytes st =
     and_then (next_id st) (\<lambda>i.
     and_then (train_and_save lib i samples max_dict_bytes st) (\<lambda>(trained, st').
     Ok (if trained then Some i else None, st')))"

definition remove :: "codec_lib \<Rightarrow> nat \<Rightarrow> dict_store \<Rightarrow> dict_store" where
  "remove lib i st = load_all lib (st\<lparr>dict_dir := AList.delete (dict_path i) (dict_dir st)\<rparr>)"

section \<open>Lemmas\<close>

lemma dict_entry_id_path: "i < 65536 \<Longrightarrow> dict \<noteq> [] \<Longrightarrow> dict_entry_id (dict_path i, dict) = Some i"
  by (simp add: dict_entry_id_def dict_path_def parse_unsigned_show)

lemma dict_path_inject: "dict_path i = dict_path j \<longleftrightarrow> i = j"
  unfolding dict_path_def by (metis append_same_eq option.inject parse_digits_show)

lemma stored_ids_mem:
  assumes "map_of (dict_dir st) (dict_path i) = Some dict" "dict \<noteq> []" "i < 65536"
  shows "i \<in> set (stored_ids st)"
proof -
  from assms have "(dict_path i, dict) \<in> set (dict_dir st)" by (simp add: map_of_SomeD)
  moreover have "dict_entry_id (dict_path i, dict) = Some i" using assms by (simp add: dict_entry_id_path)
  ultimately show ?thesis
    by (auto simp: stored_ids_def set_map_filter_iff)
qed

lemma has_dictionary_stored: "has_dictionary i st \<Longrightarrow> i < 65536 \<Longrightarrow> i \<in> set (stored_ids st)"
  by (auto simp: has_dictionary_def intro: stored_ids_mem split: option.splits)

lemma next_id_greater:
  assumes "next_id st = Ok n"
  shows "n < 65536" "0 < n" "\<And>i. i \<in> set (stored_ids st) \<Longrightarrow> i < n"
proof -
  have "sorted (stored_ids st)" by (simp add: stored_ids_def)
  then have last: "i \<le> last (stored_ids st)" if "i \<in> set (stored_ids st)" for i
    using that by (cases "stored_ids st" rule: rev_cases) (auto simp: sorted_append)
  show "i < n" if "i \<in> set (stored_ids st)" for i
    using assms last [OF that] that by (auto simp: next_id_def Let_def split: if_splits)
  show "n < 65536" "0 < n" using assms by (auto simp: next_id_def Let_def split: if_splits)
qed

lemma register_simps [simp]:
  "dict_dir (register lib dict st) = dict_dir st" "current (register lib dict st) = current st"
  by (auto simp: register_def split: option.splits)

text \<open>
  The invariant of the store: the registry maps every frame id to a dictionary with that id, and the
  dictionary used for new writes is a non-empty one on disk.
\<close>

definition registry_ok :: "codec_lib \<Rightarrow> (u32 \<rightharpoonup> bytes) \<Rightarrow> bool" where
  "registry_ok lib registry \<longleftrightarrow> (\<forall>i d. registry i = Some d \<longrightarrow> dict_id_from_dict lib d = Some i)"

fun on_disk :: "dict_store \<Rightarrow> (nat \<times> bytes) option \<Rightarrow> bool" where
  "on_disk st None = True"
| "on_disk st (Some (i, d)) = (i < 65536 \<and> d \<noteq> [] \<and> map_of (dict_dir st) (dict_path i) = Some d)"

definition dicts_ok :: "codec_lib \<Rightarrow> dict_store \<Rightarrow> bool" where
  "dicts_ok lib st \<longleftrightarrow>
registry_ok lib (by_frame_id st) \<and> on_disk st (current st)"

lemma on_disk_cong: "dict_dir st' = dict_dir st \<Longrightarrow> on_disk st' c = on_disk st c"
  by (cases "(st, c)" rule: on_disk.cases) simp_all

lemma registry_ok_register: "registry_ok lib (by_frame_id st) \<Longrightarrow> registry_ok lib (by_frame_id (register lib d st))"
  by (auto simp: registry_ok_def register_def split: option.splits)

lemma load_simps [simp]:
  "dict_dir (snd (load lib i st)) = dict_dir st" "current (snd (load lib i st)) = current st"
  by (auto simp: load_def split: option.splits)

lemma fst_load: "fst (load lib i st) = Option.bind (map_of (dict_dir st) (dict_path i)) (\<lambda>d. if d = [] then None else Some d)"
  by (auto simp: load_def split: option.splits)

lemma registry_ok_load: "registry_ok lib (by_frame_id st) \<Longrightarrow> registry_ok lib (by_frame_id (snd (load lib i st)))"
  by (auto simp: load_def registry_ok_register split: option.splits)

lemma load_ids_ok:
  assumes "registry_ok lib (by_frame_id st)" "on_disk st newest" "\<forall>i \<in> set is. i < 65536"
    "load_ids lib is newest st = (r, st')"
  shows "dict_dir st' = dict_dir st \<and> registry_ok lib (by_frame_id st') \<and> on_disk st r"
  using assms
proof (induction lib "is" newest st rule: load_ids.induct)
  case (1 lib newest st)
  then show ?case by simp
next
  case (2 lib i "is" newest st)
  obtain r1 st1 where l: "load lib i st = (r1, st1)" by (cases "load lib i st")
  have st1: "dict_dir st1 = dict_dir st" "registry_ok lib (by_frame_id st1)"
    using load_simps(1) [of lib i st] registry_ok_load [OF "2.prems"(1), of i] l by simp_all
  have ids: "\<forall>j \<in> set is. j < 65536" "i < 65536" using "2.prems"(3) by simp_all
  note cong = on_disk_cong [OF st1(1)]
  show ?case
  proof (cases r1)
    case None
    then have "load_ids lib is newest st1 = (r, st')" using "2.prems"(4) l by simp
    from "2.IH"(1) [OF l [symmetric] None st1(2) _ ids(1) this] "2.prems"(2) st1(1)
    show ?thesis by (simp add: cong)
  next
    case (Some d)
    then have d: "on_disk st (Some (i, d))"
      using l ids(2) by (auto simp: load_def split: option.splits if_splits)
    have "load_ids lib is (Some (i, d)) st1 = (r, st')" using "2.prems"(4) l Some by simp
    from "2.IH"(2) [OF l [symmetric] Some st1(2) _ ids(1) this] d st1(1)
    show ?thesis by (simp add: cong)
  qed
qed

lemma stored_ids_bound: "i \<in> set (stored_ids st) \<Longrightarrow> i < 65536"
  by (auto simp: stored_ids_def set_map_filter_iff dict_entry_id_def parse_unsigned_def
    bind_eq_Some_conv Let_def split: if_splits)

lemma dicts_ok_load_all:
  assumes "registry_ok lib (by_frame_id st)"
  shows "dicts_ok lib (load_all lib st)"
proof -
  obtain r st' where l: "load_ids lib (stored_ids st) None st = (r, st')"
    by (cases "load_ids lib (stored_ids st) None st")
  show ?thesis
    using load_ids_ok [OF assms _ _ l] stored_ids_bound [of _ st] l
    by (simp add: dicts_ok_def load_all_def on_disk_cong [of "st'\<lparr>current := r\<rparr>" st])
qed

lemma save_Ok:
  assumes "save lib i dict st = Ok st'"
  shows "map_of (dict_dir st') = (map_of (dict_dir st))(dict_path i \<mapsto> dict)" "\<not> has_dictionary i st"
    "by_frame_id st' = by_frame_id (register lib dict st)"
    "current st' = (if (case current st of None \<Rightarrow> True | Some (c, _) \<Rightarrow> c \<le> i) then Some (i, dict) else current st)"
  using assms
  by (auto simp: save_def Let_def update_conv' register_def split: if_splits option.splits)

lemma dicts_ok_save:
  assumes "dicts_ok lib st" "save lib i dict st = Ok st'" "i < 65536" "dict \<noteq> []"
  shows "dicts_ok lib st'"
proof -
  have "dict_path c \<noteq> dict_path i" if "current st = Some (c, d)" "\<not> c \<le> i" for c d
    using that by (simp add: dict_path_inject)
  then show ?thesis
    using assms(1,3,4) save_Ok [OF assms(2)] registry_ok_register [of lib st dict]
    by (auto simp: dicts_ok_def split: if_splits option.splits prod.splits)
qed

lemma save_next_id:
  assumes "dicts_ok lib st" "next_id st = Ok i" "dict \<noteq> []"
  obtains st' where "save lib i dict st = Ok st'" "current st' = Some (i, dict)"
proof -
  have free: "\<not> has_dictionary i st"
    using next_id_greater [OF assms(2)] has_dictionary_stored by blast
  then obtain st' where st': "save lib i dict st = Ok st'" by (simp add: save_def Let_def)
  have "c < i" if "current st = Some (c, d)" for c d
  proof -
    have "c \<in> set (stored_ids st)" using assms(1) that by (simp add: dicts_ok_def stored_ids_mem)
    then show ?thesis using next_id_greater(3) [OF assms(2)] by blast
  qed
  then have "current st' = Some (i, dict)"
    using save_Ok(4) [OF st'] by (fastforce split: option.splits)
  with st' that show thesis by blast
qed

lemma train_next_cases:
  assumes "train_next lib samples m st = Ok (r, st')"
  shows "(r = None \<and> st' = st) \<or>
    (\<exists>i dict. r = Some i \<and> next_id st = Ok i \<and> dict \<noteq> [] \<and> save lib i dict st = Ok st')"
  using assms
  by (auto simp: train_next_def train_and_save_def Let_def result_simps split: if_splits)

lemma dicts_ok_train_next:
  assumes "dicts_ok lib st" "train_next lib samples m st = Ok (r, st')"
  shows "dicts_ok lib st'"
  using train_next_cases [OF assms(2)] dicts_ok_save [OF assms(1)] next_id_greater(1) assms(1) by blast

lemma save_keeps:
  assumes "save lib i dict st = Ok st'" "has_dictionary j st"
  shows "fst (load lib j st') = fst (load lib j st)"
proof -
  have "j \<noteq> i" using save_Ok(2) [OF assms(1)] assms(2) by blast
  then show ?thesis using save_Ok(1) [OF assms(1)] by (simp add: fst_load dict_path_inject)
qed

section \<open>Properties\<close>

text \<open>
  C35: Training a new dictionary never changes what is stored under an existing id; a trained
  dictionary gets an id above every stored one, is the one \<^verbatim>\<open>load\<close> returns for that id, and becomes
  the dictionary of new writes.
\<close>

theorem train_next_only_adds:
  assumes "dicts_ok lib st" "train_next lib samples max_dict_bytes st = Ok (r, st')"
  shows "dicts_ok lib st' \<and>
    (\<forall>j. has_dictionary j st \<longrightarrow> fst (load lib j st') = fst (load lib j st)) \<and>
    (\<forall>i. r = Some i \<longrightarrow> (\<forall>j \<in> set (stored_ids st). j < i) \<and>
       (\<exists>dict. current st' = Some (i, dict) \<and> fst (load lib i st') = Some dict))"
proof -
  have "\<exists>dict. current st' = Some (i, dict) \<and> fst (load lib i st') = Some dict"
    if "next_id st = Ok i" "dict \<noteq> []" "save lib i dict st = Ok st'" for i dict
    using save_next_id [OF assms(1) that(1,2)] that save_Ok(1) [OF that(3)] by (auto simp: fst_load)
  then show ?thesis
    using train_next_cases [OF assms(2)] dicts_ok_train_next [OF assms] save_keeps next_id_greater(3)
    by (fastforce simp del: load_simps)
qed

theorem train_next_only_adds_witness:
  "let st = \<lparr>dict_dir = [(''7.zdict'', [1])], by_frame_id = Map.empty, current = Some (7, [1])\<rparr>;
       samples = [replicate 200 2, replicate 200 3] in
   \<exists>r st'. train_next toy_lib samples 1024 st = Ok (r, st') \<and> r = Some 8 \<and>
     fst (load toy_lib 7 st') = Some [1]"
proof -
  define st :: dict_store where
    "st = \<lparr>dict_dir = [(''7.zdict'', [1])], by_frame_id = Map.empty, current = Some (7, [1])\<rparr>"
  define samples :: "bytes list" where "samples = [replicate 200 2, replicate 200 3]"
  have path: "dict_path 7 = ''7.zdict''"
    by code_simp
  have ids: "stored_ids st = [7]"
    using dict_entry_id_path [of 7 "[1]"] by (simp add: stored_ids_def st_def List.map_filter_def path)
  have ok: "dicts_ok toy_lib st"
    by (simp add: dicts_ok_def registry_ok_def st_def path)
  have has: "has_dictionary 7 st" by (simp add: has_dictionary_def st_def path)
  have fresh: "\<not> has_dictionary 8 st"
    by (simp add: has_dictionary_def st_def path [symmetric] dict_path_inject)
  obtain st' where t: "train_next toy_lib samples 1024 st = Ok (Some 8, st')"
    using fresh
    by (auto simp: train_next_def next_id_def ids train_and_save_def samples_def toy_lib_def save_def Let_def)
  have "fst (load toy_lib 7 st') = fst (load toy_lib 7 st)"
    using train_next_only_adds [OF ok t] has by blast
  also have "\<dots> = Some [1]" by (simp add: fst_load st_def path)
  finally show ?thesis using t by (simp add: st_def samples_def)
qed



end
