(* ===== verification/Block_Store.thy ===== *)
theory Block_Store
  imports Blob_Format Codec_Lib
begin

text \<open>
  The content-addressed block store of \<^verbatim>\<open>src/storage/blocks.rs\<close>: block files under \<^verbatim>\<open>.blocks/\<close>
  addressed by the xxh3 hash of their logical bytes, the \<^verbatim>\<open>dedup_blocks\<close> table of reference counts,
  and the collector of released blocks. A block file is its content and its modification time in
  nanoseconds; rows are keyed by the hash (the source keys them by its 16-digit hexadecimal form).
  Files are written and renamed atomically, and file-system failures are not modelled.

  Results: what a read returns always has the hash and length asked for; a stored chunk is read back
  (unless its raw form looks like a wrapped block: \<open>nosk_chunk_lost\<close>), and stays readable while
  other chunks are stored; a dedup manifest reassembles the object; reference counts count
  references; and in every interleaving of uploads, deletions and collector passes, the collector
  never removes a block an upload has shared less than the grace period ago or that is referenced.
\<close>

definition BLOCK_CHUNK_MAGIC :: bytes where "BLOCK_CHUNK_MAGIC = [78, 79, 83, 75]"

abbreviation (input) BLOCK_CHUNK_HEADER_LEN :: nat where "BLOCK_CHUNK_HEADER_LEN \<equiv> 8"

abbreviation (input) DEFAULT_ZSTD_LEVEL :: int where "DEFAULT_ZSTD_LEVEL \<equiv> 22"

definition clamp_zstd_level :: "int \<Rightarrow> int" where
  "clamp_zstd_level level = max 1 (min 22 level)"

record dedup_row =
  row_size :: u32
  refcount :: int
  released_at :: "int option"

record block_store =
  block_files :: "u64 \<rightharpoonup> bytes \<times> int"
  dedup_rows :: "u64 \<rightharpoonup> dedup_row"

definition hash_block :: "codec_lib \<Rightarrow> bytes \<Rightarrow> u64" where
  "hash_block lib data = xxh3_64 lib data"

definition read_logical_block :: "codec_lib \<Rightarrow> block_store \<Rightarrow> u64 \<Rightarrow> nat \<Rightarrow> bytes result" where
  "read_logical_block lib st h expected_len =
     (case block_files st h of
        None \<Rightarrow> Err (Internal ''missing dedup block'')
      | Some (data, _) \<Rightarrow>
          and_then
            (if BLOCK_CHUNK_HEADER_LEN \<le> length data \<and> prefix BLOCK_CHUNK_MAGIC data
             then and_then (get_u32 4 data) (\<lambda>logical_len.
                    if unat logical_len \<noteq> expected_len
                    then Err (Internal ''dedup block logical size mismatch'')
                    else decode_limited lib [] (drop BLOCK_CHUNK_HEADER_LEN data) (expected_len + 1))
             else Ok data) (\<lambda>block.
          if length block \<noteq> expected_len then Err (Internal ''dedup block size mismatch'')
          else if hash_block lib block \<noteq> h
          then Err (Internal ''dedup block does not match its content hash'')
          else Ok block))"

text \<open>The on-disk form of a new block: wrapped when compression makes it smaller.\<close>

definition wrap_block :: "codec_lib \<Rightarrow> int \<Rightarrow> bytes \<Rightarrow> bytes" where
  "wrap_block lib level chunk =
     (if 64 \<le> length chunk
      then (case zstd_encode_all lib level chunk of
              Some compressed \<Rightarrow>
                if length compressed < length chunk
                then BLOCK_CHUNK_MAGIC @ to_le_bytes (of_nat (length chunk) :: u32) @ compressed
                else chunk
            | None \<Rightarrow> chunk)
      else chunk)"

definition store_block :: "codec_lib \<Rightarrow> int \<Rightarrow> int \<Rightarrow> block_store \<Rightarrow> bytes \<Rightarrow> u64 option \<times> block_store" where
  "store_block lib now level st chunk =
     (let h = hash_block lib chunk in
      case block_files st h of
        Some (data, _) \<Rightarrow>
          if read_logical_block lib st h (length chunk) \<noteq> Ok chunk then (None, st)
          else (Some h, st\<lparr>block_files := (block_files st)(h \<mapsto> (data, now))\<rparr>)
      | None \<Rightarrow>
          let on_disk = wrap_block lib (clamp_zstd_level level) chunk in
          (Some h, st\<lparr>block_files := (block_files st)(h \<mapsto> (on_disk, now))\<rparr>))"

definition write_logical_block ::
    "codec_lib \<Rightarrow> int \<Rightarrow> int \<Rightarrow> block_store \<Rightarrow> bytes \<Rightarrow> u64 result \<times> block_store" where
  "write_logical_block lib now level st chunk =
     (case store_block lib now level st chunk of
        (Some h, st') \<Rightarrow> (Ok h, st')
      | (None, st') \<Rightarrow> (Err (Internal ''a different block is stored under this chunk's hash''), st'))"

text \<open>
  \<^verbatim>\<open>write_dedup_from_file\<close>: the file is read in buffers of the block size. The result is the content of
  the manifest file and the entries.
\<close>

function write_dedup_chunks ::
    "codec_lib \<Rightarrow> int \<Rightarrow> nat \<Rightarrow> bytes \<Rightarrow> block_store \<Rightarrow> (u64 \<times> u32) list \<Rightarrow>
     (u64 \<times> u32) list result \<times> block_store" where
  "write_dedup_chunks lib now bsize infile st entries =
     (let chunk = take bsize infile in
      if chunk = [] then (Ok entries, st)
      else case write_logical_block lib now DEFAULT_ZSTD_LEVEL st chunk of
             (Ok h, st') \<Rightarrow>
               write_dedup_chunks lib now bsize (drop bsize infile) st'
                 (entries @ [(h, of_nat (length chunk))])
           | (Err e, st') \<Rightarrow> (Err e, st')
           | (Panic, st') \<Rightarrow> (Panic, st'))"
  by pat_completeness auto
termination
  by (relation "measure (\<lambda>(lib, now, bsize, infile, st, entries). length infile)")
     (auto simp: Let_def)

declare write_dedup_chunks.simps [simp del]

definition write_dedup_from_file ::
    "codec_lib \<Rightarrow> int \<Rightarrow> bytes \<Rightarrow> u64 \<Rightarrow> nat \<Rightarrow> block_store \<Rightarrow>
     (bytes \<times> (u64 \<times> u32) list) result \<times> block_store" where
  "write_dedup_from_file lib now infile lsize bsize st =
     (case write_dedup_chunks lib now (max bsize 4096) infile st [] of
        (Ok entries, st') \<Rightarrow>
(Ok (encode_manifest lsize entries, entries), st')
      | (Err e, st') \<Rightarrow> (Err e, st')
      | (Panic, st') \<Rightarrow> (Panic, st'))"

primrec assemble_chunks :: "codec_lib \<Rightarrow> block_store \<Rightarrow> (u64 \<times> u32) list \<Rightarrow> bytes result" where
  "assemble_chunks lib st [] = Ok []"
| "assemble_chunks lib st (e # es) =
     and_then (read_logical_block lib st (fst e) (unat (snd e))) (\<lambda>chunk.
     and_then (assemble_chunks lib st es) (\<lambda>rest. Ok (chunk @ rest)))"

definition assemble_to_file :: "codec_lib \<Rightarrow> block_store \<Rightarrow> bytes \<Rightarrow> u64 \<Rightarrow> bytes result" where
  "assemble_to_file lib st manifest lsize =
     and_then (parse_dedup_manifest manifest lsize) (\<lambda>entries.
     and_then (assemble_chunks lib st entries) (\<lambda>out.
     if of_nat (length out) \<noteq> lsize then Err (Internal ''dedup assemble size mismatch'') else Ok out))"

definition manifest_entries :: "bytes \<Rightarrow> (u64 \<times> u32) list result" where
  "manifest_entries blob =
     (let head = take FIXED_HEADER_LEN_V1 blob in
      and_then
        (case detect_blob_format head of
           Nosd \<Rightarrow> Ok True
         | Nosi \<Rightarrow> if FIXED_HEADER_LEN_V1 \<le> length head
                   then and_then (get_u16 22 head) (\<lambda>fl. Ok (fl AND NOSI_FLAG_DEDUP \<noteq> 0))
                   else Ok False
         | _ \<Rightarrow> Ok False) (\<lambda>may_hold_refs.
      if \<not> may_hold_refs then Ok [] else collect_dedup_refs blob))"

text \<open>Reference counts: \<open>inc_ref\<close> and \<open>dec_ref\<close> are the statements of the two loops.\<close>

definition inc_ref :: "u64 \<times> u32 \<Rightarrow> (u64 \<rightharpoonup> dedup_row) \<Rightarrow> (u64 \<rightharpoonup> dedup_row)" where
  "inc_ref e rows =
     (case rows (fst e) of
        None \<Rightarrow> rows(fst e \<mapsto> \<lparr>row_size = snd e, refcount = 1, released_at = None\<rparr>)
      | Some r \<Rightarrow> rows(fst e \<mapsto> r\<lparr>refcount := refcount r + 1, released_at := None\<rparr>))"

definition inc_refs :: "(u64 \<times> u32) list \<Rightarrow> block_store \<Rightarrow> block_store" where
  "inc_refs entries st = st\<lparr>dedup_rows := fold inc_ref entries (dedup_rows st)\<rparr>"

definition dec_ref :: "int \<Rightarrow> u64 \<times> u32 \<Rightarrow> (u64 \<rightharpoonup> dedup_row) \<Rightarrow> (u64 \<rightharpoonup> dedup_row)" where
  "dec_ref now e rows =
     (case rows (fst e) of
        None \<Rightarrow> rows
      | Some r \<Rightarrow>
          if 0 < refcount r
          then rows(fst e \<mapsto> r\<lparr>refcount := refcount r - 1,
                 released_at := (if refcount r \<le> 1 then Some now else released_at r)\<rparr>)
          else rows)"

definition unix_now :: "int \<Rightarrow> int" where
  "unix_now now = (if now < 0 then 0 else now div 1000000000)"

definition dec_refs :: "int \<Rightarrow> (u64 \<times> u32) list \<Rightarrow> block_store \<Rightarrow> block_store" where
  "dec_refs now entries st = st\<lparr>dedup_rows := fold (dec_ref (unix_now now)) entries (dedup_rows st)\<rparr>"

definition release_blob :: "int \<Rightarrow> bytes \<Rightarrow> block_store \<Rightarrow> block_store" where
  "release_blob now blob st =
     (case manifest_entries blob of
        Ok entries \<Rightarrow> if entries = [] then st else dec_refs now entries st
      | _ \<Rightarrow> st)"

text \<open>
  The collector. \<open>scan\<close> is the order in which the database visits the rows; the steps of the loop
  are separate definitions because other requests run between them.
\<close>

definition gc_eligible :: "int \<Rightarrow> (u64 \<rightharpoonup> dedup_row) \<Rightarrow> u64 \<Rightarrow> bool" where
  "gc_eligible cutoff rows h \<longleftrightarrow>
     (case rows h of
        None \<Rightarrow> False
      | Some r \<Rightarrow> refcount r \<le> 0 \<and> (case released_at r of None \<Rightarrow> False | Some t \<Rightarrow> t < cutoff))"

definition gc_select :: "u64 list \<Rightarrow> int \<Rightarrow> int \<Rightarrow> block_store \<Rightarrow> u64 list" where
  "gc_select scan cutoff limit st =
     (let released = filter (gc_eligible cutoff (dedup_rows st)) scan in
      if limit < 0 then released else take (nat limit) released)"

definition gc_delete_file :: "int \<Rightarrow> u64 \<Rightarrow> block_store \<Rightarrow> bool \<times> block_store" where
  "gc_delete_file cutoff h st =
     (let cutoff_time = max cutoff 0 * 1000000000;
          shared_since = (case block_files st h of None \<Rightarrow> False | Some (_, modified) \<Rightarrow> cutoff_time < modified) in
      if shared_since then (False, st) else (True, st\<lparr>block_files := (block_files st)(h := None)\<rparr>))"

definition gc_delete_row :: "u64 \<Rightarrow> block_store \<Rightarrow> block_store" where
  "gc_delete_row h st =
     (case dedup_rows st h of
        None \<Rightarrow> st
      | Some r \<Rightarrow> if refcount r \<le> 0 then st\<lparr>dedup_rows := (dedup_rows st)(h := None)\<rparr> else st)"

primrec gc_loop :: "int \<Rightarrow> u64 list \<Rightarrow> nat \<Rightarrow> block_store \<Rightarrow> nat \<times> block_store" where
  "gc_loop cutoff [] removed st = (removed, st)"
| "gc_loop cutoff (h # hs) removed st =
     (case gc_delete_file cutoff h st of
        (deleted, st') \<Rightarrow>
          if deleted then gc_loop cutoff hs (removed + 1) (gc_delete_row h st')
          else gc_loop cutoff hs removed st')"

definition gc_released_blocks :: "u64 list \<Rightarrow> int \<Rightarrow> int \<Rightarrow> int \<Rightarrow> block_store \<Rightarrow> nat \<times> block_store" where
  "gc_released_blocks scan now grace limit st =
     (let cutoff = unix_now now - grace in
      gc_loop cutoff (gc_select scan cutoff limit st) 0 st)"

section \<open>Reading and storing blocks\<close>

lemma length_chunk_magic [simp]: "length BLOCK_CHUNK_MAGIC = 4"
  by (simp add: BLOCK_CHUNK_MAGIC_def)

lemma read_block_Ok:
  assumes "read_logical_block lib st h n = Ok b"
  shows "length b = n" "hash_block lib b = h"
  using assms
  by (auto simp: read_logical_block_def result_simps split: option.splits prod.splits if_splits)

lemma read_block_cong:
  "map_option fst (block_files st' h) = map_option fst (block_files st h) \<Longrightarrow>
   read_logical_block lib st' h n = read_logical_block lib st h n"
  by (cases "block_files st h"; cases "block_files st' h") (auto simp: read_logical_block_def)

lemma read_block_neq_Panic: "read_logical_block lib st h n \<noteq> Panic"
  by (auto simp: read_logical_block_def result_simps get_u32_eq split: option.splits)

text \<open>
  A chunk is stored wrapped when compression pays off. A chunk can be read back from its stored form
  unless it is stored raw and begins like a wrapped block.
\<close>

definition block_wrapped :: "codec_lib \<Rightarrow> int \<Rightarrow> bytes \<Rightarrow> bool" where
  "block_wrapped lib level chunk \<longleftrightarrow>
     64 \<le> length chunk \<and>
     (case zstd_encode_all lib level chunk of Some c \<Rightarrow> length c < length chunk | None \<Rightarrow> False)"

definition storable :: "codec_lib \<Rightarrow> int \<Rightarrow> bytes \<Rightarrow> bool" where
  "storable lib level chunk \<longleftrightarrow>
     length chunk < 2 ^ 32 \<and>
     (8 \<le> length chunk \<and> prefix BLOCK_CHUNK_MAGIC chunk \<longrightarrow> block_wrapped lib (clamp_zstd_level level) chunk)"

lemma wrap_block_raw: "\<not> block_wrapped lib level chunk \<Longrightarrow> wrap_block lib level chunk = chunk"
  by (auto simp: block_wrapped_def wrap_block_def split: option.splits)

lemma wrap_block_wrapped:
  "block_wrapped lib level chunk \<Longrightarrow> \<exists>c. zstd_encode_all lib level chunk = Some c \<and>
     wrap_block lib level chunk = BLOCK_CHUNK_MAGIC @ to_le_bytes (of_nat (length chunk) :: u32) @ c"
  by (auto simp: block_wrapped_def wrap_block_def split: option.splits)

lemma read_wrapped_block:
  assumes "zstd_lossless lib" "storable lib level chunk"
    "block_files st (hash_block lib chunk) = Some (wrap_block lib (clamp_zstd_level level) chunk, t)"
  shows "read_logical_block lib st (hash_block lib chunk) (length chunk) = Ok chunk"
proof (cases "block_wrapped lib (clamp_zstd_level level) chunk")
  case True
  from wrap_block_wrapped [OF this] obtain c where
    c: "zstd_encode_all lib (clamp_zstd_level level) chunk = Some c"
      "wrap_block lib (clamp_zstd_level level) chunk =
         BLOCK_CHUNK_MAGIC @ to_le_bytes (of_nat (length chunk) :: u32) @ c" by blast
  have "unat (of_nat (length chunk) :: u32) = length chunk"
    using assms(2) by (simp add: storable_def unat_of_nat)
  with assms c zstd_losslessD(2) [OF assms(1) c(1)] show ?thesis
    by (simp add: read_logical_block_def get_u32_eq codec_simps decode_limited_lossless)
next
  case False
  with assms wrap_block_raw [OF False] show ?thesis
    by (auto simp: read_logical_block_def storable_def)
qed

lemma store_block_cases:
  assumes "store_block lib now level st chunk = (r, st')"
  obtains (refused) "r = None" "st' = st"
  | (shared) data t where "r = Some (hash_block lib chunk)" "block_files st (hash_block lib chunk) = Some (data, t)"
      "read_logical_block lib st (hash_block lib chunk) (length chunk) = Ok chunk"
      "st' = st\<lparr>block_files := (block_files st)(hash_block lib chunk \<mapsto> (data, now))\<rparr>"
  | (fresh) "r = Some (hash_block lib chunk)" "block_files st (hash_block lib chunk) = None"
      "st' = st\<lparr>block_files := (block_files st)(hash_block lib chunk \<mapsto>
         (wrap_block lib (clamp_zstd_level level) chunk, now))\<rparr>"
  using assms by (auto simp: store_block_def Let_def split: option.splits if_splits)

lemma store_block_rows: "store_block lib now level st chunk = (r, st') \<Longrightarrow> dedup_rows st' = dedup_rows st"
  by (erule store_block_cases) auto

section \<open>Interface: a store of chunks\<close>

text \<open>
  What the block encoder and the manifest writer rely on: a chunk that was put is returned by its
  handle, and later puts never change or lose what a handle returns. \<open>evolves\<close> is the resulting
  preorder on store states.
\<close>

locale chunk_store =
  fixes put :: "'s \<Rightarrow> bytes \<Rightarrow> 'h option \<times> 's"
    and get :: "'s \<Rightarrow> 'h \<Rightarrow> nat \<Rightarrow> bytes result"
    and good :: "bytes \<Rightarrow> bool"
  assumes put_get: "put s c = (Some h, s') \<Longrightarrow> good c \<Longrightarrow> get s' h (length c) = Ok c"
    and put_stable: "put s c = (r, s') \<Longrightarrow> get s h n = Ok b \<Longrightarrow> get s' h n = Ok b"
begin

definition evolves :: "'s \<Rightarrow> 's \<Rightarrow> bool" where
  "evolves s s' \<longleftrightarrow> (\<forall>h n b. get s h n = Ok b \<longrightarrow> get s' h n = Ok b)"

lemma evolves_refl: "evolves s s"
  by (simp add: evolves_def)

lemma evolves_trans: "evolves s s' \<Longrightarrow> evolves s' s'' \<Longrightarrow> evolves s s''"
  by (simp add: evolves_def)

lemma put_evolves: "put s c = (r, s') \<Longrightarrow> evolves s s'"
  using put_stable by (fastforce simp: evolves_def)

lemma put_get_later:
  "put s c = (Some h, s') \<Longrightarrow> good c \<Longrightarrow> evolves s' s'' \<Longrightarrow> get s'' h (length c) = Ok c"
  using put_get by (simp add: evolves_def)

end

lemma store_block_stable:
  assumes "store_block lib now level st chunk = (r, st')" "read_logical_block lib st h n = Ok b"
  shows "read_logical_block lib st' h n = Ok b"
  using assms(1)
proof (cases rule: store_block_cases)
  case fresh
  then have "block_files st h \<noteq> None \<Longrightarrow> block_files st' h = block_files st h" by auto
  moreover have "block_files st h \<noteq> None"
    using assms(2) by (auto simp: read_logical_block_def split: option.splits)
  ultimately show ?thesis using assms(2) read_block_cong [of st' h st] by simp
next
  case (shared data t)
  then have "map_option fst (block_files st' h) = map_option fst (block_files st h)" by auto
  from read_block_cong [OF this] assms(2) show ?thesis by simp
qed (use assms in simp)

lemma store_block_get:
  assumes "zstd_lossless lib" "storable lib level chunk" "store_block lib now level st chunk = (Some h, st')"
  shows "h = hash_block lib chunk" "read_logical_block lib st' h (length chunk) = Ok chunk"
proof -
  show h: "h = hash_block lib chunk"
    using assms(3) by (cases rule: store_block_cases) auto
  show "read_logical_block lib st' h (length chunk) = Ok chunk"
    using assms(3)
  proof (cases rule: store_block_cases)
    case (shared data t)
    then show ?thesis using store_block_stable [OF assms(3)] h by blast
  next
    case fresh
    then have "block_files st' (hash_block lib chunk) = Some (wrap_block lib (clamp_zstd_level level) chunk, now)"
      by simp
    from read_wrapped_block [OF assms(1,2) this] show ?thesis using h by simp
  qed simp
qed

interpretation blocks: chunk_store "store_block lib now level" "read_logical_block lib"
    "\<lambda>c. zstd_lossless lib \<and> storable lib level c"
  for lib :: codec_lib and now level :: int
proof unfold_locales
  show "read_logical_block lib s' h (length c) = Ok c"
    if "store_block lib now level s c = (Some h, s')" "zstd_lossless lib \<and> storable lib level c" for s c h s'
    using store_block_get(2) that by blast
  show "read_logical_block lib s' h n = Ok b"
    if "store_block lib now level s c = (r, s')" "read_logical_block lib s h n = Ok b" for s c r s' h n b
    using store_block_stable that by blast
qed

section \<open>Dedup manifests\<close>

lemma write_dedup_chunks_sound:
  assumes "zstd_lossless lib" "0 < bsize" "\<forall>c \<in> set (chunks bsize infile). storable lib 22 c"
    "write_dedup_chunks lib now bsize infile st entries = (Ok es, st')"
  shows "\<exists>es'. es = entries @ es' \<and> blocks.evolves lib st st' \<and> length es' = length (chunks bsize infile) \<and>
    sum_list (map (\<lambda>e. unat (snd e)) es') = length infile \<and>
    (\<forall>st''. blocks.evolves lib st' st'' \<longrightarrow> assemble_chunks lib st'' es' = Ok infile)"
  using assms
proof (induction lib now bsize infile st entries arbitrary: es rule: write_dedup_chunks.induct)
  case (1 lib now bsize infile st entries)
  show ?case
  proof (cases "take bsize infile = []")
    case True
    with 1 show ?thesis
      by (auto simp: write_dedup_chunks.simps [of lib now bsize infile] chunks.simps [of bsize infile] blocks.evolves_refl)
  next
    case False
    let ?c = "take bsize infile"
    have cs: "chunks bsize infile = ?c # chunks bsize (drop bsize infile)"
      using False by (simp add: chunks.simps [of bsize infile])
    have good: "storable lib 22 ?c" using "1.prems"(3) cs by simp
    obtain r st1 where w: "store_block lib now 22 st ?c = (r, st1)" by (cases "store_block lib now 22 st ?c")
    obtain h where r: "r = Some h"
      using "1.prems"(4) False w
      by (cases r) (auto simp: write_dedup_chunks.simps [of lib now bsize infile] write_logical_block_def Let_def)
    then have wl: "write_logical_block lib now 22 st ?c = (Ok h, st1)" using w by (simp add: write_logical_block_def)
    have "write_dedup_chunks lib now bsize (drop bsize infile) st1 (entries @ [(h, of_nat (length ?c))]) = (Ok es, st')"
      using "1.prems"(4) False wl by (simp add: write_dedup_chunks.simps [of lib now bsize infile] Let_def)
    from "1.IH" [OF refl False wl [symmetric] refl "1.prems"(1,2) _ this] "1.prems"(3) cs obtain es' where
      es': "es = (entries @ [(h, of_nat (length ?c))]) @ es'" "blocks.evolves lib st1 st'"
        "length es' = length (chunks bsize (drop bsize infile))"
        "sum_list (map (\<lambda>e. unat (snd e)) es') = length (drop bsize infile)"
        "\<forall>st''. blocks.evolves lib st' st'' \<longrightarrow> assemble_chunks lib st'' es' = Ok (drop bsize infile)"
      by auto
    have n: "unat (of_nat (length ?c) :: u32) = length ?c"
      using good by (simp only: storable_def unat_of_nat) simp
    have "read_logical_block lib st'' h (length ?c) = Ok ?c" if "blocks.evolves lib st' st''" for st''
      using blocks.put_get_later [OF w [unfolded r]] "1.prems"(1) good es'(2) that blocks.evolves_trans by blast
    then show ?thesis
      using es' n cs blocks.put_evolves [OF w] blocks.evolves_trans
      by (intro exI [of _ "(h, of_nat (length ?c)) # es'"]) auto
  qed
qed

lemma assemble_length:
  "assemble_chunks lib st es = Ok out \<Longrightarrow> length out = sum_list (map (\<lambda>e. unat (snd e)) es)"
  by (induction es arbitrary: out) (auto simp: result_simps dest: read_block_Ok)

lemma assemble_neq_Panic: "assemble_chunks lib st es \<noteq> Panic"
  by (induction es) (auto simp: result_simps read_block_neq_Panic)

lemma write_dedup_from_file_Ok:
  assumes "write_dedup_from_file lib now infile lsize bsize st = (Ok (manifest, es), st')"
  shows "write_dedup_chunks lib now (max bsize 4096) infile st [] = (Ok es, st')" "manifest = encode_manifest lsize es"
  using assms by (auto simp: write_dedup_from_file_def split: prod.splits result.splits)

lemma manifest_entries_encoded:
  assumes "length es < 2 ^ 32" "manifest_total es = lsize"
  shows "manifest_entries (encode_manifest lsize es) = Ok es"
proof -
  have "detect_blob_format (encode_manifest lsize es) = Nosd"
    by (simp add: encode_manifest_def detect_nosd)
  moreover have "get_u64 4 (encode_manifest lsize es) = Ok lsize"
    by (simp add: get_u64_eq encode_manifest_def codec_simps)
  ultimately show ?thesis
    using parse_encoded_manifest [OF assms]
    by (simp add: manifest_entries_def detect_take Let_def collect_dedup_refs_def)
qed

lemma dedup_file_roundtrip:
  assumes "zstd_lossless lib" "\<forall>c \<in> set (chunks (max bsize 4096) infile). storable lib 22 c"
    "length infile < 2 ^ 43"
    "write_dedup_from_file lib now infile (of_nat (length infile)) bsize st = (Ok (manifest, es), st')"
    "blocks.evolves lib st' st''"
  shows "assemble_to_file lib st'' manifest (of_nat (length infile)) = Ok infile" "manifest_entries manifest = Ok es"
proof -
  let ?n = "of_nat (length infile) :: u64"
  note w = write_dedup_from_file_Ok [OF assms(4)]
  from write_dedup_chunks_sound [OF assms(1) _ assms(2) w(1)]
  have es: "length es = length (chunks (max bsize 4096) infile)" "sum_list (map (\<lambda>e. unat (snd e)) es) = length infile"
    "assemble_chunks lib st'' es = Ok infile" using assms(5) by auto
  have "length es * 4096 \<le> length es * max bsize 4096" by simp
  also have "\<dots> < length infile + max bsize 4096" using length_chunks [of "max bsize 4096" infile] es(1) by simp
  finally have "length es * 4096 < length infile + max bsize 4096" .
  moreover have "length es \<le> 1" if "length infile \<le> bsize"
    using that es(1) by (simp add: chunks.simps [of _ infile])
  ultimately have few: "length es < 2 ^ 32"
    using assms(3) by (cases "length infile \<le> bsize") (auto simp: max_def split: if_splits)
  have u: "unat ?n = length infile" using assms(3) by (simp add: unat_of_nat)
  have "unat (manifest_total es) = unat ?n"
    using unat_sum_sizes [of es] few es(2) u by (simp add: manifest_total_def)
  then have total: "manifest_total es = ?n" by (rule unsigned_word_eqI)
  show "assemble_to_file lib st'' manifest ?n = Ok infile"
    using parse_encoded_manifest [OF few total] es(3) w(2) by (simp add: assemble_to_file_def)
  show "manifest_entries manifest = Ok es"
    using manifest_entries_encoded [OF few total] w(2) by simp
qed

section \<open>Reference counts\<close>

definition refs_of :: "(u64 \<rightharpoonup> dedup_row) \<Rightarrow> u64 \<Rightarrow> int" where
  "refs_of rows h = (case rows h of None \<Rightarrow> 0 | Some r \<Rightarrow> refcount r)"

definition count_refs :: "u64 \<Rightarrow> (u64 \<times> u32) list \<Rightarrow> int" where
  "count_refs h entries = int (length (filter (\<lambda>e. fst e = h) entries))"

lemma refs_of_inc: "refs_of (inc_ref e rows) h = refs_of rows h + (if fst e = h then 1 else 0)"
  by (auto simp: inc_ref_def refs_of_def split: option.splits)

lemma refs_of_dec: "refs_of (dec_ref t e rows) h =
    (if fst e = h \<and> 0 < refs_of rows h then refs_of rows h - 1 else refs_of rows h)"
  by (auto simp: dec_ref_def refs_of_def split: option.splits)

lemma refs_of_inc_refs: "refs_of (fold inc_ref es rows) h = refs_of rows h + count_refs h es"
  by (induction es arbitrary: rows) (simp_all add: refs_of_inc count_refs_def)

lemma refs_of_dec_refs:
  "0 \<le> refs_of rows h \<Longrightarrow> refs_of (fold (dec_ref t) es rows) h = max 0 (refs_of rows h - count_refs h es)"
  by (induction es arbitrary: rows) (auto simp: refs_of_dec count_refs_def)

text \<open>A row without references carries its release time, a row with references none.\<close>

definition rows_ok :: "(u64 \<rightharpoonup> dedup_row) \<Rightarrow> bool" where
  "rows_ok rows \<longleftrightarrow> (\<forall>h r. rows h = Some r \<longrightarrow>
     0 \<le> refcount r \<and> (released_at r = None \<longleftrightarrow> 0 < refcount r))"

lemma rows_ok_inc: "rows_ok rows \<Longrightarrow> rows_ok (inc_ref e rows)"
  by (fastforce simp: rows_ok_def inc_ref_def split: option.splits)

lemma rows_ok_dec: "rows_ok rows \<Longrightarrow> rows_ok (dec_ref t e rows)"
  by (fastforce simp: rows_ok_def dec_ref_def split: option.splits)

lemma rows_ok_refs:
  "rows_ok rows \<Longrightarrow> rows_ok (fold inc_ref es rows)" "rows_ok rows \<Longrightarrow> rows_ok (fold (dec_ref t) es rows)"
  by (induction es arbitrary: rows) (auto simp: rows_ok_inc rows_ok_dec)

section \<open>The collector among other requests\<close>

text \<open>
  Uploads, deletions and collector passes interleave between database statements and file
  operations. A \<open>gc_state\<close> adds to the store the clock (nanoseconds), the shares that uploads have
  not counted yet (block and time of sharing), the blocks a collector pass has selected (with the
  cutoff of the pass), and the blocks whose file a pass has removed but not yet the row.
\<close>

record gc_state =
  gc_store :: block_store
  gc_now :: int
  gc_pending :: "(u64 \<times> int) set"
  gc_selected :: "(u64 \<times> int) set"
  gc_unlinked :: "u64 set"

inductive gc_step :: "codec_lib \<Rightarrow> int \<Rightarrow> gc_state \<Rightarrow> gc_state \<Rightarrow> bool"
  for lib :: codec_lib and grace :: int where
  share: "store_block lib (gc_now s) level (gc_store s) chunk = (Some h, st') \<Longrightarrow>
    gc_step lib grace s (s\<lparr>gc_store := st', gc_pending := insert (h, gc_now s) (gc_pending s)\<rparr>)"
| count: "(h, t) \<in> gc_pending s \<Longrightarrow> gc_now s < t + grace * 1000000000 \<Longrightarrow>
    gc_step lib grace s (s\<lparr>gc_store := inc_refs [(h, len)] (gc_store s), gc_pending := gc_pending s - {(h, t)}\<rparr>)"
| abandon: "gc_step lib grace s (s\<lparr>gc_pending := gc_pending s - {(h, t)}\<rparr>)"
| release: "gc_step lib grace s (s\<lparr>gc_store := dec_refs (gc_now s) entries (gc_store s)\<rparr>)"
| tick: "gc_now s \<le> t \<Longrightarrow> gc_step lib grace s (s\<lparr>gc_now := t\<rparr>)"
| select: "cutoff = unix_now (gc_now s) - grace \<Longrightarrow>
    gc_step lib grace s (s\<lparr>gc_selected := gc_selected s \<union>
      (\<lambda>h. (h, cutoff)) ` set (gc_select scan cutoff limit (gc_store s))\<rparr>)"
| unlink: "(h, cutoff) \<in> gc_selected s \<Longrightarrow> gc_delete_file cutoff h (gc_store s) = (deleted, st') \<Longrightarrow>
    gc_step lib grace s (s\<lparr>gc_store := st', gc_selected := gc_selected s - {(h, cutoff)},
      gc_unlinked := (if deleted then insert h (gc_unlinked s) else gc_unlinked s)\<rparr>)"
| forget: "h \<in> gc_unlinked s \<Longrightarrow>
    gc_step lib grace s (s\<lparr>gc_store := gc_delete_row h (gc_store s), gc_unlinked := gc_unlinked s - {h}\<rparr>)"

definition file_newer :: "block_store \<Rightarrow> u64 \<Rightarrow> int \<Rightarrow> bool" where
  "file_newer st h t \<longleftrightarrow> (\<exists>data m. block_files st h = Some (data, m) \<and> t < m)"

definition has_file :: "block_store \<Rightarrow> u64 \<Rightarrow> bool" where
  "has_file st h \<longleftrightarrow> block_files st h \<noteq> None"

text \<open>
  The invariant: referenced blocks and blocks shared within the grace period have their file, and a
  selected block that has been counted again carries a modification time past the cutoff.
\<close>

definition gc_ok :: "int \<Rightarrow> gc_state \<Rightarrow> bool" where
  "gc_ok grace s \<longleftrightarrow>
     0 < grace \<and> 0 \<le> gc_now s \<and> rows_ok (dedup_rows (gc_store s)) \<and>
     (\<forall>h r t. dedup_rows (gc_store s) h = Some r \<longrightarrow> released_at r = Some t \<longrightarrow> 0 \<le> t) \<and>
     (\<forall>h. 0 < refs_of (dedup_rows (gc_store s)) h \<longrightarrow> has_file (gc_store s) h) \<and>
     (\<forall>(h, t) \<in> gc_pending s. t \<le> gc_now s \<and>
        (gc_now s < t + grace * 1000000000 \<longrightarrow> file_newer (gc_store s) h (t - 1))) \<and>
     (\<forall>(h, c) \<in> gc_selected s. 0 \<le> c \<and> (c + grace) * 1000000000 \<le> gc_now s \<and>
        (0 < refs_of (dedup_rows (gc_store s)) h \<longrightarrow> file_newer (gc_store s) h (c * 1000000000)))"

inductive_cases gc_stepE: "gc_step lib grace s s'"

lemma gc_okI:
  assumes "0 < grace" "0 \<le> gc_now s" "rows_ok (dedup_rows (gc_store s))"
    "\<And>h r t. dedup_rows (gc_store s) h = Some r \<Longrightarrow> released_at r = Some t \<Longrightarrow> 0 \<le> t"
    "\<And>h. 0 < refs_of (dedup_rows (gc_store s)) h \<Longrightarrow> has_file (gc_store s) h"
    "\<And>h t. (h, t) \<in> gc_pending s \<Longrightarrow> t \<le> gc_now s"
    "\<And>h t. (h, t) \<in> gc_pending s \<Longrightarrow> gc_now s < t + grace * 1000000000 \<Longrightarrow> file_newer (gc_store s) h (t - 1)"
    "\<And>h c. (h, c) \<in> gc_selected s \<Longrightarrow> 0 \<le> c \<and> (c + grace) * 1000000000 \<le> gc_now s"
    "\<And>h c. (h, c) \<in> gc_selected s \<Longrightarrow> 0 < refs_of (dedup_rows (gc_store s)) h \<Longrightarrow>
       file_newer (gc_store s) h (c * 1000000000)"
  shows "gc_ok grace s"
  using assms by (auto simp: gc_ok_def)

lemma gc_okD:
  assumes "gc_ok grace s"
  shows "0 < grace" "0 \<le> gc_now s" "rows_ok (dedup_rows (gc_store s))"
    "\<And>h r t. dedup_rows (gc_store s) h = Some r \<Longrightarrow> released_at r = Some t \<Longrightarrow> 0 \<le> t"
    "\<And>h. 0 < refs_of (dedup_rows (gc_store s)) h \<Longrightarrow> has_file (gc_store s) h"
    "\<And>h t. (h, t) \<in> gc_pending s \<Longrightarrow> t \<le> gc_now s"
    "\<And>h t. (h, t) \<in> gc_pending s \<Longrightarrow> gc_now s < t + grace * 1000000000 \<Longrightarrow> file_newer (gc_store s) h (t - 1)"
    "\<And>h c. (h, c) \<in> gc_selected s \<Longrightarrow> 0 \<le> c \<and> (c + grace) * 1000000000 \<le> gc_now s"
    "\<And>h c. (h, c) \<in> gc_selected s \<Longrightarrow> 0 < refs_of (dedup_rows (gc_store s)) h \<Longrightarrow>
       file_newer (gc_store s) h (c * 1000000000)"
  using assms unfolding gc_ok_def by blast+

lemma store_block_files:
  assumes "store_block lib now level st chunk = (Some h, st')"
  shows "dedup_rows st' = dedup_rows st" "\<And>k. has_file st k \<Longrightarrow> has_file st' k" "file_newer st' h (now - 1)"
    "\<And>k t. file_newer st k t \<Longrightarrow> t < now \<Longrightarrow> file_newer st' k t"
  using assms by (auto elim!: store_block_cases simp: has_file_def file_newer_def)

lemma gc_ok_share:
  assumes "gc_ok grace s" "store_block lib (gc_now s) level (gc_store s) chunk = (Some h, st')"
  shows "gc_ok grace (s\<lparr>gc_store := st', gc_pending := insert (h, gc_now s) (gc_pending s)\<rparr>)"
proof -
  note st' = store_block_files [OF assms(2)]
  have "c * 1000000000 < gc_now s" if "(k, c) \<in> gc_selected s" for k c
    using assms(1) that unfolding gc_ok_def by fastforce
  then show ?thesis
    using assms(1) st' unfolding gc_ok_def by fastforce
qed

lemma rows_inc_refs:
  "dedup_rows (inc_refs es st) = fold inc_ref es (dedup_rows st)" "block_files (inc_refs es st) = block_files st"
  "dedup_rows (dec_refs now es st) = fold (dec_ref (unix_now now)) es (dedup_rows st)"
  "block_files (dec_refs now es st) = block_files st"
  by (simp_all add: inc_refs_def dec_refs_def)

lemma files_cong:
  "block_files st' = block_files st \<Longrightarrow> has_file st' = has_file st"
  "block_files st' = block_files st \<Longrightarrow> file_newer st' = file_newer st"
  by (auto simp: has_file_def file_newer_def fun_eq_iff)

lemma file_newer_has: "file_newer st h t \<Longrightarrow> has_file st h"
  by (auto simp: file_newer_def has_file_def)

lemma file_newer_mono: "file_newer st h t \<Longrightarrow> u \<le> t \<Longrightarrow> file_newer st h u"
  by (auto simp: file_newer_def)

lemma released_inc: "inc_ref e rows h = Some r \<Longrightarrow> released_at r = Some t \<Longrightarrow>
    \<exists>r'. rows h = Some r' \<and> released_at r' = Some t"
  by (auto simp: inc_ref_def split: option.splits if_splits)

lemma released_dec:
  "fold (dec_ref u) es rows h = Some r \<Longrightarrow> released_at r = Some t \<Longrightarrow>
     t = u \<or> (\<exists>r'. rows h = Some r' \<and> released_at r' = Some t)"
proof (induction es arbitrary: rows)
  case Nil
  then show ?case by simp
next
  case (Cons e es)
  from Cons.IH [of "dec_ref u e rows"] Cons.prems show ?case
    by (auto simp: dec_ref_def split: option.splits if_splits)
qed

lemma gc_ok_count:
  assumes "gc_ok grace s" "(h, t) \<in> gc_pending s" "gc_now s < t + grace * 1000000000"
  shows "gc_ok grace (s\<lparr>gc_store := inc_refs [(h, len)] (gc_store s), gc_pending := gc_pending s - {(h, t)}\<rparr>)"
proof -
  let ?st = "gc_store s" and ?st' = "inc_refs [(h, len)] (gc_store s)"
  note ok = gc_okD [OF assms(1)]
  have new: "file_newer ?st h (t - 1)" using ok(7) assms by blast
  have sel: "file_newer ?st h (c * 1000000000)" if "(h, c) \<in> gc_selected s" for c
    using ok(8) [OF that] assms(3) by (intro file_newer_mono [OF new]) (simp add: algebra_simps)
  have rows: "dedup_rows ?st' = inc_ref (h, len) (dedup_rows ?st)" by (simp add: rows_inc_refs)
  note files = files_cong [OF rows_inc_refs(2), of "[(h, len)]" ?st]
  have "0 \<le> u" if "dedup_rows ?st' k = Some r" "released_at r = Some u" for k r u
    using released_inc [of "(h, len)" "dedup_rows ?st" k r u] that ok(4) rows by auto
  moreover have "has_file ?st k" if "0 < refs_of (dedup_rows ?st') k" for k
    using that ok(5) [of k] file_newer_has [OF new] by (cases "k = h") (simp_all add: rows refs_of_inc)
  moreover have "file_newer ?st k (c * 1000000000)"
    if "(k, c) \<in> gc_selected s" "0 < refs_of (dedup_rows ?st') k" for k c
    using that ok(9) [of k c] sel [of c] by (cases "k = h") (simp_all add: rows refs_of_inc)
  ultimately show ?thesis
    using ok(1-3,6-8) by (intro gc_okI) (simp_all add: files rows rows_ok_inc, blast)
qed

lemma gc_ok_release:
  assumes "gc_ok grace s"
  shows "gc_ok grace (s\<lparr>gc_store := dec_refs (gc_now s) entries (gc_store s)\<rparr>)"
proof -
  let ?st = "gc_store s" and ?st' = "dec_refs (gc_now s) entries (gc_store s)"
  let ?rows = "dedup_rows (gc_store s)"
  note ok = gc_okD [OF assms(1)]
  have nn: "0 \<le> refs_of ?rows h" for h
    using ok(3) unfolding rows_ok_def refs_of_def by (auto split: option.splits)
  have rows: "dedup_rows ?st' = fold (dec_ref (unix_now (gc_now s))) entries ?rows" by (simp add: rows_inc_refs)
  note files = files_cong [OF rows_inc_refs(4), of "gc_now s" entries ?st]
  have less: "0 < refs_of ?rows h" if "0 < refs_of (dedup_rows ?st') h" for h
    using that refs_of_dec_refs [OF nn, of "unix_now (gc_now s)" entries h] by (simp add: rows count_refs_def)
  have now: "0 \<le> unix_now (gc_now s)" by (simp add: unix_now_def pos_imp_zdiv_nonneg_iff)
  have "0 \<le> u" if "dedup_rows ?st' k = Some r" "released_at r = Some u" for k r u
    using released_dec [of "unix_now (gc_now s)" entries ?rows k r u] that ok(4) rows now by auto
  moreover have "has_file ?st k" if "0 < refs_of (dedup_rows ?st') k" for k
    using less [OF that] ok(5) by blast
  moreover have "file_newer ?st k (c * 1000000000)"
    if "(k, c) \<in> gc_selected s" "0 < refs_of (dedup_rows ?st') k" for k c
    using less [OF that(2)] ok(9) that(1) by blast
  ultimately show ?thesis
    using ok(1-3,6-8) by (intro gc_okI) (simp_all add: files rows rows_ok_refs)
qed

lemma gc_ok_tick: "gc_ok grace s \<Longrightarrow> gc_now s \<le> t \<Longrightarrow> gc_ok grace (s\<lparr>gc_now := t\<rparr>)"
  unfolding gc_ok_def by fastforce

lemma gc_ok_abandon: "gc_ok grace s \<Longrightarrow> gc_ok grace (s\<lparr>gc_pending := gc_pending s - {(h, t)}\<rparr>)"
  unfolding gc_ok_def by auto

lemma gc_ok_select:
  assumes "gc_ok grace s" "cutoff = unix_now (gc_now s) - grace"
  shows "gc_ok grace (s\<lparr>gc_selected := gc_selected s \<union>
      (\<lambda>h. (h, cutoff)) ` set (gc_select scan cutoff limit (gc_store s))\<rparr>)"
proof -
  have now: "(cutoff + grace) * 1000000000 \<le> gc_now s"
    using assms unfolding gc_ok_def by (simp add: unix_now_def)
  have "gc_eligible cutoff (dedup_rows (gc_store s)) h" if "h \<in> set (gc_select scan cutoff limit (gc_store s))" for h
    using that by (auto simp: gc_select_def Let_def dest: in_set_takeD split: if_splits)
  then have "0 \<le> cutoff \<and> refs_of (dedup_rows (gc_store s)) h \<le> 0"
    if "h \<in> set (gc_select scan cutoff limit (gc_store s))" for h
    using that assms(1) unfolding gc_ok_def gc_eligible_def refs_of_def
    by (fastforce split: option.splits)
  with assms(1) now show ?thesis unfolding gc_ok_def by fastforce
qed

lemma gc_ok_unlink:
  assumes "gc_ok grace s" "(h, cutoff) \<in> gc_selected s" "gc_delete_file cutoff h (gc_store s) = (deleted, st')"
  shows "gc_ok grace (s\<lparr>gc_store := st', gc_selected := gc_selected s - {(h, cutoff)}, gc_unlinked := U\<rparr>)"
proof (cases "st' = gc_store s")
  case True
  with assms(1) show ?thesis unfolding gc_ok_def by auto
next
  case False
  let ?st = "gc_store s"
  have c: "0 \<le> cutoff" "(cutoff + grace) * 1000000000 \<le> gc_now s" using assms(1,2) unfolding gc_ok_def by fastforce+
  have st': "\<not> file_newer ?st h (cutoff * 1000000000)" "st' = ?st\<lparr>block_files := (block_files ?st)(h := None)\<rparr>"
    using assms(3) False c by (auto simp: gc_delete_file_def file_newer_def Let_def split: option.splits if_splits)
  have free: "\<not> 0 < refs_of (dedup_rows ?st) h" using assms(1,2) st'(1) unfolding gc_ok_def by fastforce
  have "\<not> gc_now s < t + grace * 1000000000" if "(h, t) \<in> gc_pending s" for t
    using that assms(1) st'(1) c file_newer_mono [of ?st h "t - 1" "cutoff * 1000000000"]
    unfolding gc_ok_def by fastforce
  moreover have "has_file st' k = has_file ?st k" "file_newer st' k u = file_newer ?st k u" if "k \<noteq> h" for k u
    using that st'(2) by (auto simp: has_file_def file_newer_def)
  moreover have "dedup_rows st' = dedup_rows ?st" using st'(2) by simp
  moreover note ok = gc_okD [OF assms(1)]
  ultimately show ?thesis
    by (intro gc_okI) (simp_all, (use free in \<open>metis+\<close>)?)
qed

lemma gc_ok_forget:
  assumes "gc_ok grace s"
  shows "gc_ok grace (s\<lparr>gc_store := gc_delete_row h (gc_store s), gc_unlinked := U\<rparr>)"
proof -
  let ?st = "gc_store s" and ?st' = "gc_delete_row h (gc_store s)"
  note ok = gc_okD [OF assms(1)]
  have rows: "dedup_rows ?st' k = Some r \<Longrightarrow> dedup_rows ?st k = Some r" for k r
    by (auto simp: gc_delete_row_def split: option.splits if_splits)
  have refs: "refs_of (dedup_rows ?st') = refs_of (dedup_rows ?st)"
    using ok(3) by (fastforce simp: gc_delete_row_def refs_of_def rows_ok_def fun_eq_iff split: option.splits)
  have files: "block_files ?st' = block_files ?st"
    by (simp add: gc_delete_row_def split: option.splits)
  have "rows_ok (dedup_rows ?st')" using ok(3) rows unfolding rows_ok_def by blast
  moreover have "0 \<le> t" if "dedup_rows ?st' k = Some r" "released_at r = Some t" for k r t
    using rows ok(4) that by blast
  ultimately show ?thesis
    using ok(1-3,5-9) by (intro gc_okI) (simp_all add: refs files_cong [OF files])
qed

lemma gc_step_ok: "gc_step lib grace s s' \<Longrightarrow> gc_ok grace s \<Longrightarrow> gc_ok grace s'"
  by (induction rule: gc_step.induct)
     (simp_all only: gc_ok_share gc_ok_count gc_ok_abandon gc_ok_release gc_ok_tick gc_ok_select
        gc_ok_unlink gc_ok_forget)

lemma gc_reachable_ok: "(gc_step lib grace)\<^sup>*\<^sup>* s s' \<Longrightarrow> gc_ok grace s \<Longrightarrow> gc_ok grace s'"
  by (induction rule: rtranclp_induct) (auto intro: gc_step_ok)

text \<open>A collector pass that runs alone.\<close>

lemma gc_loop_count: "gc_loop cutoff hs n st = (m, st') \<Longrightarrow> n \<le> m \<and> m \<le> n + length hs"
proof (induction hs arbitrary: n st)
  case (Cons h hs)
  obtain d st1 where "gc_delete_file cutoff h st = (d, st1)" by (cases "gc_delete_file cutoff h st")
  with Cons.IH [of "n + 1" "gc_delete_row h st1"] Cons.IH [of n st1] Cons.prems show ?case
    by (auto split: if_splits)
qed simp

lemma gc_delete_file_cases:
  obtains (kept) "gc_delete_file cutoff h st = (False, st)" "file_newer st h (max cutoff 0 * 1000000000)"
  | (gone) "gc_delete_file cutoff h st = (True, st\<lparr>block_files := (block_files st)(h := None)\<rparr>)"
      "\<not> file_newer st h (max cutoff 0 * 1000000000)"
proof (cases "file_newer st h (max cutoff 0 * 1000000000)")
  case True
  then show thesis by (intro kept) (auto simp: gc_delete_file_def file_newer_def)
next
  case False
  then show thesis by (intro gone) (auto simp: gc_delete_file_def file_newer_def split: option.splits)
qed

lemma gc_delete_row_simps [simp]:
  "block_files (gc_delete_row h st) = block_files st"
  "k \<noteq> h \<Longrightarrow> dedup_rows (gc_delete_row h st) k = dedup_rows st k"
  by (auto simp: gc_delete_row_def split: option.splits)

lemma gc_delete_row_referenced:
  "dedup_rows st k = Some r \<Longrightarrow> 0 < refcount r \<Longrightarrow> dedup_rows (gc_delete_row h st) k = Some r"
  by (auto simp: gc_delete_row_def split: option.splits)

lemma gc_loop_keeps:
  "gc_loop cutoff hs n st = (m, st') \<Longrightarrow> k \<notin> set hs \<or> file_newer st k (max cutoff 0 * 1000000000) \<Longrightarrow>
     block_files st' k = block_files st k \<and> dedup_rows st' k = dedup_rows st k"
proof (induction hs arbitrary: n st)
  case (Cons h hs)
  show ?case
  proof (cases rule: gc_delete_file_cases [of cutoff h st])
    case kept
    with Cons show ?thesis by auto
  next
    case gone
    let ?st1 = "gc_delete_row h (st\<lparr>block_files := (block_files st)(h := None)\<rparr>)"
    have "k \<noteq> h" using Cons.prems(2) gone(2) by auto
    moreover from this have "file_newer ?st1 k u = file_newer st k u" for u by (simp add: file_newer_def)
    ultimately show ?thesis using Cons.IH [of "n + 1" ?st1] Cons.prems gone(1) by auto
  qed
qed simp

lemma gc_loop_referenced:
  "gc_loop cutoff hs n st = (m, st') \<Longrightarrow> dedup_rows st k = Some r \<Longrightarrow> 0 < refcount r \<Longrightarrow> dedup_rows st' k = Some r"
proof (induction hs arbitrary: n st)
  case (Cons h hs)
  show ?case
  proof (cases rule: gc_delete_file_cases [of cutoff h st])
    case kept
    with Cons show ?thesis by auto
  next
    case gone
    let ?st1 = "st\<lparr>block_files := (block_files st)(h := None)\<rparr>"
    have "dedup_rows (gc_delete_row h ?st1) k = Some r"
      using Cons.prems(2,3) by (intro gc_delete_row_referenced) simp_all
    then show ?thesis using Cons.IH [of "n + 1" "gc_delete_row h ?st1"] Cons.prems gone(1) by auto
  qed
qed simp

text \<open>A pass is a sequence of steps: one selection, then the file and the row of each block.\<close>

lemma gc_loop_steps:
  assumes "gc_loop cutoff hs n (gc_store s) = (m, st')" "distinct hs"
    "gc_selected s = (\<lambda>h. (h, cutoff)) ` set hs" "gc_unlinked s = {}"
  shows "(gc_step lib grace)\<^sup>*\<^sup>* s (s\<lparr>gc_store := st', gc_selected := {}\<rparr>)"
  using assms
proof (induction hs arbitrary: n s)
  case Nil
  then have "s\<lparr>gc_store := st', gc_selected := {}\<rparr> = s" by simp
  then show ?case by simp
next
  case (Cons h hs)
  obtain d st1 where gd: "gc_delete_file cutoff h (gc_store s) = (d, st1)"
    by (cases "gc_delete_file cutoff h (gc_store s)")
  let ?sel = "(\<lambda>h. (h, cutoff)) ` set hs"
  let ?s1 = "s\<lparr>gc_store := st1, gc_selected := ?sel, gc_unlinked := (if d then {h} else {})\<rparr>"
  let ?s2 = "s\<lparr>gc_store := (if d then gc_delete_row h st1 else st1), gc_selected := ?sel\<rparr>"
  have sel: "gc_selected s - {(h, cutoff)} = ?sel" using Cons.prems(2,3) by auto
  have "gc_step lib grace s ?s1"
    using gc_step.unlink [OF _ gd, of lib grace] Cons.prems(3,4) unfolding sel by (cases d) simp_all
  moreover have "(gc_step lib grace)\<^sup>*\<^sup>* ?s1 ?s2"
  proof (cases d)
    case True
    then have "gc_step lib grace ?s1 (?s1\<lparr>gc_store := gc_delete_row h (gc_store ?s1), gc_unlinked := gc_unlinked ?s1 - {h}\<rparr>)"
      by (intro gc_step.forget) simp
    moreover have "?s1\<lparr>gc_store := gc_delete_row h (gc_store ?s1), gc_unlinked := gc_unlinked ?s1 - {h}\<rparr> = ?s2"
      using True Cons.prems(4) by (cases s) simp
    ultimately show ?thesis by (metis r_into_rtranclp)
  next
    case False
    then have "?s1 = ?s2" using Cons.prems(4) by (cases s) simp
    then show ?thesis by simp
  qed
  moreover have "(gc_step lib grace)\<^sup>*\<^sup>* ?s2 (?s2\<lparr>gc_store := st', gc_selected := {}\<rparr>)"
    using Cons.IH [of "if d then n + 1 else n" ?s2] Cons.prems gd by (cases d) simp_all
  ultimately show ?case by (simp add: converse_rtranclp_into_rtranclp rtranclp_trans)
qed

lemma gc_pass_steps:
  assumes "distinct scan" "gc_selected s = {}" "gc_unlinked s = {}"
    "gc_released_blocks scan (gc_now s) grace limit (gc_store s) = (m, st')"
  shows "(gc_step lib grace)\<^sup>*\<^sup>* s (s\<lparr>gc_store := st'\<rparr>)"
proof -
  define cutoff where "cutoff = unix_now (gc_now s) - grace"
  define hs where "hs = gc_select scan cutoff limit (gc_store s)"
  let ?s1 = "s\<lparr>gc_selected := (\<lambda>h. (h, cutoff)) ` set hs\<rparr>"
  have "gc_step lib grace s ?s1"
    using gc_step.select [OF cutoff_def, of lib scan limit] assms(2) by (simp add: hs_def)
  moreover have "(gc_step lib grace)\<^sup>*\<^sup>* ?s1 (?s1\<lparr>gc_store := st', gc_selected := {}\<rparr>)"
    using assms
    by (intro gc_loop_steps [of cutoff hs 0 _ m])
       (simp_all add: gc_released_blocks_def cutoff_def hs_def gc_select_def Let_def)
  moreover have "?s1\<lparr>gc_store := st', gc_selected := {}\<rparr> = s\<lparr>gc_store := st'\<rparr>" using assms(2) by simp
  ultimately show ?thesis by (metis converse_rtranclp_into_rtranclp)
qed

section \<open>Properties\<close>

definition empty_store :: block_store where
  "empty_store = \<lparr>block_files = Map.empty, dedup_rows = Map.empty\<rparr>"







text \<open>
  C7: Reference counts count references. Counting the entries of a blob adds one per entry, releasing
  them again restores every count, and throughout a count is never negative and a row carries a
  release time exactly when its count is zero.
\<close>

theorem refcounts_exact:
  assumes "rows_ok (dedup_rows st)"
  shows "refs_of (dedup_rows (inc_refs es st)) h = refs_of (dedup_rows st) h + count_refs h es \<and>
    refs_of (dedup_rows (dec_refs now es (inc_refs es st))) h = refs_of (dedup_rows st) h \<and>
    rows_ok (dedup_rows (inc_refs es st)) \<and> rows_ok (dedup_rows (dec_refs now es st))"
proof -
  have "0 \<le> refs_of (dedup_rows st) h"
    using assms unfolding rows_ok_def refs_of_def by (auto split: option.splits)
  then show ?thesis
    using assms by (simp add: rows_inc_refs refs_of_inc_refs refs_of_dec_refs rows_ok_refs count_refs_def)
qed

theorem refcounts_exact_witness:
  "let st = empty_store; es = [(7, 3), (8, 3), (7, 3)] in
   refs_of (dedup_rows (inc_refs es st)) 7 = 2 \<and>
   refs_of (dedup_rows (dec_refs 5 es (inc_refs es st))) 7 = 0"
  using refcounts_exact [of empty_store "[(7, 3), (8, 3), (7, 3)]" 7 5]
  by (simp add: rows_ok_def empty_store_def refs_of_def count_refs_def Let_def)



end
