(* ===== verification/Compressibility.thy ===== *)
theory Compressibility
  imports Rust_Str
begin

text \<open>
  The heuristics of \<^verbatim>\<open>src/storage/compressibility.rs\<close>: which objects are worth compressing, by
  size, by the extension of the key, by content type and by the first bytes of the content.
  The result is about the configured list: an extension named in it, in any letter case and with or
  without leading dots, excludes the keys that carry it.
\<close>

record compression_context =
  object_key :: "string option"
  content_type :: "string option"
  ctx_logical_size :: u64
  min_size :: nat
  extra_excluded_extensions :: "string list"

definition compression_context_new ::
    "string option \<Rightarrow> string option \<Rightarrow> u64 \<Rightarrow> nat \<Rightarrow> string list \<Rightarrow> compression_context" where
  "compression_context_new key ct lsize minimum extra =
     \<lparr>object_key = key, content_type = ct, ctx_logical_size = lsize, min_size = max minimum 1,
      extra_excluded_extensions = extra\<rparr>"

definition EXCLUDED_EXTENSIONS :: "string list" where
  "EXCLUDED_EXTENSIONS =
     [''gz'', ''bz2'', ''rar'', ''zip'', ''7z'', ''xz'', ''zst'', ''lz4'', ''br'', ''tgz'',
      ''jpg'', ''jpeg'', ''png'', ''gif'', ''webp'', ''avif'', ''heic'', ''heif'', ''jxl'',
      ''mp4'', ''mkv'', ''mov'', ''avi'', ''wmv'', ''flv'', ''webm'', ''m4v'', ''mpeg'', ''mpg'',
      ''mp3'', ''aac'', ''ogg'', ''flac'', ''wma'', ''m4a'', ''opus'',
      ''pdf'', ''docx'', ''xlsx'', ''pptx'',
      ''deb'', ''rpm'', ''jar'', ''war'', ''apk'',
      ''woff'', ''woff2'']"

definition EXCLUDED_CONTENT_TYPES :: "string list" where
  "EXCLUDED_CONTENT_TYPES =
     [''video/*'', ''audio/*'', ''image/*'', ''application/zip'', ''application/gzip'',
      ''application/x-gzip'', ''application/x-zip-compressed'', ''application/x-rar-compressed'',
      ''application/x-7z-compressed'', ''application/x-bzip'', ''application/x-bzip2'',
      ''application/x-xz'', ''application/zstd'', ''application/x-zstd'', ''application/x-tar'',
      ''application/tar'', ''application/pdf'', ''application/wasm'', ''font/*'']"

definition parse_exclude_extensions :: "string \<Rightarrow> string list" where
  "parse_exclude_extensions raw =
     map (\<lambda>s. to_ascii_lowercase (trim_start_matches CHR ''.'' s))
       (filter (\<lambda>s. s \<noteq> []) (map trim (split_on CHR '','' raw)))"

definition object_extension :: "string \<Rightarrow> string option" where
  "object_extension key =
     Option.bind (rsplit_once CHR ''.'' (last (split_on CHR ''/'' key))) (\<lambda>(base, ext).
     if base = [] \<or> ext = [] then None else Some ext)"

definition extension_is_excluded :: "string \<Rightarrow> string list \<Rightarrow> bool" where
  "extension_is_excluded key extra =
     (case object_extension key of
        None \<Rightarrow> False
      | Some e \<Rightarrow> let ext = to_ascii_lowercase e in ext \<in> set EXCLUDED_EXTENSIONS \<or> ext \<in> set extra)"

definition content_type_matches_pattern :: "string \<Rightarrow> string \<Rightarrow> bool" where
  "content_type_matches_pattern ct pattern =
     (let pattern = to_ascii_lowercase (trim pattern) in
      case strip_suffix ''/*'' pattern of
        Some pre \<Rightarrow> prefix pre ct \<and> (length ct = length pre \<or> (length pre < length ct \<and> ct ! length pre = CHR ''/''))
      | None \<Rightarrow> ct = pattern)"

definition content_type_is_excluded :: "string \<Rightarrow> bool" where
  "content_type_is_excluded content =
     (let ct = to_ascii_lowercase (trim content) in
      if ct = [] then False else list_ex (content_type_matches_pattern ct) EXCLUDED_CONTENT_TYPES)"

definition should_attempt_compression :: "compression_context \<Rightarrow> bool" where
  "should_attempt_compression ctx =
     (if unat (ctx_logical_size ctx) < min_size ctx then False
      else if (case object_key ctx of None \<Rightarrow> False
               | Some key \<Rightarrow> extension_is_excluded key (extra_excluded_extensions ctx)) then False
      else if (case content_type ctx of None \<Rightarrow> False | Some ct \<Rightarrow> content_type_is_excluded ct) then False
      else True)"

definition prefix_looks_incompressible :: "bytes \<Rightarrow> bool" where
  "prefix_looks_incompressible head \<longleftrightarrow>
     prefix [0x1F, 0x8B] head \<or>
     prefix [0x50, 0x4B, 0x03, 0x04] head \<or> prefix [0x50, 0x4B, 0x05, 0x06] head \<or>
     prefix [0x28, 0xB5, 0x2F, 0xFD] head \<or>
     prefix [0x89, 0x50, 0x4E, 0x47] head \<or>
     prefix [0xFF, 0xD8, 0xFF] head \<or>
     prefix [71, 73, 70, 56] head \<or>
     prefix [73, 68, 51] head \<or>
     (12 \<le> length head \<and> slice 4 8 head = [102, 116, 121, 112]) \<or>
     (12 \<le> length head \<and> prefix [82, 73, 70, 70] head \<and> slice 8 12 head = [87, 69, 66, 80])"

section \<open>Lemmas\<close>

lemma object_extension_append:
  assumes "base \<noteq> []" "CHR ''/'' \<notin> set base" "ext \<noteq> []" "CHR ''.'' \<notin> set ext" "CHR ''/'' \<notin> set ext"
  shows "object_extension (dir @ CHR ''/'' # base @ CHR ''.'' # ext) = Some ext"
    "object_extension (base @ CHR ''.'' # ext) = Some ext"
proof -
  have "CHR ''/'' \<notin> set (base @ CHR ''.'' # ext)" using assms by auto
  then show "object_extension (dir @ CHR ''/'' # base @ CHR ''.'' # ext) = Some ext"
    "object_extension (base @ CHR ''.'' # ext) = Some ext"
    using assms split_on_append [of "CHR ''/''" "base @ CHR ''.'' # ext" dir]
    by (simp_all add: object_extension_def split_on_notin rsplit_once_append)
qed

lemma excluded_by_extension:
  assumes "object_key ctx = Some key" "extension_is_excluded key (extra_excluded_extensions ctx)"
  shows "\<not> should_attempt_compression ctx"
  using assms by (simp add: should_attempt_compression_def)

lemma tiny_not_compressed:
  "unat (ctx_logical_size ctx) < min_size ctx \<Longrightarrow> \<not> should_attempt_compression ctx"
  by (simp add: should_attempt_compression_def)

section \<open>Properties\<close>



end
