(* ===== verification/Block_Cache.thy ===== *)
theory Block_Cache
  imports Prelude
begin

text \<open>
  The cache of decoded blocks of \<^verbatim>\<open>src/storage/block_cache.rs\<close>, an LRU bounded by entries and by
  bytes. The LRU map itself is the \<^verbatim>\<open>hashlink\<close> crate: its operations are a parameter of the model, and
  \<open>lru_spec\<close> states their documented behaviour through the list of entries from the least to the
  most recently used. The eviction loop of \<open>insert\<close> is a partial function; \<open>None\<close> means that it does
  not end.

  Results: the eviction loop ends, the byte account is exact and both bounds hold after every
  insertion; a block that fits is found right after it was inserted; and a lookup only returns what
  was inserted last under its key.
\<close>

type_synonym block_key = "string \<times> nat \<times> u64"

record 'l lru_lib =
  lru_new :: 'l
  lru_get :: "'l \<Rightarrow> block_key \<Rightarrow> bytes option \<times> 'l"
  lru_insert :: "'l \<Rightarrow> block_key \<Rightarrow> bytes \<Rightarrow> bytes option \<times> 'l"
  lru_remove :: "'l \<Rightarrow> (block_key \<times> bytes) option \<times> 'l"
  lru_len :: "'l \<Rightarrow> nat"

definition touch :: "(block_key \<times> bytes) list \<Rightarrow> block_key \<Rightarrow> bytes \<Rightarrow> (block_key \<times> bytes) list" where
  "touch es k v = filter (\<lambda>e. fst e \<noteq> k) es @ [(k, v)]"

text \<open>The documented behaviour: \<open>alpha\<close> lists the entries, least recently used first.\<close>

definition lru_spec :: "'l lru_lib \<Rightarrow> ('l \<Rightarrow> (block_key \<times> bytes) list) \<Rightarrow> bool" where
  "lru_spec lru alpha \<longleftrightarrow>
     alpha (lru_new lru) = [] \<and>
     (\<forall>l. lru_len lru l = length (alpha l)) \<and>
     (\<forall>l k. fst (lru_get lru l k) = map_of (alpha l) k \<and>
        alpha (snd (lru_get lru l k)) =
          (case map_of (alpha l) k of None \<Rightarrow> alpha l | Some v \<Rightarrow> touch (alpha l) k v)) \<and>
     (\<forall>l k v. fst (lru_insert lru l k v) = map_of (alpha l) k \<and>
        alpha (snd (lru_insert lru l k v)) = touch (alpha l) k v) \<and>
     (\<forall>l. fst (lru_remove lru l) = (case alpha l of [] \<Rightarrow> None | e # _ \<Rightarrow> Some e) \<and>
        alpha (snd (lru_remove lru l)) = tl (alpha l))"

record 'l block_decode_cache =
  entries :: 'l
  capacity :: nat
  cached_bytes :: nat
  max_bytes :: nat

definition with_byte_budget :: "'l lru_lib \<Rightarrow> nat \<Rightarrow> nat \<Rightarrow> 'l block_decode_cache option" where
  "with_byte_budget lru cap budget =
     (if cap = 0 \<or> budget = 0 then None
      else Some \<lparr>entries = lru_new lru, capacity = cap, cached_bytes = 0, max_bytes = budget\<rparr>)"

definition cache_get ::
    "'l lru_lib \<Rightarrow> 'l block_decode_cache \<Rightarrow> block_key \<Rightarrow> bytes option \<times> 'l block_decode_cache" where
  "cache_get lru c k = (case lru_get lru (entries c) k of (v, l) \<Rightarrow> (v, c\<lparr>entries := l\<rparr>))"

partial_function (option) evict ::
    "'l lru_lib \<Rightarrow> 'l block_decode_cache \<Rightarrow> 'l block_decode_cache option" where
  "evict lru c =
     (if max_bytes c < cached_bytes c \<or> capacity c < lru_len lru (entries c)
      then (case lru_remove lru (entries c) of
              (None, l) \<Rightarrow> Some (c\<lparr>entries := l\<rparr>)
            | (Some (_, evicted), l) \<Rightarrow>
                evict lru (c\<lparr>entries := l, cached_bytes := cached_bytes c - length evicted\<rparr>))
      else Some c)"

definition cache_insert ::
    "'l lru_lib \<Rightarrow> 'l block_decode_cache \<Rightarrow> block_key \<Rightarrow> bytes \<Rightarrow> 'l block_decode_cache option" where
  "cache_insert lru c k block =
     (if max_bytes c < length block then Some c
      else
        (case lru_insert lru (entries c) k block of
           (replaced, l) \<Rightarrow>
             let freed = (case replaced of None \<Rightarrow> 0 | Some old \<Rightarrow> length old) in
             evict lru (c\<lparr>entries := l, cached_bytes := (cached_bytes c - freed) + length block\<rparr>)))"

section \<open>Lemmas\<close>

lemma lru_specD:
  assumes "lru_spec lru alpha"
  shows "alpha (lru_new lru) = []" "lru_len lru l = length (alpha l)"
    "fst (lru_get lru l k) = map_of (alpha l) k"
    "alpha (snd (lru_get lru l k)) = (case map_of (alpha l) k of None \<Rightarrow> alpha l | Some v \<Rightarrow> touch (alpha l) k v)"
    "fst (lru_insert lru l k v) = map_of (alpha l) k" "alpha (snd (lru_insert lru l k v)) = touch (alpha l) k v"
    "fst (lru_remove lru l) = (case alpha l of [] \<Rightarrow> None | e # _ \<Rightarrow> Some e)"
    "alpha (snd (lru_remove lru l)) = tl (alpha l)"
  using assms unfolding lru_spec_def by blast+

definition held_bytes :: "(block_key \<times> bytes) list \<Rightarrow> nat" where
  "held_bytes es = sum_list (map (\<lambda>e. length (snd e)) es)"

lemma held_bytes_simps [simp]:
  "held_bytes [] = 0" "held_bytes (e # es) = length (snd e) + held_bytes es"
  "held_bytes (es @ fs) = held_bytes es + held_bytes fs"
  by (simp_all add: held_bytes_def)

text \<open>The invariant: keys are distinct, the byte account is exact, and both bounds hold.\<close>

definition account_ok :: "('l \<Rightarrow> (block_key \<times> bytes) list) \<Rightarrow> 'l block_decode_cache \<Rightarrow> bool" where
  "account_ok alpha c \<longleftrightarrow>
     distinct (map fst (alpha (entries c))) \<and> cached_bytes c = held_bytes (alpha (entries c)) \<and>
     0 < capacity c \<and> 0 < max_bytes c"

definition cache_ok :: "('l \<Rightarrow> (block_key \<times> bytes) list) \<Rightarrow> 'l block_decode_cache \<Rightarrow> bool" where
  "cache_ok alpha c \<longleftrightarrow>
     account_ok alpha c \<and> cached_bytes c \<le> max_bytes c \<and> length (alpha (entries c)) \<le> capacity c"

lemma map_of_touch: "map_of (touch es k v) j = (if j = k then Some v else map_of es j)"
proof -
  have "map_of (filter (\<lambda>e. fst e \<noteq> k) es) j = (if j = k then None else map_of es j)"
    by (induction es) auto
  then show ?thesis by (auto simp: touch_def map_add_def split: option.splits)
qed

lemma distinct_touch: "distinct (map fst es) \<Longrightarrow> distinct (map fst (touch es k v))"
  by (auto simp: touch_def distinct_map_filter)

lemma filter_absent: "k \<notin> fst ` set es \<Longrightarrow> filter (\<lambda>e. fst e \<noteq> k) es = es"
  by (induction es) auto

lemma held_bytes_filter:
  "distinct (map fst es) \<Longrightarrow>
   held_bytes (filter (\<lambda>e. fst e \<noteq> k) es) =
     held_bytes es - (case map_of es k of None \<Rightarrow> 0 | Some old \<Rightarrow> length old)"
proof (induction es)
  case (Cons e es)
  show ?case
  proof (cases "fst e = k")
    case True
    then have "filter (\<lambda>e. fst e \<noteq> k) es = es" using Cons.prems by (intro filter_absent) simp
    with True show ?thesis by simp
  next
    case False
    have "(case map_of es k of None \<Rightarrow> 0 | Some old \<Rightarrow> length old) \<le> held_bytes es"
    proof (cases "map_of es k")
      case (Some old)
      then have "(k, old) \<in> set es" by (rule map_of_SomeD)
      then show ?thesis
        using Some member_le_sum_list [of "length old" "map (\<lambda>e. length (snd e)) es"]
        by (force simp: held_bytes_def)
    qed simp
    with False Cons show ?thesis by auto
  qed
qed simp

lemma length_filter_touch: "distinct (map fst es) \<Longrightarrow> map_of es k = Some v \<Longrightarrow> length (touch es k w) = length es"
proof (induction es)
  case (Cons e es)
  show ?case
  proof (cases "fst e = k")
    case True
    then have "filter (\<lambda>e. fst e \<noteq> k) es = es" using Cons.prems by (intro filter_absent) simp
    with True show ?thesis by (simp add: touch_def)
  next
    case False
    with Cons show ?thesis by (simp add: touch_def)
  qed
qed simp

lemma cache_get_ok:
  assumes "lru_spec lru alpha" "cache_ok alpha c" "cache_get lru c k = (r, c')"
  shows "cache_ok alpha c'" "r = map_of (alpha (entries c)) k"
    "map_of (alpha (entries c')) = map_of (alpha (entries c))"
proof -
  let ?es = "alpha (entries c)"
  obtain l where g: "lru_get lru (entries c) k = (r, l)" "c' = c\<lparr>entries := l\<rparr>"
    using assms(3) by (auto simp: cache_get_def split: prod.splits)
  show r: "r = map_of ?es k" using lru_specD(3) [OF assms(1), of "entries c" k] g by simp
  have es: "alpha l = (case r of None \<Rightarrow> ?es | Some v \<Rightarrow> touch ?es k v)"
    using lru_specD(4) [OF assms(1), of "entries c" k] g r by simp
  show "map_of (alpha (entries c')) = map_of ?es"
    using es r g by (auto simp: map_of_touch fun_eq_iff split: option.splits)
  have d: "distinct (map fst ?es)" using assms(2) by (simp add: cache_ok_def account_ok_def)
  have "length (alpha l) = length ?es" "held_bytes (alpha l) = held_bytes ?es" "distinct (map fst (alpha l))"
  proof (atomize (full), cases r)
    case (Some v)
    have "(k, v) \<in> set ?es" using Some r by (simp add: map_of_SomeD)
    then have "length v \<le> held_bytes ?es"
      using member_le_sum_list [of "length v" "map (\<lambda>e. length (snd e)) ?es"] by (force simp: held_bytes_def)
    then have "held_bytes (touch ?es k v) = held_bytes ?es"
      using held_bytes_filter [OF d, of k] Some r by (simp add: touch_def)
    with Some r es d show "length (alpha l) = length ?es \<and> held_bytes (alpha l) = held_bytes ?es \<and> distinct (map fst (alpha l))"
      by (simp add: length_filter_touch distinct_touch)
  qed (use es d in simp)
  with assms(2) g show "cache_ok alpha c'" by (simp add: cache_ok_def account_ok_def)
qed

lemma evict_ends:
  assumes "lru_spec lru alpha" "account_ok alpha c"
  shows "\<exists>c' n. evict lru c = Some c' \<and> cache_ok alpha c' \<and> capacity c' = capacity c \<and> max_bytes c' = max_bytes c \<and>
    alpha (entries c') = drop n (alpha (entries c)) \<and>
    (\<forall>es e. alpha (entries c) = es @ [e] \<longrightarrow> length (snd e) \<le> max_bytes c \<longrightarrow> e \<in> set (alpha (entries c')))"
  using assms(2)
proof (induction "length (alpha (entries c))" arbitrary: c rule: less_induct)
  case less
  note spec = lru_specD [OF assms(1)]
  show ?case
  proof (cases "max_bytes c < cached_bytes c \<or> capacity c < lru_len lru (entries c)")
    case False
    then have "evict lru c = Some c" by (simp add: evict.simps)
    with less.prems False show ?thesis
      by (intro exI [of _ c] exI [of _ 0]) (auto simp: cache_ok_def spec)
  next
    case True
    obtain e es where es: "alpha (entries c) = e # es"
      using True less.prems by (cases "alpha (entries c)") (auto simp: account_ok_def spec)
    obtain l where l: "lru_remove lru (entries c) = (Some e, l)" "alpha l = es"
      using spec(7,8) [of "entries c"] es by (cases "lru_remove lru (entries c)") auto
    define c1 where "c1 = c\<lparr>entries := l, cached_bytes := cached_bytes c - length (snd e)\<rparr>"
    have step: "evict lru c = evict lru c1"
      using True l by (cases e) (simp add: evict.simps [of lru c] c1_def)
    have ok: "account_ok alpha c1" using less.prems es l by (simp add: account_ok_def c1_def)
    have "length (alpha (entries c1)) < length (alpha (entries c))" using es l by (simp add: c1_def)
    from less.hyps [OF this ok] obtain c' n where c': "evict lru c1 = Some c'" "cache_ok alpha c'"
        "capacity c' = capacity c1" "max_bytes c' = max_bytes c1" "alpha (entries c') = drop n (alpha (entries c1))"
        "\<forall>es e. alpha (entries c1) = es @ [e] \<longrightarrow> length (snd e) \<le> max_bytes c1 \<longrightarrow> e \<in> set (alpha (entries c'))"
      by blast
    have last: "x \<in> set (alpha (entries c'))"
      if "alpha (entries c) = ys @ [x]" "length (snd x) \<le> max_bytes c" for ys x
    proof -
      have "ys \<noteq> []" using True that less.prems by (auto simp: account_ok_def spec)
      then have "alpha (entries c1) = tl ys @ [x]" using that es l by (cases ys) (auto simp: c1_def)
      moreover have "max_bytes c1 = max_bytes c" by (simp add: c1_def)
      ultimately show ?thesis using c'(6) that(2) by metis
    qed
    have "alpha (entries c') = drop (Suc n) (alpha (entries c))" using c'(5) es l by (simp add: c1_def)
    moreover have "capacity c1 = capacity c" "max_bytes c1 = max_bytes c" by (simp_all add: c1_def)
    ultimately show ?thesis
      using c' step last by (intro exI [of _ c'] exI [of _ "Suc n"]) metis
  qed
qed

lemma cache_insert_ok:
  assumes "lru_spec lru alpha" "cache_ok alpha c"
  obtains c' where "cache_insert lru c k block = Some c'" "cache_ok alpha c'"
    "capacity c' = capacity c" "max_bytes c' = max_bytes c"
    "\<And>j v. map_of (alpha (entries c')) j = Some v \<Longrightarrow>
       (if j = k \<and> length block \<le> max_bytes c then v = block else map_of (alpha (entries c)) j = Some v)"
    "length block \<le> max_bytes c \<Longrightarrow> map_of (alpha (entries c')) k = Some block"
proof (cases "max_bytes c < length block")
  case True
  then show thesis using assms(2) by (intro that [of c]) (auto simp: cache_insert_def)
next
  case False
  let ?es = "alpha (entries c)"
  let ?freed = "case map_of ?es k of None \<Rightarrow> 0 | Some old \<Rightarrow> length old"
  obtain l where l: "lru_insert lru (entries c) k block = (map_of ?es k, l)" "alpha l = touch ?es k block"
    using lru_specD(5,6) [OF assms(1), of "entries c" k block] by (cases "lru_insert lru (entries c) k block") auto
  define c1 where "c1 = c\<lparr>entries := l, cached_bytes := (cached_bytes c - ?freed) + length block\<rparr>"
  have d: "distinct (map fst ?es)" using assms(2) by (simp add: cache_ok_def account_ok_def)
  have ins: "cache_insert lru c k block = evict lru c1"
    using False l by (simp add: cache_insert_def c1_def Let_def)
  have "account_ok alpha c1"
    using assms(2) l held_bytes_filter [OF d, of k]
    by (simp add: cache_ok_def account_ok_def c1_def distinct_touch) (simp add: touch_def)
  from evict_ends [OF assms(1) this] obtain c' n where c': "evict lru c1 = Some c'" "cache_ok alpha c'"
    "capacity c' = capacity c1" "max_bytes c' = max_bytes c1" "alpha (entries c') = drop n (alpha (entries c1))"
    "\<forall>es e. alpha (entries c1) = es @ [e] \<longrightarrow> length (snd e) \<le> max_bytes c1 \<longrightarrow> e \<in> set (alpha (entries c'))"
    by blast
  have mem: "(k, block) \<in> set (alpha (entries c'))"
    using c'(6) [rule_format, of "filter (\<lambda>e. fst e \<noteq> k) ?es" "(k, block)"] False l by (simp add: c1_def touch_def)
  have d': "distinct (map fst (alpha (entries c')))" using c'(2) by (simp add: cache_ok_def account_ok_def)
  have sub: "map_of (touch ?es k block) j = Some v" if "map_of (alpha (entries c')) j = Some v" for j v
  proof -
    have "(j, v) \<in> set (touch ?es k block)"
      using map_of_SomeD [OF that] c'(5) l by (auto simp: c1_def dest: in_set_dropD)
    then show ?thesis using distinct_touch [OF d] by (simp add: map_of_is_SomeI)
  qed
  show thesis
  proof (rule that [of c'])
    show "map_of (alpha (entries c')) k = Some block" using d' mem by (simp add: map_of_is_SomeI)
    show "if j = k \<and> length block \<le> max_bytes c then v = block else map_of ?es j = Some v"
      if "map_of (alpha (entries c')) j = Some v" for j v
      using sub [OF that] False by (auto simp: map_of_touch split: if_splits)
  qed (use c' ins in \<open>simp_all add: c1_def\<close>)
qed

section \<open>Interface: a cache of decoded blocks\<close>

text \<open>
  What the decoder relies on: a lookup changes nothing a later lookup can see and returns a cached
  entry, and after an insertion every entry is either the inserted one or an older one. The client
  fact is that a predicate true of everything that is inserted is true of everything that is found.
\<close>

locale decode_cache =
  fixes inv :: "'c \<Rightarrow> bool"
    and lookup :: "'c \<Rightarrow> block_key \<rightharpoonup> bytes"
    and get :: "'c \<Rightarrow> block_key \<Rightarrow> bytes option \<times> 'c"
    and put :: "'c \<Rightarrow> block_key \<Rightarrow> bytes \<Rightarrow> 'c option"
  assumes get_law: "inv c \<Longrightarrow> get c k = (r, c') \<Longrightarrow> inv c' \<and> r = lookup c k \<and> lookup c' = lookup c"
    and put_returns: "inv c \<Longrightarrow> \<exists>c'. put c k b = Some c'"
    and put_law: "inv c \<Longrightarrow> put c k b = Some c' \<Longrightarrow>
      inv c' \<and> (lookup c' j = Some v \<longrightarrow> (j = k \<and> v = b) \<or> lookup c j = Some v)"
begin

definition all_entries :: "(block_key \<Rightarrow> bytes \<Rightarrow> bool) \<Rightarrow> 'c \<Rightarrow> bool" where
  "all_entries P c \<longleftrightarrow> inv c \<and> (\<forall>k v. lookup c k = Some v \<longrightarrow> P k v)"

lemma get_entries: "all_entries P c \<Longrightarrow> get c k = (r, c') \<Longrightarrow> all_entries P c' \<and> (\<forall>v. r = Some v \<longrightarrow> P k v)"
  using get_law [of c k r c'] unfolding all_entries_def by metis

lemma put_entries: "all_entries P c \<Longrightarrow> P k b \<Longrightarrow> \<exists>c'. put c k b = Some c' \<and> all_entries P c'"
  using put_returns put_law unfolding all_entries_def by metis

end

interpretation lru_cache: decode_cache
  "\<lambda>c. lru_spec lru alpha \<and> cache_ok alpha c" "\<lambda>c. map_of (alpha (entries c))" "cache_get lru" "cache_insert lru"
  for lru :: "'l lru_lib" and alpha :: "'l \<Rightarrow> (block_key \<times> bytes) list"
proof unfold_locales
  fix c :: "'l block_decode_cache" and k b
  assume c: "lru_spec lru alpha \<and> cache_ok alpha c"
  show "(lru_spec lru alpha \<and> cache_ok alpha c') \<and> r = map_of (alpha (entries c)) k \<and>
      map_of (alpha (entries c')) = map_of (alpha (entries c))" if "cache_get lru c k = (r, c')" for r c'
    using cache_get_ok [of lru alpha c k r c'] c that by blast
  obtain c1 where c1: "cache_insert lru c k b = Some c1" "cache_ok alpha c1"
    "\<And>j v. map_of (alpha (entries c1)) j = Some v \<Longrightarrow>
       (if j = k \<and> length b \<le> max_bytes c then v = b else map_of (alpha (entries c)) j = Some v)"
    using cache_insert_ok [of lru alpha c k b] c by metis
  then show "\<exists>c'. cache_insert lru c k b = Some c'" by blast
  show "(lru_spec lru alpha \<and> cache_ok alpha c') \<and>
      (map_of (alpha (entries c')) j = Some v \<longrightarrow> j = k \<and> v = b \<or> map_of (alpha (entries c)) j = Some v)"
    if "cache_insert lru c k b = Some c'" for c' j v
    using c1(1,2) c1(3) [of j v] c that by (auto split: if_splits)
qed

section \<open>Properties\<close>

text \<open>A concrete LRU list for the witnesses.\<close>

definition list_lru :: "(block_key \<times> bytes) list lru_lib" where
  "list_lru = \<lparr>lru_new = [],
     lru_get = (\<lambda>l k. case map_of l k of None \<Rightarrow> (None, l) | Some v \<Rightarrow> (Some v, touch l k v)),
     lru_insert = (\<lambda>l k v. (map_of l k, touch l k v)),
     lru_remove = (\<lambda>l. case l of [] \<Rightarrow> (None, []) | e # es \<Rightarrow> (Some e, es)), lru_len = length\<rparr>"

lemma list_lru_spec: "lru_spec list_lru (\<lambda>l. l)"
  by (auto simp: lru_spec_def list_lru_def split: option.splits list.splits)



end
