(* ===== verification/Blob_Encode.thy ===== *)
theory Blob_Encode
  imports Block_Store Compressibility
begin

text \<open>
  The block encoder of \<^verbatim>\<open>src/storage/compression/encode.rs\<close>: an object is cut into blocks, each block is
  compressed, stored as it is, or shared through the block store, and the blocks follow a header with
  their index. There are two encoders, one in memory and one that writes to a file behind a reserved
  header. The source of the bytes is the list of bytes still to be read; the block store is threaded
  through every operation. \<open>opt_dedup\<close> says whether a block store was given.

  Results: both encoders cut the object into the same blocks, the bytes of the index and of the
  blocks are determined by the list of blocks, and the file encoder writes exactly the bytes the
  in-memory encoder returns.
\<close>

record encode_options =
  opt_dict_id :: u16
  opt_dict :: "bytes option"
  opt_dedup :: bool

fun bit_length :: "nat \<Rightarrow> nat" where
  "bit_length n = (if n = 0 then 0 else 1 + bit_length (n div 2))"

declare bit_length.simps [simp del]

definition adaptive_window_log :: "nat \<Rightarrow> nat" where
  "adaptive_window_log lsize = max 10 (min 27 (bit_length (max lsize 1)))"

definition tune_block_compressor :: "nat \<Rightarrow> int \<Rightarrow> bytes \<Rightarrow> zstd_params" where
  "tune_block_compressor chunk_len level dict =
     \<lparr>zp_level = level, zp_dict = dict,
      zp_window_log = (if 4096 \<le> chunk_len then Some (adaptive_window_log chunk_len) else None),
      zp_ldm = (131072 \<le> chunk_len \<and> 10 \<le> clamp_zstd_level level)\<rparr>"

definition compress_block :: "codec_lib \<Rightarrow> bytes \<Rightarrow> int \<Rightarrow> bytes option \<Rightarrow> (u8 \<times> bytes) result" where
  "compress_block lib chunk level dict =
     (let level = clamp_zstd_level level;
          d = (case dict of None \<Rightarrow> [] | Some d \<Rightarrow> d) in
      and_then (ok_or (zstd_compress lib (tune_block_compressor (length chunk) level d) chunk)
                 (Internal ''zstd compress'')) (\<lambda>compressed.
      if length compressed < length chunk then Ok (BLOCK_COMPRESSED, compressed)
      else Ok (BLOCK_STORED, chunk)))"

definition encode_logical_block ::
    "codec_lib \<Rightarrow> int \<Rightarrow> block_store \<Rightarrow> bytes \<Rightarrow> int \<Rightarrow> bytes option \<Rightarrow> bool \<Rightarrow>
     (u8 \<times> bytes \<times> u64) result \<times> block_store" where
  "encode_logical_block lib now st chunk level dict dedup =
     (let checksum = xxh3_64 lib chunk;
          local = (\<lambda>s. (and_then (compress_block lib chunk level dict) (\<lambda>(btype, payload).
                        Ok (btype, payload, checksum)), s)) in
      if dedup then
        (case store_block lib now level st chunk of
           (Some h, st') \<Rightarrow>
             (Ok (BLOCK_DEDUP_REF, to_le_bytes h @ to_le_bytes (of_nat (length chunk) :: u32), h), st')
         | (None, st') \<Rightarrow> local st')
      else local st)"

definition append_block_v1 :: "bytes \<Rightarrow> u8 \<Rightarrow> bytes \<Rightarrow> u64 \<Rightarrow> bytes" where
  "append_block_v1 staging btype payload checksum =
     write_block_header_v1 staging btype (of_nat (length payload)) checksum @ payload"

text \<open>The loop of \<^verbatim>\<open>encode_blocks_from_reader\<close>: it fills a buffer of the block size and encodes it.\<close>

function encode_blocks_loop ::
    "codec_lib \<Rightarrow> int \<Rightarrow> encode_options \<Rightarrow> int \<Rightarrow> nat \<Rightarrow> u64 \<Rightarrow> bytes \<Rightarrow> block_store \<Rightarrow>
     index_entry list \<Rightarrow> bytes \<Rightarrow> u64 \<Rightarrow> (index_entry list \<times> bytes \<times> u64) result \<times> block_store" where
  "encode_blocks_loop lib now opts level bsize lsize source st idx staging lend =
     (let chunk = take bsize source in
      if chunk = [] then (Ok (idx, staging, lend), st)
      else
        (case encode_logical_block lib now st chunk level (opt_dict opts) (opt_dedup opts) of
           (Ok (btype, payload, checksum), st') \<Rightarrow>
             let staging' = append_block_v1 staging btype payload checksum;
                 lend' = lend + of_nat (length chunk);
                 idx' = idx @ [\<lparr>compressed_offset = of_nat (length staging), logical_end = lend'\<rparr>] in
             if lsize \<le> lend' then (Ok (idx', staging', lend'), st')
             else encode_blocks_loop lib now opts level bsize lsize (drop bsize source) st' idx' staging' lend'
         | (Err e, st') \<Rightarrow> (Err e, st')
         | (Panic, st') \<Rightarrow> (Panic, st')))"
  by pat_completeness auto
termination
  by (relation "measure (\<lambda>(lib, now, opts, level, bsize, lsize, source, st, idx, staging, lend). length source)")
     (auto simp: Let_def)

declare encode_blocks_loop.simps [simp del]

definition dedup_flags :: "encode_options \<Rightarrow> u16" where
  "dedup_flags opts = (if opt_dedup opts then NOSI_FLAG_DEDUP else 0)"

definition encode_blocks_from_reader ::
    "codec_lib \<Rightarrow> int \<Rightarrow> bytes \<Rightarrow> u64 \<Rightarrow> nat \<Rightarrow> int \<Rightarrow> encode_options \<Rightarrow> block_store \<Rightarrow>
     (index_entry list \<times> bytes \<times> u16) result \<times> block_store" where
  "encode_blocks_from_reader lib now source lsize bsize level opts st =
     (case encode_blocks_loop lib now opts level bsize lsize source st [] [] 0 of
        (Ok (idx, staging, lend), st') \<Rightarrow>
          (if lend \<noteq> lsize then Err (Internal ''block encoder size mismatch'')
           else Ok (idx, staging, dedup_flags opts), st')
      | (Err e, st') \<Rightarrow> (Err e, st')
      | (Panic, st') \<Rightarrow> (Panic, st'))"

text \<open>
  The loop of \<^verbatim>\<open>encode_blocks_to_file\<close>: \<open>out\<close> is what the writer has received behind the reserved header,
  \<open>data_len\<close> its length as the code counts it.
\<close>

function encode_file_loop ::
    "codec_lib \<Rightarrow> int \<Rightarrow> encode_options \<Rightarrow> int \<Rightarrow> nat \<Rightarrow> u64 \<Rightarrow> bytes \<Rightarrow> block_store \<Rightarrow>
     index_entry list \<Rightarrow> (u64 \<times> u32) list \<Rightarrow> bytes \<Rightarrow> u64 \<Rightarrow> u64 \<Rightarrow>
     (index_entry list \<times> (u64 \<times> u32) list \<times> bytes \<times> u64 \<times> u64) result \<times> block_store" where
  "encode_file_loop lib now opts level bsize lsize source st idx refs out data_len lend =
     (if lend < lsize then
        let chunk = take bsize source in
        if chunk = [] then (Ok (idx, refs, out, data_len, lend), st)
        else
          (case encode_logical_block lib now st chunk level (opt_dict opts) (opt_dedup opts) of
             (Ok (btype, payload, checksum), st') \<Rightarrow>
               let refs' = (if btype = BLOCK_DEDUP_REF then refs @ [(checksum, of_nat (length chunk))] else refs);
                   idx' = idx @ [\<lparr>compressed_offset = data_len, logical_end = lend + of_nat (length chunk)\<rparr>];
                   block_header = write_block_header_v1 [] btype (of_nat (length payload)) checksum;
                   out' = out @ block_header @ payload;
                   data_len' = data_len + of_nat (length block_header + length payload);
                   lend' = lend + of_nat (length chunk) in
               encode_file_loop lib now opts level bsize lsize (drop bsize source) st' idx' refs' out' data_len' lend'
           | (Err e, st') \<Rightarrow> (Err e, st')
           | (Panic, st') \<Rightarrow> (Panic, st'))
      else (Ok (idx, refs, out, data_len, lend), st))"
  by pat_completeness auto
termination
  by (relation "measure (\<lambda>(lib, now, opts, level, bsize, lsize, source, st, idx, refs, out, data_len, lend). length source)")
     (auto simp: Let_def)

declare encode_file_loop.simps [simp del]

text \<open>
  Writing a file at an offset: what lies before the offset and was never written reads as zeros.
\<close>

definition write_at :: "nat \<Rightarrow> bytes \<Rightarrow> bytes \<Rightarrow> bytes" where
  "write_at pos data file =
     take pos (file @ replicate (pos - length file) 0) @ data @ drop (pos + length data) file"

text \<open>Result: the length of the file, the references, and the content of the file.\<close>

definition encode_blocks_to_file ::
    "codec_lib \<Rightarrow> int \<Rightarrow> bytes \<Rightarrow> u64 \<Rightarrow> nat \<Rightarrow> int \<Rightarrow> encode_options \<Rightarrow> block_store \<Rightarrow>
     (u64 \<times> (u64 \<times> u32) list \<times> bytes) result \<times> block_store" where
  "encode_blocks_to_file lib now source lsize bsize level opts st =
     (if bsize = 0 then (Panic, st)
      else
        let count = (unat lsize + (bsize - 1)) div bsize;
            hlen = FIXED_HEADER_LEN_V1_LEVEL + count * INDEX_ENTRY_LEN in
        case encode_file_loop lib now opts level bsize lsize source st [] [] [] 0 0 of
          (Ok (idx, refs, out, data_len, lend), st') \<Rightarrow>
            (if lend \<noteq> lsize \<or> length idx \<noteq> count then Err (Internal ''block encoder size mismatch'')
             else
               let file1 = write_at hlen out [];
                   header = write_blob_header_v1 lsize (of_nat bsize) idx (opt_dict_id opts) (dedup_flags opts)
                              (word_of_int (clamp_zstd_level level)) in
               Ok (of_nat hlen + data_len, refs, write_at 0 header file1), st')
        | (Err e, st') \<Rightarrow> (Err e, st')
        | (Panic, st') \<Rightarrow> (Panic, st'))"

definition raw_would_be_misread :: "bytes \<Rightarrow> bool" where
  "raw_would_be_misread head \<longleftrightarrow> detect_blob_format (take FIXED_HEADER_LEN_V1 head) \<noteq> Raw"

definition encode_blob_for_storage ::
    "codec_lib \<Rightarrow> int \<Rightarrow> bytes \<Rightarrow> int \<Rightarrow> nat \<Rightarrow> compression_context \<Rightarrow> encode_options \<Rightarrow> block_store \<Rightarrow>
     bytes result \<times> block_store" where
  "encode_blob_for_storage lib now uncompressed level bsize ctx opts st =
     (let must_wrap = raw_would_be_misread uncompressed in
      if \<not> must_wrap \<and> \<not> should_attempt_compression ctx then (Ok uncompressed, st)
      else if \<not> must_wrap \<and> \<not> opt_dedup opts \<and> prefix_looks_incompressible (take 16 uncompressed)
      then (Ok uncompressed, st)
      else
        let lsize = of_nat (length uncompressed) in
        case encode_blocks_from_reader lib now uncompressed lsize bsize level opts st of
          (Ok (idx, staging, fl), st') \<Rightarrow>
            (let total_len = FIXED_HEADER_LEN_V1_LEVEL + length idx * INDEX_ENTRY_LEN + length staging in
             if \<not> must_wrap \<and> \<not> opt_dedup opts \<and> length uncompressed \<le> total_len then Ok uncompressed
             else Ok (write_blob_header_v1 lsize (of_nat bsize) idx (opt_dict_id opts) fl
                        (word_of_int (clamp_zstd_level level)) @ staging), st')
        | (Err e, st') \<Rightarrow> (Err e, st')
        | (Panic, st') \<Rightarrow> (Panic, st'))"

datatype file_encoding = Raw_file | Indexed "(u64 \<times> u32) list"

text \<open>
  \<open>out\<close> is the content of the file at the output path, if there is one; the result is how the upload is
  kept and that file afterwards. The part file is gone in every case.
\<close>

definition encode_file_for_storage ::
    "codec_lib \<Rightarrow> int \<Rightarrow> bytes \<Rightarrow> bytes option \<Rightarrow> u64 \<Rightarrow> int \<Rightarrow> nat \<Rightarrow> compression_context \<Rightarrow> encode_options \<Rightarrow>
     block_store \<Rightarrow> (file_encoding \<times> bytes option) result \<times> block_store" where
  "encode_file_for_storage lib now src out lsize level bsize ctx opts st =
     (let head = take FIXED_HEADER_LEN_V1 src;
          must_wrap = raw_would_be_misread head in
      if \<not> must_wrap \<and> \<not> should_attempt_compression ctx then (Ok (Raw_file, out), st)
      else if \<not> must_wrap \<and> \<not> opt_dedup opts \<and> prefix_looks_incompressible (take 16 head)
      then (Ok (Raw_file, out), st)
      else
        case encode_blocks_to_file lib now src lsize (max bsize 4096) level opts st of
          (Ok (total_len, refs, part), st') \<Rightarrow>
            (if \<not> must_wrap \<and> \<not> opt_dedup opts \<and> lsize \<le> total_len then Ok (Raw_file, out)
             else Ok (Indexed refs, Some part), st')
        | (Err e, st') \<Rightarrow> (Err e, st')
        | (Panic, st') \<Rightarrow> (Panic, st'))"

text \<open>\<^verbatim>\<open>compress_file_to_storage\<close>: the references and the file at the final path.\<close>

definition compress_file_to_storage ::
    "codec_lib \<Rightarrow> int \<Rightarrow> bytes \<Rightarrow> bytes option \<Rightarrow> u64 \<Rightarrow> int \<Rightarrow> nat \<Rightarrow> compression_context \<Rightarrow> encode_options \<Rightarrow>
     block_store \<Rightarrow> ((u64 \<times> u32) list \<times> bytes option) result \<times> block_store" where
  "compress_file_to_storage lib now tmp final lsize level bsize ctx opts st =
     (case encode_file_for_storage lib now tmp final lsize level bsize ctx opts st of
        (enc, st') \<Rightarrow>
          (and_then enc (\<lambda>(encoding, out).
             case encoding of Raw_file \<Rightarrow> Ok ([], Some tmp) | Indexed refs \<Rightarrow> Ok (refs, out)), st'))"

section \<open>The encoder as a map over blocks\<close>

text \<open>
  The reference: every chunk is encoded in turn, the first failure ends it. \<open>block_bytes\<close> is what a
  block contributes to the blob, and \<open>index_of\<close> the index of blocks that start at offset \<open>off\<close> and at
  logical position \<open>lend\<close>.
\<close>

type_synonym enc_block = "u8 \<times> bytes \<times> u64"

definition block_bytes :: "enc_block \<Rightarrow> bytes" where
  "block_bytes b = (case b of (btype, payload, checksum) \<Rightarrow> append_block_v1 [] btype payload checksum)"

primrec index_of :: "nat \<Rightarrow> nat \<Rightarrow> (enc_block \<times> nat) list \<Rightarrow> index_entry list" where
  "index_of off lend [] = []"
| "index_of off lend (x # xs) =
     \<lparr>compressed_offset = of_nat off, logical_end = of_nat (lend + snd x)\<rparr> #
     index_of (off + length (block_bytes (fst x))) (lend + snd x) xs"

primrec encode_chunks ::
    "codec_lib \<Rightarrow> int \<Rightarrow> encode_options \<Rightarrow> int \<Rightarrow> bytes list \<Rightarrow> block_store \<Rightarrow> enc_block list result \<times> block_store" where
  "encode_chunks lib now opts level [] st = (Ok [], st)"
| "encode_chunks lib now opts level (c # cs) st =
     (case encode_logical_block lib now st c level (opt_dict opts) (opt_dedup opts) of
        (Ok b, st') \<Rightarrow>
          (case encode_chunks lib now opts level cs st' of (r, st'') \<Rightarrow> (and_then r (\<lambda>bs. Ok (b # bs)), st''))
      | (Err e, st') \<Rightarrow> (Err e, st')
      | (Panic, st') \<Rightarrow> (Panic, st'))"

definition block_refs :: "(enc_block \<times> nat) list \<Rightarrow> (u64 \<times> u32) list" where
  "block_refs xs = map (\<lambda>((btype, payload, checksum), n). (checksum, of_nat n)) (filter (\<lambda>x. fst (fst x) = BLOCK_DEDUP_REF) xs)"

lemma encode_chunks_length: "encode_chunks lib now opts level cs st = (Ok bs, st') \<Longrightarrow> length bs = length cs"
  by (induction cs arbitrary: st bs st') (auto simp: result_simps split: prod.splits result.splits)

lemma length_write_block_header [simp]: "length (write_block_header_v1 w t n c) = length w + 16"
  by (simp add: write_block_header_v1_def)

lemma length_block_bytes: "length (block_bytes (t, p, c)) = 16 + length p"
  by (simp add: block_bytes_def append_block_v1_def)

lemma append_block_bytes: "append_block_v1 w t p c = w @ block_bytes (t, p, c)"
  by (simp add: block_bytes_def append_block_v1_def write_block_header_v1_def)

lemma of_nat_le_iff64: "a < 2 ^ 64 \<Longrightarrow> b < 2 ^ 64 \<Longrightarrow> (of_nat a :: u64) \<le> of_nat b \<longleftrightarrow> a \<le> b"
  by (simp add: word_le_nat_alt unat_of_nat)

lemma of_nat_less_iff64: "a < 2 ^ 64 \<Longrightarrow> b < 2 ^ 64 \<Longrightarrow> (of_nat a :: u64) < of_nat b \<longleftrightarrow> a < b"
  by (simp add: word_less_nat_alt unat_of_nat)

lemma chunks_step:
  assumes "take n xs \<noteq> []"
  shows "chunks n xs = take n xs # chunks n (drop n xs)"
    "length (take n xs) + length (drop n xs) = length xs"
  using assms by (simp_all add: chunks.simps [of n xs])

lemma encode_blocks_loop_step:
  assumes "take bsize source = c" "c \<noteq> []"
    "encode_logical_block lib now st c level (opt_dict opts) (opt_dedup opts) = (Ok b, st1)"
  shows "encode_blocks_loop lib now opts level bsize lsize source st idx staging lend =
    (let lend' = lend + of_nat (length c);
         idx' = idx @ [\<lparr>compressed_offset = of_nat (length staging), logical_end = lend'\<rparr>] in
     if lsize \<le> lend' then (Ok (idx', staging @ block_bytes b, lend'), st1)
     else encode_blocks_loop lib now opts level bsize lsize (drop bsize source) st1 idx' (staging @ block_bytes b) lend')"
  using assms(2,3)
  by (cases b) (simp add: encode_blocks_loop.simps [of lib now opts level bsize lsize source] assms(1) append_block_bytes Let_def)

lemma encode_file_loop_step:
  assumes "take bsize source = c" "c \<noteq> []" "lend < lsize"
    "encode_logical_block lib now st c level (opt_dict opts) (opt_dedup opts) = (Ok b, st1)"
  shows "encode_file_loop lib now opts level bsize lsize source st idx refs out data_len lend =
     encode_file_loop lib now opts level bsize lsize (drop bsize source) st1
       (idx @ [\<lparr>compressed_offset = data_len, logical_end = lend + of_nat (length c)\<rparr>])
       (refs @ block_refs [(b, length c)]) (out @ block_bytes b) (data_len + of_nat (length (block_bytes b)))
       (lend + of_nat (length c))"
  using assms(2,3,4)
  by (cases b) (simp add: encode_file_loop.simps [of lib now opts level bsize lsize source] assms(1) block_refs_def
    block_bytes_def append_block_v1_def Let_def)

lemma encode_blocks_loop_eq:
  assumes "0 < bsize" "lend + length source < 2 ^ 64"
  shows "encode_blocks_loop lib now opts level bsize (of_nat (lend + length source)) source st idx staging (of_nat lend) =
    (case encode_chunks lib now opts level (chunks bsize source) st of
       (r, st') \<Rightarrow>
         (and_then r (\<lambda>bs. Ok (idx @ index_of (length staging) lend (zip bs (map length (chunks bsize source))),
            staging @ concat (map block_bytes bs), of_nat (lend + length source))), st'))"
  using assms(2)
proof (induction "length source" arbitrary: source st idx staging lend rule: less_induct)
  case less
  show ?case
  proof (cases "take bsize source = []")
    case True
    then have "source = []" using assms(1) by simp
    then show ?thesis by (simp add: encode_blocks_loop.simps)
  next
    case False
    define c where "c = take bsize source"
    define rest where "rest = drop bsize source"
    have c: "c \<noteq> []" using False by (simp add: c_def)
    have cs: "chunks bsize source = c # chunks bsize rest" using chunks_step(1) [OF False] by (simp add: c_def rest_def)
    have len: "length source = length c + length rest" using chunks_step(2) [OF False] by (simp add: c_def rest_def)
    have total: "lend + length source = lend + length c + length rest" using len by simp
    have le: "of_nat (lend + length c + length rest) \<le> (of_nat (lend + length c) :: u64) \<longleftrightarrow> rest = []"
      using less.prems total by (subst of_nat_le_iff64) auto
    obtain r st1 where enc: "encode_logical_block lib now st c level (opt_dict opts) (opt_dedup opts) = (r, st1)"
      by (cases "encode_logical_block lib now st c level (opt_dict opts) (opt_dedup opts)")
    show ?thesis
    proof (cases r)
      case (Ok b)
      note step = encode_blocks_loop_step [OF c_def [symmetric] c enc [unfolded Ok], folded rest_def]
      obtain r2 st2 where r2: "encode_chunks lib now opts level (chunks bsize rest) st1 = (r2, st2)"
        by (cases "encode_chunks lib now opts level (chunks bsize rest) st1")
      show ?thesis
      proof (cases "rest = []")
        case True
        with cs total r2 enc Ok show ?thesis
          unfolding total step Let_def of_nat_add [symmetric] le by auto
      next
        case False
        have short: "length rest < length source" "lend + length c + length rest < 2 ^ 64"
          using len c less.prems by auto
        note IH = less.hyps [OF short, of st1 _ "staging @ block_bytes b"]
        show ?thesis
          unfolding total step Let_def of_nat_add [symmetric] le
          unfolding IH r2 cs using False enc Ok r2 by (cases r2) simp_all
      qed
    qed (use enc cs c in \<open>simp_all add: encode_blocks_loop.simps [of lib now opts level bsize _ source] c_def\<close>)
  qed
qed

lemma encode_file_loop_eq:
  assumes "0 < bsize" "lend + length source < 2 ^ 64"
  shows "encode_file_loop lib now opts level bsize (of_nat (lend + length source)) source st idx refs out
      (of_nat (length out)) (of_nat lend) =
    (case encode_chunks lib now opts level (chunks bsize source) st of
       (r, st') \<Rightarrow>
         (and_then r (\<lambda>bs.
            Ok (idx @ index_of (length out) lend (zip bs (map length (chunks bsize source))),
                refs @ block_refs (zip bs (map length (chunks bsize source))), out @ concat (map block_bytes bs),
                of_nat (length (out @ concat (map block_bytes bs))), of_nat (lend + length source))), st'))"
  using assms(2)
proof (induction "length source" arbitrary: source st idx refs out lend rule: less_induct)
  case less
  show ?case
  proof (cases "take bsize source = []")
    case True
    then have "source = []" using assms(1) by simp
    then show ?thesis by (simp add: encode_file_loop.simps block_refs_def)
  next
    case False
    define c where "c = take bsize source"
    define rest where "rest = drop bsize source"
    have c: "c \<noteq> []" using False by (simp add: c_def)
    have cs: "chunks bsize source = c # chunks bsize rest" using chunks_step(1) [OF False] by (simp add: c_def rest_def)
    have len: "length source = length c + length rest" using chunks_step(2) [OF False] by (simp add: c_def rest_def)
    have total: "lend + length source = lend + length c + length rest" using len by simp
    have less': "(of_nat lend :: u64) < of_nat (lend + length c + length rest)"
      using less.prems total c by (subst of_nat_less_iff64) auto
    obtain r st1 where enc: "encode_logical_block lib now st c level (opt_dict opts) (opt_dedup opts) = (r, st1)"
      by (cases "encode_logical_block lib now st c level (opt_dict opts) (opt_dedup opts)")
    show ?thesis
    proof (cases r)
      case (Ok b)
      note step = encode_file_loop_step [OF c_def [symmetric] c less' enc [unfolded Ok], folded rest_def]
      obtain r2 st2 where r2: "encode_chunks lib now opts level (chunks bsize rest) st1 = (r2, st2)"
        by (cases "encode_chunks lib now opts level (chunks bsize rest) st1")
      have short: "length rest < length source" "lend + length c + length rest < 2 ^ 64"
        using len c less.prems by auto
      note IH = less.hyps [OF short, of st1 _ _ "out @ block_bytes b"]
      have hd: "block_refs ((b, n) # xs) = block_refs [(b, n)] @ block_refs xs" for n xs
        by (simp add: block_refs_def)
      show ?thesis
        unfolding total step of_nat_add [symmetric] length_append [symmetric]
        unfolding IH r2 cs using enc Ok r2 by (cases r2) (simp_all add: hd [of _ "zip _ _"])
    qed (use enc cs c less' [folded total] in
      \<open>simp_all add: encode_file_loop.simps [of lib now opts level bsize _ source] c_def del: of_nat_add\<close>)
  qed
qed

section \<open>Index and size of the encoding\<close>

lemma length_index_of [simp]: "length (index_of off lend xs) = length xs"
  by (induction xs arbitrary: off lend) auto

lemma nth_index_of:
  "i < length xs \<Longrightarrow> index_of off lend xs ! i =
     \<lparr>compressed_offset = of_nat (off + length (concat (map (\<lambda>x. block_bytes (fst x)) (take i xs)))),
      logical_end = of_nat (lend + sum_list (map snd (take (Suc i) xs)))\<rparr>"
proof (induction xs arbitrary: off lend i)
  case (Cons x xs)
  then show ?case by (cases i) (simp_all add: add.assoc)
qed simp

lemma validate_index_of:
  assumes "\<forall>x \<in> set xs. 0 < snd x" "lend + sum_list (map snd xs) \<le> lsize" "lsize < 2 ^ 64" "pc \<le> off"
    "off + length (concat (map (\<lambda>x. block_bytes (fst x)) xs)) < 2 ^ 64"
  shows "validate_entries (index_of off lend xs) (of_nat lsize) (of_nat lend) (of_nat pc) = Ok ()"
  using assms
proof (induction xs arbitrary: off lend pc)
  case (Cons x xs)
  have "lend < lend + snd x" "lend + snd x \<le> lsize" using Cons.prems by auto
  then have "\<not> (of_nat (lend + snd x) :: u64) \<le> of_nat lend" "\<not> (of_nat lsize :: u64) < of_nat (lend + snd x)"
    using Cons.prems(3) by (simp_all only: of_nat_le_iff64 of_nat_less_iff64)
  moreover have "\<not> (of_nat off :: u64) < of_nat pc"
    using Cons.prems(4,5) by (subst of_nat_less_iff64) auto
  moreover have "validate_entries (index_of (off + length (block_bytes (fst x))) (lend + snd x) xs) (of_nat lsize)
      (of_nat (lend + snd x)) (of_nat off) = Ok ()"
    using Cons.prems by (intro Cons.IH) auto
  ultimately show ?case by (simp del: of_nat_add)
qed simp

lemma wf_index_of:
  assumes "\<forall>x \<in> set xs. 0 < snd x" "sum_list (map snd xs) < 2 ^ 64"
    "length (concat (map (\<lambda>x. block_bytes (fst x)) xs)) < 2 ^ 64"
  shows "wf_index (index_of 0 0 xs) (of_nat (sum_list (map snd xs)))"
proof -
  have "logical_end (last (index_of 0 0 xs)) = of_nat (sum_list (map snd xs))" if "xs \<noteq> []"
  proof -
    have "index_of 0 0 xs \<noteq> []" using that by (cases xs) auto
    then show ?thesis using that by (simp add: last_conv_nth nth_index_of)
  qed
  moreover have "index_of 0 0 xs = [] \<longleftrightarrow> xs = []" by (cases xs) auto
  ultimately show ?thesis
    using validate_index_of [of xs 0 "sum_list (map snd xs)" 0 0] assms by (auto simp: wf_index_def validate_index_def)
qed

lemma encode_logical_block_length:
  "encode_logical_block lib now st chunk level dict dedup = (Ok (t, p, s), st') \<Longrightarrow> length p \<le> max (length chunk) 12"
  by (auto simp: encode_logical_block_def compress_block_def Let_def result_simps split: if_splits option.splits prod.splits)

lemma encode_chunks_size:
  assumes "encode_chunks lib now opts level cs st = (Ok bs, st')" "\<forall>c \<in> set cs. c \<noteq> []"
  shows "length (concat (map block_bytes bs)) \<le> 28 * length (concat cs)"
  using assms
proof (induction cs arbitrary: st bs)
  case (Cons c cs)
  then obtain t p s st1 bs1 where e: "encode_logical_block lib now st c level (opt_dict opts) (opt_dedup opts) = (Ok (t, p, s), st1)"
      "encode_chunks lib now opts level cs st1 = (Ok bs1, st')" "bs = (t, p, s) # bs1"
    by (auto simp: result_simps split: prod.splits result.splits)
  have "0 < length c" using Cons.prems(2) by simp
  moreover have "length p \<le> max (length c) 12" using encode_logical_block_length [OF e(1)] .
  ultimately have "length (block_bytes (t, p, s)) \<le> 28 * length c" unfolding length_block_bytes by linarith
  moreover have "length (concat (map block_bytes bs1)) \<le> 28 * length (concat cs)"
    using Cons.IH [OF e(2)] Cons.prems(2) by simp
  ultimately show ?case using e(3) by simp
qed simp

lemma length_chunks_eq: "0 < n \<Longrightarrow> length (chunks n xs) = (length xs + (n - 1)) div n"
proof (induction "length xs" arbitrary: xs rule: less_induct)
  case less
  show ?case
  proof (cases "xs = []")
    case False
    then have ne: "take n xs \<noteq> []" using less.prems by simp
    have IH: "length (chunks n (drop n xs)) = (length (drop n xs) + (n - 1)) div n"
      using less False by (intro less.hyps) auto
    show ?thesis
    proof (cases "length xs \<le> n")
      case True
      obtain k where k: "length xs = Suc k" using False by (cases xs) auto
      then have "length xs + (n - 1) = k + n" using less.prems by simp
      then have "(length xs + (n - 1)) div n = k div n + 1" using less.prems by (simp add: div_add_self2)
      then have "(length xs + (n - 1)) div n = 1" using k True by simp
      with True chunks_step(1) [OF ne] show ?thesis by simp
    next
      case gt: False
      have "(length xs + (n - 1)) div n = (length xs - n + (n - 1)) div n + 1"
        using gt less.prems by (subst div_add_self2 [symmetric]) auto
      with chunks_step(1) [OF ne] IH show ?thesis by simp
    qed
  qed (use less.prems in simp)
qed

lemma map_fst_zip_blocks:
  "length bs = length ns \<Longrightarrow> concat (map (\<lambda>x. block_bytes (fst x)) (zip bs ns)) = concat (map block_bytes bs)"
  by (induction bs ns rule: list_induct2) auto

section \<open>The two encoders\<close>

lemma encode_blocks_from_reader_eq:
  assumes "0 < bsize" "length content < 2 ^ 64"
  shows "encode_blocks_from_reader lib now content (of_nat (length content)) bsize level opts st =
    (case encode_chunks lib now opts level (chunks bsize content) st of
       (r, st') \<Rightarrow>
         (and_then r (\<lambda>bs. Ok (index_of 0 0 (zip bs (map length (chunks bsize content))),
            concat (map block_bytes bs), dedup_flags opts)), st'))"
proof -
  obtain r st' where enc: "encode_chunks lib now opts level (chunks bsize content) st = (r, st')"
    by (cases "encode_chunks lib now opts level (chunks bsize content) st")
  show ?thesis
    using encode_blocks_loop_eq [of bsize 0 content lib now opts level st "[]" "[]"] assms enc
    by (cases r) (simp_all add: encode_blocks_from_reader_def)
qed

lemma length_header_v1: "length (write_blob_header_v1 lsize bsize idx did fl level) = 25 + length idx * 16"
  by (simp add: write_blob_header_v1_def)

lemma write_at_header: "length header = n \<Longrightarrow> write_at 0 header (write_at n out []) = header @ out"
  by (simp add: write_at_def)

lemma encode_blocks_to_file_eq:
  assumes "0 < bsize" "length content < 2 ^ 48"
  shows "encode_blocks_to_file lib now content (of_nat (length content)) bsize level opts st =
    (case encode_chunks lib now opts level (chunks bsize content) st of
       (r, st') \<Rightarrow>
         (and_then r (\<lambda>bs.
            let blocks = zip bs (map length (chunks bsize content)); out = concat (map block_bytes bs) in
            Ok (of_nat (25 + length bs * 16 + length out), block_refs blocks,
                write_blob_header_v1 (of_nat (length content)) (of_nat bsize) (index_of 0 0 blocks) (opt_dict_id opts)
                  (dedup_flags opts) (word_of_int (clamp_zstd_level level)) @ out)), st'))"
proof -
  have u: "unat (of_nat (length content) :: u64) = length content" using assms(2) by (simp add: unat_of_nat)
  obtain r st' where enc: "encode_chunks lib now opts level (chunks bsize content) st = (r, st')"
    by (cases "encode_chunks lib now opts level (chunks bsize content) st")
  have loop: "encode_file_loop lib now opts level bsize (of_nat (length content)) content st [] [] [] 0 0 =
    (and_then r (\<lambda>bs. Ok (index_of 0 0 (zip bs (map length (chunks bsize content))),
        block_refs (zip bs (map length (chunks bsize content))), concat (map block_bytes bs),
        of_nat (length (concat (map block_bytes bs))), of_nat (length content))), st')"
    using encode_file_loop_eq [of bsize 0 content lib now opts level st "[]" "[]" "[]"] assms enc by simp
  have count: "(length content + (bsize - 1)) div bsize = length (chunks bsize content)"
    using length_chunks_eq [OF assms(1), of content] by simp
  show ?thesis
  proof (cases r)
    case (Ok bs)
    have n: "length bs = length (chunks bsize content)" using encode_chunks_length enc Ok by simp
    let ?h = "write_blob_header_v1 (of_nat (length content)) (of_nat bsize)
      (index_of 0 0 (zip bs (map length (chunks bsize content)))) (opt_dict_id opts)
      (dedup_flags opts) (word_of_int (clamp_zstd_level level))"
    have "length ?h = 25 + length (chunks bsize content) * 16" using n by (simp add: length_header_v1)
    from write_at_header [OF this] show ?thesis
      using assms(1) n Ok unfolding encode_blocks_to_file_def loop enc u count by (simp add: Let_def)
  qed (use assms(1) in \<open>simp_all add: encode_blocks_to_file_def loop enc\<close>)
qed

lemma length_le_concat: "(\<And>c. c \<in> set cs \<Longrightarrow> c \<noteq> []) \<Longrightarrow> length cs \<le> length (concat cs)"
proof (induction cs)
  case (Cons c cs)
  have "0 < length c" using Cons.prems [of c] by simp
  moreover have "length cs \<le> length (concat cs)" using Cons.prems by (intro Cons.IH) simp
  ultimately show ?case by (cases c) auto
qed simp

text \<open>What an encoding of an object of less than \<open>2 ^ 48\<close> bytes measures.\<close>

lemma encoding_small:
  assumes "0 < bsize" "length content < 2 ^ 48"
    "encode_chunks lib now opts level (chunks bsize content) st = (Ok bs, st')"
  shows "length (concat (map block_bytes bs)) < 2 ^ 53" "length bs \<le> length content"
    "25 + length bs * 16 + length (concat (map block_bytes bs)) < 2 ^ 64"
proof -
  have "length (concat (map block_bytes bs)) \<le> 28 * length content"
    using encode_chunks_size [OF assms(3)] chunks_bounds concat_chunks [OF assms(1), of content] by metis
  then show size: "length (concat (map block_bytes bs)) < 2 ^ 53" using assms(2) by simp
  have "length (chunks bsize content) \<le> length (concat (chunks bsize content))"
    by (rule length_le_concat) (use chunks_bounds in blast)
  then show bs: "length bs \<le> length content"
    using encode_chunks_length [OF assms(3)] concat_chunks [OF assms(1), of content] by simp
  show "25 + length bs * 16 + length (concat (map block_bytes bs)) < 2 ^ 64"
    using size bs assms(2) by simp
qed

section \<open>Properties\<close>

text \<open>
  C17: The streaming file encoder writes what the in-memory encoder returns. For the same object,
  options and block store, \<^verbatim>\<open>compress_file_to_storage\<close> leaves at the final path exactly the bytes of
  \<^verbatim>\<open>encode_blob_for_storage\<close>, raw or indexed, fails with the same error, and leaves the same blocks in
  the block store.
\<close>

theorem file_encoder_agrees:
  assumes "4096 \<le> bsize" "length src < 2 ^ 48"
  shows "and_then (fst (compress_file_to_storage lib now src final (of_nat (length src)) level bsize ctx opts st))
      (\<lambda>(refs, out). Ok out) =
    and_then (fst (encode_blob_for_storage lib now src level bsize ctx opts st)) (\<lambda>blob. Ok (Some blob)) \<and>
    snd (compress_file_to_storage lib now src final (of_nat (length src)) level bsize ctx opts st) =
    snd (encode_blob_for_storage lib now src level bsize ctx opts st)"
proof -
  have b: "max bsize 4096 = bsize" "0 < bsize" using assms(1) by simp_all
  have head: "raw_would_be_misread (take 24 src) = raw_would_be_misread src" "take 16 (take 24 src) = take 16 src"
    by (simp_all add: raw_would_be_misread_def)
  obtain r st' where enc: "encode_chunks lib now opts level (chunks bsize src) st = (r, st')"
    by (cases "encode_chunks lib now opts level (chunks bsize src) st")
  note reader = encode_blocks_from_reader_eq [OF b(2), of src lib now level opts st]
  note to_file = encode_blocks_to_file_eq [OF b(2) assms(2), of lib now level opts st]
  have total: "of_nat (length src) \<le> (of_nat (25 + length bs * 16 + length (concat (map block_bytes bs))) :: u64) \<longleftrightarrow>
      length src \<le> 25 + length bs * 16 + length (concat (map block_bytes bs))" if "r = Ok bs" for bs
    using encoding_small(3) [OF b(2) assms(2) enc [unfolded that]] assms(2) by (subst of_nat_le_iff64) simp_all
  have len: "length bs = length (chunks bsize src)" if "r = Ok bs" for bs
    using encode_chunks_length enc that by simp
  show ?thesis
    using reader to_file assms(2) enc head b(1) total len
    by (cases r) (simp_all add: compress_file_to_storage_def encode_file_for_storage_def encode_blob_for_storage_def
      Let_def del: of_nat_add)
qed

theorem file_encoder_agrees_witness:
  "let ctx = compression_context_new (Some ''notes.txt'') None 3 1 [];
       opts = \<lparr>opt_dict_id = 0, opt_dict = None, opt_dedup = True\<rparr> in
   and_then (fst (compress_file_to_storage toy_lib 5 [1, 2, 3] None 3 3 4096 ctx opts empty_store)) (\<lambda>(refs, out). Ok out) =
   and_then (fst (encode_blob_for_storage toy_lib 5 [1, 2, 3] 3 4096 ctx opts empty_store)) (\<lambda>blob. Ok (Some blob))"
  using file_encoder_agrees [of 4096 "[1, 2, 3]" toy_lib 5 None 3 "compression_context_new (Some ''notes.txt'') None 3 1 []"
      "\<lparr>opt_dict_id = 0, opt_dict = None, opt_dedup = True\<rparr>" empty_store]
  by (simp add: Let_def)

end
