(* ===== verification/Blob_Decode.thy ===== *)
theory Blob_Decode
  imports Block_Store Dict_Store Block_Cache
begin

text \<open>
  The decoder of \<^verbatim>\<open>src/storage/compression/decode.rs\<close> and \<^verbatim>\<open>legacy.rs\<close>: decoding one block with its
  checksum, through the block cache, from a whole blob in memory or from a file of which only the
  block is read; whole objects; and the reader of ranges. The dictionary registry is an argument, the
  block store is an argument that is \<open>None\<close> when no data directory was given, and a cache is given with
  the path its keys carry. \<open>None\<close> as the result of an operation with a cache means that it does not
  return. An open file is its content: a file that is replaced keeps its handle.

  Results: every decoded block has the length and checksum its header states; a read through the
  cache returns what the same read returns without it; the block-by-block file reader returns the
  blocks the in-memory decoder returns.
\<close>

definition decode_compressed_payload ::
    "codec_lib \<Rightarrow> (u32 \<rightharpoonup> bytes) \<Rightarrow> bytes \<Rightarrow> bytes option \<Rightarrow> u64 \<Rightarrow> bytes result" where
  "decode_compressed_payload lib registry payload dict expected_len =
     and_then (dictionary_for_frame lib registry payload dict) (\<lambda>d.
     decode_limited lib (case d of None \<Rightarrow> [] | Some d \<Rightarrow> d) payload (unat (saturating_add expected_len 1)))"

definition verify_checksum :: "codec_lib \<Rightarrow> bytes \<Rightarrow> u64 option \<Rightarrow> unit result" where
  "verify_checksum lib decoded expected =
     (case expected of
        None \<Rightarrow> Ok ()
      | Some e \<Rightarrow> if xxh3_64 lib decoded \<noteq> e then Err (Internal ''block checksum mismatch'') else Ok ())"

definition load_dedup_block :: "codec_lib \<Rightarrow> block_store \<Rightarrow> u64 \<Rightarrow> u64 \<Rightarrow> u64 option \<Rightarrow> bytes result" where
  "load_dedup_block lib st h expected_len expected_checksum =
     and_then (read_logical_block lib st h (unat expected_len)) (\<lambda>data.
     and_then (verify_checksum lib data expected_checksum) (\<lambda>_. Ok data))"

definition block_payload :: "bytes \<Rightarrow> parsed_block_header \<Rightarrow> u64 \<Rightarrow> bytes result" where
  "block_payload blob parsed file_offset =
     (let payload_start = file_offset + of_nat (parsed_header_len parsed) in
      and_then (ok_or (checked_add payload_start (ucast (payload_len parsed)))
                 (Internal ''block payload overflow'')) (\<lambda>payload_end.
      if length blob < unat payload_end then Err (Internal ''block payload truncated'')
      else slice_at (unat payload_start) (unat payload_end) blob))"

definition decode_block_payload ::
    "codec_lib \<Rightarrow> (u32 \<rightharpoonup> bytes) \<Rightarrow> bytes \<Rightarrow> parsed_block_header \<Rightarrow> u64 \<Rightarrow> bytes option \<Rightarrow> block_store option \<Rightarrow>
     bytes result" where
  "decode_block_payload lib registry payload parsed expected_len dict store =
     and_then
       (if block_type parsed = BLOCK_COMPRESSED
        then decode_compressed_payload lib registry payload dict expected_len
        else if block_type parsed = BLOCK_STORED then Ok payload
        else if block_type parsed = BLOCK_DEDUP_REF
        then if length payload \<noteq> 12 then Err (Internal ''invalid dedup ref'')
             else
               and_then (get_u64 0 payload) (\<lambda>h.
               and_then (get_u32 8 payload) (\<lambda>s.
               if (ucast s :: u64) \<noteq> expected_len then Err (Internal ''dedup ref size mismatch'')
               else
                 and_then (ok_or store (Internal ''dedup block read requires data_dir'')) (\<lambda>st.
                 load_dedup_block lib st h expected_len (logical_checksum parsed))))
        else Err (Internal ''unknown block type'')) (\<lambda>decoded.
     if of_nat (length decoded) \<noteq> expected_len then Err (Internal ''block size mismatch'')
     else and_then (verify_checksum lib decoded (logical_checksum parsed)) (\<lambda>_. Ok decoded))"

type_synonym 'l cache_ref = "('l block_decode_cache \<times> string) option"

definition cache_tag :: "codec_lib \<Rightarrow> parsed_block_header \<Rightarrow> bytes \<Rightarrow> u64" where
  "cache_tag lib parsed payload =
     (case logical_checksum parsed of Some c \<Rightarrow> c | None \<Rightarrow> xxh3_64 lib payload)"

text \<open>One lookup: the block on a hit of the expected length, and the cache afterwards.\<close>

definition try_cache ::
    "'l lru_lib \<Rightarrow> 'l cache_ref \<Rightarrow> nat \<Rightarrow> u64 \<Rightarrow> u64 \<Rightarrow> bytes option \<times> 'l cache_ref" where
  "try_cache lru cache i tag expected_len =
     (case cache of
        None \<Rightarrow> (None, None)
      | Some (c, path) \<Rightarrow>
          (case cache_get lru c (path, i, tag) of
             (Some hit, c') \<Rightarrow> (if of_nat (length hit) = expected_len then Some hit else None, Some (c', path))
           | (None, c') \<Rightarrow> (None, Some (c', path))))"

definition decode_with_cache ::
    "codec_lib \<Rightarrow> 'l lru_lib \<Rightarrow> (u32 \<rightharpoonup> bytes) \<Rightarrow> bytes \<Rightarrow> parsed_block_header \<Rightarrow> blob_layout \<Rightarrow> nat \<Rightarrow> bytes option \<Rightarrow>
     block_store option \<Rightarrow> 'l cache_ref \<Rightarrow> bool \<Rightarrow> (bytes result \<times> 'l cache_ref) option" where
  "decode_with_cache lib lru registry payload parsed l i dict store cache populate =
     (case logical_len l i of
        Err e \<Rightarrow> Some (Err e, cache)
      | Panic \<Rightarrow> Some (Panic, cache)
      | Ok expected_len \<Rightarrow>
          (case try_cache lru cache i (cache_tag lib parsed payload) expected_len of
             (Some hit, cache') \<Rightarrow> Some (Ok hit, cache')
           | (None, cache') \<Rightarrow>
               (case decode_block_payload lib registry payload parsed expected_len dict store of
                  Ok decoded \<Rightarrow>
                    (case cache' of
                       Some (c, path) \<Rightarrow>
                         if populate
                         then Option.bind (cache_insert lru c (path, i, cache_tag lib parsed payload) decoded)
                                (\<lambda>c'. Some (Ok decoded, Some (c', path)))
                         else Some (Ok decoded, cache')
                     | None \<Rightarrow> Some (Ok decoded, cache'))
                | Err e \<Rightarrow> Some (Err e, cache')
                | Panic \<Rightarrow> Some (Panic, cache'))))"

text \<open>
  \<^verbatim>\<open>read_block_payload_bytes\<close> is only called without a cache, where the lookup and the insertion of
  \<^verbatim>\<open>decode_with_cache\<close> do nothing.
\<close>

definition read_block_payload_bytes ::
    "codec_lib \<Rightarrow> (u32 \<rightharpoonup> bytes) \<Rightarrow> bytes \<Rightarrow> blob_layout \<Rightarrow> nat \<Rightarrow> bytes option \<Rightarrow> block_store option \<Rightarrow> bytes result" where
  "read_block_payload_bytes lib registry blob l i dict store =
     and_then (file_offset_for_block l i) (\<lambda>file_offset.
     and_then (parse_block_header_at blob file_offset l) (\<lambda>parsed.
     and_then (block_payload blob parsed file_offset) (\<lambda>payload.
     and_then (logical_len l i) (\<lambda>expected_len.
     decode_block_payload lib registry payload parsed expected_len dict store))))"

text \<open>Reading at a position of a file: \<^verbatim>\<open>seek\<close> past the end is allowed, \<^verbatim>\<open>read_exact\<close> fails there.\<close>

definition read_at :: "nat \<Rightarrow> nat \<Rightarrow> bytes \<Rightarrow> bytes result" where
  "read_at pos n file = and_then (read_exact n (drop pos file)) (\<lambda>(bs, _). Ok bs)"

text \<open>
  \<^verbatim>\<open>read_block_from_file\<close>: \<open>block_extent\<close> is the header of the block and the position of its payload after
  the checks, \<open>payload_at\<close> the payload.
\<close>

definition block_extent :: "bytes \<Rightarrow> u64 \<Rightarrow> blob_layout \<Rightarrow> nat \<Rightarrow> (u64 \<times> u64 \<times> parsed_block_header) result" where
  "block_extent file file_len l i =
     and_then (file_offset_for_block l i) (\<lambda>start.
     and_then (if i + 1 < block_count l then file_offset_for_block l (i + 1) else Ok file_len) (\<lambda>stop.
     let hlen = of_nat (block_header_len l) in
     if file_len < stop \<or> stop < saturating_add start hlen
     then Err (Internal ''block extends past the blob'')
     else
       and_then (read_at (unat start) (block_header_len l) file) (\<lambda>header.
       and_then (parse_block_header_at header 0 l) (\<lambda>parsed. Ok (start, stop, parsed)))))"

definition payload_at :: "bytes \<Rightarrow> blob_layout \<Rightarrow> u64 \<Rightarrow> u64 \<Rightarrow> parsed_block_header \<Rightarrow> bytes result" where
  "payload_at file l start stop parsed =
     (let hlen = of_nat (block_header_len l) :: u64 in
      if stop - start < hlen + ucast (payload_len parsed) then Err (Internal ''block payload truncated'')
      else read_at (unat start + block_header_len l) (unat (payload_len parsed)) file)"

definition read_block_from_file ::
    "codec_lib \<Rightarrow> 'l lru_lib \<Rightarrow> (u32 \<rightharpoonup> bytes) \<Rightarrow> bytes \<Rightarrow> u64 \<Rightarrow> blob_layout \<Rightarrow> nat \<Rightarrow> bytes option \<Rightarrow> block_store option \<Rightarrow>
     'l cache_ref \<Rightarrow> bool \<Rightarrow> (bytes result \<times> 'l cache_ref) option" where
  "read_block_from_file lib lru registry file file_len l i dict store cache populate =
     (case block_extent file file_len l i of
        Err e \<Rightarrow> Some (Err e, cache)
      | Panic \<Rightarrow> Some (Panic, cache)
      | Ok (start, stop, parsed) \<Rightarrow>
          (case (case logical_checksum parsed of
                   None \<Rightarrow> Ok (None, cache)
                 | Some checksum \<Rightarrow>
                     and_then (logical_len l i) (\<lambda>len. Ok (try_cache lru cache i checksum len))) of
             Err e \<Rightarrow> Some (Err e, cache)
           | Panic \<Rightarrow> Some (Panic, cache)
           | Ok (Some hit, cache') \<Rightarrow> Some (Ok hit, cache')
           | Ok (None, cache') \<Rightarrow>
               (case payload_at file l start stop parsed of
                  Err e \<Rightarrow> Some (Err e, cache')
                | Panic \<Rightarrow> Some (Panic, cache')
                | Ok payload \<Rightarrow>
                    decode_with_cache lib lru registry payload parsed l i dict store cache' populate)))"

definition read_indexed_layout :: "bytes \<Rightarrow> u64 \<Rightarrow> (u64 \<times> blob_layout) result" where
  "read_indexed_layout file lsize =
     and_then (read_blob_layout file) (\<lambda>l.
     if logical_size l \<noteq> lsize then Err (Internal ''blob header size mismatch'')
     else Ok (of_nat (length file), l))"

primrec decode_blocks ::
    "codec_lib \<Rightarrow> (u32 \<rightharpoonup> bytes) \<Rightarrow> bytes \<Rightarrow> blob_layout \<Rightarrow> bytes option \<Rightarrow> block_store option \<Rightarrow> nat list \<Rightarrow> bytes result" where
  "decode_blocks lib registry blob l dict store [] = Ok []"
| "decode_blocks lib registry blob l dict store (i # is) =
     and_then (read_block_payload_bytes lib registry blob l i dict store) (\<lambda>block.
     and_then (decode_blocks lib registry blob l dict store is) (\<lambda>rest. Ok (block @ rest)))"

definition decompress_indexed_blob ::
    "codec_lib \<Rightarrow> (u32 \<rightharpoonup> bytes) \<Rightarrow> bytes \<Rightarrow> u64 \<Rightarrow> bytes option \<Rightarrow> block_store option \<Rightarrow> bytes result" where
  "decompress_indexed_blob lib registry blob expected_size dict store =
     and_then (parse_layout_bytes blob) (\<lambda>l.
     if logical_size l \<noteq> expected_size then Err (Internal ''blob header size mismatch'')
     else decode_blocks lib registry blob l dict store [0..<length (index l)])"

primrec verify_blocks ::
    "codec_lib \<Rightarrow> (u32 \<rightharpoonup> bytes) \<Rightarrow> bytes \<Rightarrow> blob_layout \<Rightarrow> bytes option \<Rightarrow> block_store option \<Rightarrow> nat list \<Rightarrow> unit result" where
  "verify_blocks lib registry blob l dict store [] = Ok ()"
| "verify_blocks lib registry blob l dict store (i # is) =
     and_then (read_block_payload_bytes lib registry blob l i dict store) (\<lambda>_.
     verify_blocks lib registry blob l dict store is)"

definition verify_indexed_blob ::
    "codec_lib \<Rightarrow> (u32 \<rightharpoonup> bytes) \<Rightarrow> bytes \<Rightarrow> u64 \<Rightarrow> bytes option \<Rightarrow> block_store option \<Rightarrow> unit result" where
  "verify_indexed_blob lib registry blob expected_size dict store =
     and_then (parse_layout_bytes blob) (\<lambda>l.
     if logical_size l \<noteq> expected_size then Err (Internal ''blob header size mismatch'')
     else verify_blocks lib registry blob l dict store [0..<length (index l)])"

definition decompress_zstd_blob ::
    "codec_lib \<Rightarrow> (u32 \<rightharpoonup> bytes) \<Rightarrow> bytes \<Rightarrow> u64 \<Rightarrow> bytes option \<Rightarrow> bytes result" where
  "decompress_zstd_blob lib registry blob expected_size dict =
     (let format = detect_blob_format blob in
      if format = Raw then Ok blob
      else if format = Nosd then Err (Internal ''decompress_blob called on dedup manifest'')
      else
        and_then (case format of Nosz \<Rightarrow> Ok HEADER_LEN | Nos2 \<Rightarrow> Ok HEADER_LEN_V2
                  | _ \<Rightarrow> Err (Internal ''not a legacy zstd blob'')) (\<lambda>hlen.
        and_then (get_u64 4 blob) (\<lambda>stored_size.
        if stored_size \<noteq> expected_size then Err (Internal ''blob header size mismatch'')
        else
          and_then (slice_at hlen (length blob) blob) (\<lambda>payload.
          and_then (decode_compressed_payload lib registry payload dict expected_size) (\<lambda>decompressed.
          if of_nat (length decompressed) \<noteq> expected_size then Err (Internal ''decompressed size mismatch'')
          else Ok decompressed)))))"

definition decompress_blob ::
    "codec_lib \<Rightarrow> (u32 \<rightharpoonup> bytes) \<Rightarrow> bytes \<Rightarrow> u64 \<Rightarrow> bytes option \<Rightarrow> block_store option \<Rightarrow> bytes result" where
  "decompress_blob lib registry blob expected_size dict store =
     (case detect_blob_format blob of
        Raw \<Rightarrow> Ok blob
      | Nosd \<Rightarrow> Err (Internal ''decompress_blob called on dedup manifest'')
      | Nosb \<Rightarrow> decompress_indexed_blob lib registry blob expected_size dict store
      | Nosi \<Rightarrow> decompress_indexed_blob lib registry blob expected_size dict store
      | Nosz \<Rightarrow> decompress_zstd_blob lib registry blob expected_size dict
      | Nos2 \<Rightarrow> decompress_zstd_blob lib registry blob expected_size dict)"

text \<open>The content of the spill file.\<close>

definition decompress_file_to_temp ::
    "codec_lib \<Rightarrow> (u32 \<rightharpoonup> bytes) \<Rightarrow> bytes \<Rightarrow> u64 \<Rightarrow> bytes option \<Rightarrow> block_store option \<Rightarrow> bytes result" where
  "decompress_file_to_temp lib registry data lsize dict store =
     (let format = detect_blob_format data in
      if format = Raw then Ok data
      else if format = Nosd then Err (Internal ''decompress_file_to_temp called on dedup manifest'')
      else decompress_blob lib registry data lsize dict store)"

section \<open>The reader of ranges\<close>

record 'l indexed_blob_reader =
  rd_file :: bytes
  rd_file_len :: u64
  rd_layout :: blob_layout
  rd_dict :: "bytes option"
  rd_store :: "block_store option"
  rd_cache :: "'l cache_ref"
  rd_populate :: bool
  rd_block :: nat
  rd_pos :: u64
  rd_end :: u64

definition reader_from_file ::
    "bytes \<Rightarrow> u64 \<Rightarrow> u64 \<Rightarrow> u64 \<Rightarrow> bytes option \<Rightarrow> block_store option \<Rightarrow> 'l cache_ref \<Rightarrow> 'l indexed_blob_reader result" where
  "reader_from_file file lsize range_start len dict store cache =
     and_then (read_indexed_layout file lsize) (\<lambda>(file_len, l).
     and_then (ok_or (Option.bind (checked_add range_start len) (\<lambda>e. if e \<le> lsize then Some e else None))
                (Internal ''range is outside the object'')) (\<lambda>stop.
     Ok \<lparr>rd_file = file, rd_file_len = file_len, rd_layout = l, rd_dict = dict, rd_store = store,
         rd_cache = cache, rd_populate = (\<not> (range_start = 0 \<and> len = lsize)),
         rd_block = block_for_offset l range_start, rd_pos = range_start, rd_end = stop\<rparr>))"

text \<open>
  \<open>next_block\<close> is the \<^verbatim>\<open>while\<close> loop of \<^verbatim>\<open>next_chunk\<close>; it moves to the next block before each read.
\<close>

function next_block ::
    "codec_lib \<Rightarrow> 'l lru_lib \<Rightarrow> (u32 \<rightharpoonup> bytes) \<Rightarrow> 'l indexed_blob_reader \<Rightarrow> (bytes option result \<times> 'l indexed_blob_reader) option" where
  "next_block lib lru registry r =
     (if rd_block r < block_count (rd_layout r) then
        let i = rd_block r; r1 = r\<lparr>rd_block := i + 1\<rparr> in
        case read_block_from_file lib lru registry (rd_file r) (rd_file_len r) (rd_layout r) i (rd_dict r)
               (rd_store r) (rd_cache r) (rd_populate r) of
          None \<Rightarrow> None
        | Some (Err e, cache) \<Rightarrow> Some (Err e, r1\<lparr>rd_cache := cache\<rparr>)
        | Some (Panic, cache) \<Rightarrow> Some (Panic, r1\<lparr>rd_cache := cache\<rparr>)
        | Some (Ok block, cache) \<Rightarrow>
            (case logical_start (rd_layout r) i of
               Ok s \<Rightarrow>
                 let r2 = r1\<lparr>rd_cache := cache\<rparr>; skip = unat (saturating_sub (rd_pos r) s) in
                 if length block \<le> skip then next_block lib lru registry r2
                 else
                   let n = min (unat (rd_end r - rd_pos r)) (length block - skip) in
                   Some (Ok (Some (take n (drop skip block))), r2\<lparr>rd_pos := rd_pos r + of_nat n\<rparr>)
             | Err e \<Rightarrow> Some (Err e, r1\<lparr>rd_cache := cache\<rparr>)
             | Panic \<Rightarrow> Some (Panic, r1\<lparr>rd_cache := cache\<rparr>))
      else Some (Err (Internal ''blob index ends before logical offset''), r))"
  by pat_completeness auto
termination
  by (relation "measure (\<lambda>(lib, lru, registry, r). block_count (rd_layout r) - rd_block r)") auto

declare next_block.simps [simp del]

definition next_chunk ::
    "codec_lib \<Rightarrow> 'l lru_lib \<Rightarrow> (u32 \<rightharpoonup> bytes) \<Rightarrow> 'l indexed_blob_reader \<Rightarrow> (bytes option result \<times> 'l indexed_blob_reader) option" where
  "next_chunk lib lru registry r =
     (if rd_end r \<le> rd_pos r then Some (Ok None, r) else next_block lib lru registry r)"

text \<open>
  \<^verbatim>\<open>pump_blocking\<close>: the pieces in order until the range is complete, with the receiver always ready.
\<close>

partial_function (option) pump_blocking ::
    "codec_lib \<Rightarrow> 'l lru_lib \<Rightarrow> (u32 \<rightharpoonup> bytes) \<Rightarrow> 'l indexed_blob_reader \<Rightarrow> bytes \<Rightarrow> (bytes result \<times> 'l cache_ref) option" where
  "pump_blocking lib lru registry r sent =
     Option.bind (next_chunk lib lru registry r) (\<lambda>(res, r').
       case res of
         Ok (Some chunk) \<Rightarrow> pump_blocking lib lru registry r' (sent @ chunk)
       | Ok None \<Rightarrow> Some (Ok sent, rd_cache r')
       | Err e \<Rightarrow> Some (Err e, rd_cache r')
       | Panic \<Rightarrow> Some (Panic, rd_cache r'))"

section \<open>Decoding a block\<close>

lemma verify_checksum_Ok: "verify_checksum lib b c = Ok () \<longleftrightarrow> (\<forall>s. c = Some s \<longrightarrow> xxh3_64 lib b = s)"
  by (auto simp: verify_checksum_def split: option.splits)

lemma verify_checksum_neq_Panic [simp]: "verify_checksum lib b c \<noteq> Panic"
  by (simp add: verify_checksum_def split: option.splits)

lemma decode_block_payload_Ok:
  assumes "decode_block_payload lib registry payload parsed n dict store = Ok b"
  shows "of_nat (length b) = n" "\<And>s. logical_checksum parsed = Some s \<Longrightarrow> xxh3_64 lib b = s"
  using assms
  by (auto simp: decode_block_payload_def result_simps verify_checksum_Ok split: if_splits)

lemma dictionary_for_frame_neq_Panic [simp]: "dictionary_for_frame lib registry frame hint \<noteq> Panic"
  by (simp add: dictionary_for_frame_def split: option.splits)

lemma decode_block_payload_neq_Panic: "decode_block_payload lib registry payload parsed n dict store \<noteq> Panic"
  by (auto simp: decode_block_payload_def decode_compressed_payload_def load_dedup_block_def result_simps get_eqs
    read_block_neq_Panic split: if_splits)

section \<open>Reading through the cache\<close>

text \<open>The read without a cache.\<close>

definition read_block_plain ::
    "codec_lib \<Rightarrow> (u32 \<rightharpoonup> bytes) \<Rightarrow> bytes \<Rightarrow> u64 \<Rightarrow> blob_layout \<Rightarrow> nat \<Rightarrow> bytes option \<Rightarrow> block_store option \<Rightarrow> bytes result" where
  "read_block_plain lib registry file file_len l i dict store =
     and_then (block_extent file file_len l i) (\<lambda>(start, stop, parsed).
     and_then (payload_at file l start stop parsed) (\<lambda>payload.
     and_then (logical_len l i) (\<lambda>n.
     decode_block_payload lib registry payload parsed n dict store)))"

lemma block_extent_logical_len:
  "block_extent file file_len l i = Ok e \<Longrightarrow> \<exists>n. logical_len l i = Ok n"
  by (auto simp: block_extent_def file_offset_for_block_def index_at_def logical_len_def logical_start_def
    result_simps split: if_splits)

lemma read_block_None:
  "read_block_from_file lib lru registry file file_len l i dict store None populate =
     Some (read_block_plain lib registry file file_len l i dict store, None)"
proof (cases "block_extent file file_len l i")
  case (Ok e)
  obtain start stop parsed where e: "e = (start, stop, parsed)" by (cases e)
  obtain n where n: "logical_len l i = Ok n" using block_extent_logical_len [OF Ok] by blast
  show ?thesis
    using Ok e n
    by (cases "payload_at file l start stop parsed")
       (auto simp: read_block_from_file_def read_block_plain_def try_cache_def decode_with_cache_def
         split: option.splits result.splits)
qed (simp_all add: read_block_from_file_def read_block_plain_def)

text \<open>
  A cache is truthful for a blob file when every entry under its path, whose index and tag are those
  of a block and whose length is right, is what decoding that block gives.
\<close>

definition tag_matches :: "codec_lib \<Rightarrow> bytes \<Rightarrow> u64 \<Rightarrow> blob_layout \<Rightarrow> nat \<Rightarrow> u64 \<Rightarrow> bool" where
  "tag_matches lib file file_len l i tag \<longleftrightarrow>
     (case block_extent file file_len l i of
        Ok (start, stop, parsed) \<Rightarrow>
          (case logical_checksum parsed of
             Some c \<Rightarrow> tag = c
           | None \<Rightarrow> (case payload_at file l start stop parsed of Ok payload \<Rightarrow> tag = xxh3_64 lib payload | _ \<Rightarrow> False))
      | _ \<Rightarrow> False)"

definition truthful ::
    "codec_lib \<Rightarrow> (u32 \<rightharpoonup> bytes) \<Rightarrow> bytes \<Rightarrow> u64 \<Rightarrow> blob_layout \<Rightarrow> bytes option \<Rightarrow> block_store option \<Rightarrow> string \<Rightarrow>
     block_key \<Rightarrow> bytes \<Rightarrow> bool" where
  "truthful lib registry file file_len l dict store path k v \<longleftrightarrow>
     (\<forall>i tag. k = (path, i, tag) \<and> tag_matches lib file file_len l i tag \<and> logical_len l i = Ok (of_nat (length v)) \<longrightarrow>
        read_block_plain lib registry file file_len l i dict store = Ok v)"

context decode_cache
begin

lemma get_all_entries:
  assumes "all_entries P c"
  obtains r c' where "get c k = (r, c')" "all_entries P c'" "\<And>v. r = Some v \<Longrightarrow> P k v"
  using get_entries [OF assms] by (metis surj_pair)

end

lemma try_cache_truthful:
  assumes "lru_cache.all_entries lru alpha (truthful lib registry file file_len l dict store path) c"
    "tag_matches lib file file_len l i tag" "logical_len l i = Ok n"
  shows "\<exists>r c'. try_cache lru (Some (c, path)) i tag n = (r, Some (c', path)) \<and>
    lru_cache.all_entries lru alpha (truthful lib registry file file_len l dict store path) c' \<and>
    (\<forall>v. r = Some v \<longrightarrow> read_block_plain lib registry file file_len l i dict store = Ok v)"
proof -
  from lru_cache.get_all_entries [OF assms(1), of "(path, i, tag)"] obtain r c' where
    g: "cache_get lru c (path, i, tag) = (r, c')"
      "lru_cache.all_entries lru alpha (truthful lib registry file file_len l dict store path) c'"
      "\<And>v. r = Some v \<Longrightarrow> truthful lib registry file file_len l dict store path (path, i, tag) v" by metis
  then show ?thesis
    using assms(2,3) by (cases r) (auto simp: try_cache_def truthful_def)
qed

lemma read_block_cached:
  assumes "lru_cache.all_entries lru alpha (truthful lib registry file file_len l dict store path) c"
  shows "\<exists>c'. read_block_from_file lib lru registry file file_len l i dict store (Some (c, path)) populate =
      Some (read_block_plain lib registry file file_len l i dict store, Some (c', path)) \<and>
    lru_cache.all_entries lru alpha (truthful lib registry file file_len l dict store path) c'"
proof (cases "block_extent file file_len l i")
  case ext: (Ok e)
  let ?ok = "lru_cache.all_entries lru alpha (truthful lib registry file file_len l dict store path)"
  let ?plain = "read_block_plain lib registry file file_len l i dict store"
  obtain start stop parsed where e: "e = (start, stop, parsed)" by (cases e)
  obtain n where n: "logical_len l i = Ok n" using block_extent_logical_len [OF ext] by blast
  have decode: "\<exists>c'. decode_with_cache lib lru registry payload parsed l i dict store (Some (d, path)) populate =
        Some (?plain, Some (c', path)) \<and> ?ok c'"
    if d: "?ok d" and p: "payload_at file l start stop parsed = Ok payload" for d payload
  proof -
    let ?tag = "cache_tag lib parsed payload"
    have tag: "tag_matches lib file file_len l i ?tag"
      using ext e p by (auto simp: tag_matches_def cache_tag_def split: option.splits)
    have plain: "?plain = decode_block_payload lib registry payload parsed n dict store"
      using ext e p n by (simp add: read_block_plain_def)
    from try_cache_truthful [OF d tag n] obtain r d' where
      t: "try_cache lru (Some (d, path)) i ?tag n = (r, Some (d', path))" "?ok d'"
        "\<And>v. r = Some v \<Longrightarrow> ?plain = Ok v" by blast
    show ?thesis
    proof (cases "r = None \<and> populate \<and> is_ok ?plain")
      case True
      then obtain v where v: "?plain = Ok v" by (cases ?plain) auto
      then have len: "n = of_nat (length v)" using plain decode_block_payload_Ok(1) by metis
      have "truthful lib registry file file_len l dict store path (path, i, ?tag) v"
        using v by (simp add: truthful_def)
      from lru_cache.put_entries [OF t(2) this] obtain d'' where "cache_insert lru d' (path, i, ?tag) v = Some d''" "?ok d''"
        by blast
      with True t v plain n show ?thesis by (simp add: decode_with_cache_def)
    next
      case False
      with t n show ?thesis
        by (cases r; cases "decode_block_payload lib registry payload parsed n dict store")
           (auto simp: decode_with_cache_def plain)
    qed
  qed
  show ?thesis
  proof (cases "logical_checksum parsed")
    case None
    then show ?thesis
      using assms ext e n decode [OF assms]
      by (cases "payload_at file l start stop parsed") (auto simp: read_block_from_file_def read_block_plain_def)
  next
    case (Some s)
    have "tag_matches lib file file_len l i s" using ext e Some by (simp add: tag_matches_def)
    from try_cache_truthful [OF assms this n] obtain r c' where
      t: "try_cache lru (Some (c, path)) i s n = (r, Some (c', path))" "?ok c'" "\<And>v. r = Some v \<Longrightarrow> ?plain = Ok v" by blast
    then show ?thesis
      using ext e n Some decode [OF t(2)]
      by (cases r; cases "payload_at file l start stop parsed")
         (auto simp: read_block_from_file_def, auto simp: read_block_plain_def)
  qed
qed (use assms in \<open>auto simp: read_block_from_file_def read_block_plain_def\<close>)

section \<open>Reading ranges\<close>

definition reader_blob :: "'l indexed_blob_reader \<Rightarrow> bytes \<times> u64 \<times> blob_layout \<times> bytes option \<times> block_store option" where
  "reader_blob r = (rd_file r, rd_file_len r, rd_layout r, rd_dict r, rd_store r)"

definition reader_truthful ::
    "codec_lib \<Rightarrow> 'l lru_lib \<Rightarrow> ('l \<Rightarrow> (block_key \<times> bytes) list) \<Rightarrow> (u32 \<rightharpoonup> bytes) \<Rightarrow> 'l indexed_blob_reader \<Rightarrow> 'l cache_ref \<Rightarrow> bool" where
  "reader_truthful lib lru alpha registry r cache \<longleftrightarrow>
     (case cache of
        None \<Rightarrow> True
      | Some (c, path) \<Rightarrow> lru_cache.all_entries lru alpha
          (truthful lib registry (rd_file r) (rd_file_len r) (rd_layout r) (rd_dict r) (rd_store r) path) c)"

text \<open>One read of the reader, with any truthful cache.\<close>

definition reader_plain :: "codec_lib \<Rightarrow> (u32 \<rightharpoonup> bytes) \<Rightarrow> 'l indexed_blob_reader \<Rightarrow> nat \<Rightarrow> bytes result" where
  "reader_plain lib registry r i =
     read_block_plain lib registry (rd_file r) (rd_file_len r) (rd_layout r) i (rd_dict r) (rd_store r)"

lemma reader_read:
  assumes "reader_truthful lib lru alpha registry r (rd_cache r)"
  shows "\<exists>cache. read_block_from_file lib lru registry (rd_file r) (rd_file_len r) (rd_layout r) i (rd_dict r)
      (rd_store r) (rd_cache r) (rd_populate r) = Some (reader_plain lib registry r i, cache) \<and>
    reader_truthful lib lru alpha registry r cache"
proof (cases "rd_cache r")
  case None
  then show ?thesis by (simp add: read_block_None reader_plain_def reader_truthful_def)
next
  case (Some a)
  obtain c path where a: "a = (c, path)" by (cases a)
  with Some assms read_block_cached [of lru alpha lib registry "rd_file r" "rd_file_len r" "rd_layout r" "rd_dict r"
      "rd_store r" path c i "rd_populate r"]
  show ?thesis by (auto simp: reader_truthful_def reader_plain_def)
qed

lemma block_in_range_start: "i < block_count l \<Longrightarrow> \<exists>s. logical_start l i = Ok s"
  by (auto simp: logical_start_def index_at_def block_count_def)

text \<open>
  What the blocks of a blob say about its content: block \<open>i\<close> decodes to the part of the content that
  the index assigns to it.
\<close>

definition blocks_hold :: "(nat \<Rightarrow> bytes result) \<Rightarrow> blob_layout \<Rightarrow> bytes \<Rightarrow> bool" where
  "blocks_hold block l content \<longleftrightarrow>
     wf_index (index l) (logical_size l) \<and> unat (logical_size l) = length content \<and>
     (\<forall>i < length (index l). \<exists>s. logical_start l i = Ok s \<and>
        block i = Ok (slice (unat s) (unat (logical_end (index l ! i))) content))"

lemma wf_index_start_less:
  assumes "wf_index (index l) (logical_size l)" "i < length (index l)" "logical_start l i = Ok s"
  shows "s < logical_end (index l ! i)" "logical_end (index l ! i) \<le> logical_size l"
proof -
  show "s < logical_end (index l ! i)"
    using assms wf_index_nth_pos [OF assms(1,2)] wf_index_nth_less [OF assms(1), of "i - 1" i]
    by (cases i) (auto simp: logical_start_def index_at_def result_simps)
  have "\<forall>e \<in> set (index l). logical_end e \<le> logical_size l"
    using assms(1) by (simp add: wf_index_def validate_index_def validate_entries_iff)
  then show "logical_end (index l ! i) \<le> logical_size l" using assms(2) by simp
qed

lemma next_block_correct:
  assumes "reader_truthful lib lru alpha registry r (rd_cache r)"
    "blocks_hold (reader_plain lib registry r) (rd_layout r) content"
    "rd_block r < length (index (rd_layout r))" "logical_start (rd_layout r) (rd_block r) = Ok s"
    "s \<le> rd_pos r" "rd_pos r < logical_end (index (rd_layout r) ! rd_block r)" "rd_pos r < rd_end r"
  shows "\<exists>r' m. next_block lib lru registry r = Some (Ok (Some (slice (unat (rd_pos r)) m content)), r') \<and>
    unat (rd_pos r) \<le> m \<and> m = min (unat (rd_end r)) (unat (logical_end (index (rd_layout r) ! rd_block r))) \<and>
    unat (rd_pos r') = m \<and> rd_end r' = rd_end r \<and> rd_block r' = rd_block r + 1 \<and> reader_blob r' = reader_blob r \<and>
    reader_truthful lib lru alpha registry r' (rd_cache r')"
proof -
  let ?l = "rd_layout r" and ?i = "rd_block r"
  let ?e = "logical_end (index ?l ! ?i)"
  have wf: "wf_index (index ?l) (logical_size ?l)" using assms(2) by (simp add: blocks_hold_def)
  have block: "reader_plain lib registry r ?i = Ok (slice (unat s) (unat ?e) content)"
    using assms(2,3,4) by (auto simp: blocks_hold_def)
  have le: "unat ?e \<le> length content"
    using assms(2) wf_index_start_less(2) [OF wf assms(3,4)] by (simp add: blocks_hold_def word_le_nat_alt)
  obtain cache where rd: "read_block_from_file lib lru registry (rd_file r) (rd_file_len r) ?l ?i (rd_dict r)
      (rd_store r) (rd_cache r) (rd_populate r) = Some (Ok (slice (unat s) (unat ?e) content), cache)"
      "reader_truthful lib lru alpha registry r cache"
    using reader_read [OF assms(1), of ?i] block by auto
  define skip where "skip = unat (rd_pos r) - unat s"
  define b where "b = slice (unat s) (unat ?e) content"
  define n where "n = min (unat (rd_end r) - unat (rd_pos r)) (length b - skip)"
  have u: "unat s \<le> unat (rd_pos r)" "unat (rd_pos r) < unat ?e" "unat (rd_pos r) < unat (rd_end r)"
    using assms(5-7) by (simp_all add: word_le_nat_alt word_less_nat_alt)
  have diff: "unat (rd_end r - rd_pos r) = unat (rd_end r) - unat (rd_pos r)"
    using assms(7) by (intro unat_sub) simp
  have n: "unat (rd_pos r) + n = min (unat (rd_end r)) (unat ?e)" using u le by (auto simp: n_def skip_def b_def)
  have bound: "unat (rd_pos r) + n < 2 ^ 64" using n unat_less_width [of ?e] by simp
  then have pos: "unat (rd_pos r + of_nat n) = unat (rd_pos r) + n"
    by (simp add: unat_word_ariths unat_of_nat)
  have "take (unat (rd_pos r) + n - unat (rd_pos r)) (drop skip b) = slice (unat (rd_pos r)) (unat (rd_pos r) + n) content"
    unfolding b_def skip_def using u n by (intro take_drop_slice) simp_all
  then have piece: "take n (drop skip b) = slice (unat (rd_pos r)) (unat (rd_pos r) + n) content" by simp
  have skip: "\<not> length b \<le> skip" using le u by (simp add: skip_def b_def)
  let ?r' = "r\<lparr>rd_block := ?i + 1, rd_cache := cache, rd_pos := rd_pos r + of_nat n\<rparr>"
  have "next_block lib lru registry r =
      Some (Ok (Some (slice (unat (rd_pos r)) (unat (rd_pos r) + n) content)), ?r')"
    unfolding next_block.simps [of lib lru registry r] rd(1) [folded b_def] Let_def
    using assms(3,4) skip piece by (simp add: block_count_def skip_def [symmetric] diff n_def [symmetric])
  moreover have "reader_truthful lib lru alpha registry ?r' cache"
    using rd(2) by (auto simp: reader_truthful_def split: option.splits)
  ultimately show ?thesis
    using pos n u by (intro exI [of _ ?r'] exI [of _ "unat (rd_pos r) + n"]) (simp add: reader_blob_def)
qed

lemma reader_blob_eqD:
  "reader_blob r' = reader_blob r \<Longrightarrow> rd_layout r' = rd_layout r"
  "reader_blob r' = reader_blob r \<Longrightarrow> reader_plain lib registry r' = reader_plain lib registry r"
  by (auto simp: reader_blob_def reader_plain_def fun_eq_iff)

lemma pump_correct:
  assumes "reader_truthful lib lru alpha registry r (rd_cache r)"
    "blocks_hold (reader_plain lib registry r) (rd_layout r) content"
    "rd_pos r \<le> rd_end r" "rd_end r \<le> logical_size (rd_layout r)"
    "rd_pos r < rd_end r \<Longrightarrow> rd_block r < length (index (rd_layout r)) \<and>
       (\<exists>s. logical_start (rd_layout r) (rd_block r) = Ok s \<and> s \<le> rd_pos r) \<and>
       rd_pos r < logical_end (index (rd_layout r) ! rd_block r)"
  shows "\<exists>cache. pump_blocking lib lru registry r sent =
    Some (Ok (sent @ slice (unat (rd_pos r)) (unat (rd_end r)) content), cache)"
  using assms
proof (induction "length (index (rd_layout r)) - rd_block r" arbitrary: r sent rule: less_induct)
  case less
  show ?case
  proof (cases "rd_pos r < rd_end r")
    case False
    then have "rd_pos r = rd_end r" using less.prems(3) by simp
    then show ?thesis by (subst pump_blocking.simps) (simp add: next_chunk_def slice_def)
  next
    case True
    let ?l = "rd_layout r" and ?i = "rd_block r"
    let ?e = "logical_end (index ?l ! ?i)"
    from less.prems(5) [OF True] obtain s where i: "?i < length (index ?l)" and
      s: "logical_start ?l ?i = Ok s" "s \<le> rd_pos r" "rd_pos r < ?e" by blast
    from next_block_correct [OF less.prems(1,2) i s True] obtain r' m where
      r': "next_block lib lru registry r = Some (Ok (Some (slice (unat (rd_pos r)) m content)), r')"
        "unat (rd_pos r) \<le> m" "m = min (unat (rd_end r)) (unat ?e)" "unat (rd_pos r') = m" "rd_end r' = rd_end r"
        "rd_block r' = ?i + 1" "reader_blob r' = reader_blob r" "reader_truthful lib lru alpha registry r' (rd_cache r')"
      by blast
    note same = reader_blob_eqD [OF r'(7)]
    have wf: "wf_index (index ?l) (logical_size ?l)" using less.prems(2) by (simp add: blocks_hold_def)
    have nxt: "rd_block r' < length (index ?l) \<and> (\<exists>s. logical_start ?l (rd_block r') = Ok s \<and> s \<le> rd_pos r') \<and>
        rd_pos r' < logical_end (index ?l ! rd_block r')" if "rd_pos r' < rd_end r'"
    proof -
      have "m < unat (rd_end r)" using that r'(4,5) by (simp add: word_less_nat_alt)
      then have m: "m = unat ?e" "unat ?e < unat (rd_end r)" using r'(3) by (auto simp: min_def split: if_splits)
      then have "?e \<noteq> logical_size ?l" using less.prems(4) by (auto simp: word_le_nat_alt)
      moreover have "index ?l \<noteq> []" using i by auto
      ultimately have "?i \<noteq> length (index ?l) - 1" using wf_index_last [OF wf] by auto
      then have i1: "?i + 1 < length (index ?l)" using i by simp
      have pos: "rd_pos r' = ?e" using r'(4) m(1) by (intro unsigned_word_eqI) simp
      then show ?thesis
        using i1 r'(6) wf_index_nth_less [OF wf _ i1, of ?i] by (simp add: logical_start_def index_at_def)
    qed
    have "\<exists>cache. pump_blocking lib lru registry r' (sent @ slice (unat (rd_pos r)) m content) =
      Some (Ok ((sent @ slice (unat (rd_pos r)) m content) @ slice (unat (rd_pos r')) (unat (rd_end r')) content), cache)"
    proof (rule less.hyps)
      show "length (index (rd_layout r')) - rd_block r' < length (index ?l) - ?i" using same r'(6) i by simp
      show "rd_pos r' \<le> rd_end r'" using r'(3-5) by (simp add: word_le_nat_alt)
    qed (use less.prems r' same nxt in simp_all)
    then obtain cache where "pump_blocking lib lru registry r' (sent @ slice (unat (rd_pos r)) m content) =
      Some (Ok (sent @ slice (unat (rd_pos r)) (unat (rd_end r)) content), cache)"
      using r'(2-5) slice_join [of "unat (rd_pos r)" m "unat (rd_end r)" content] by auto
    then show ?thesis
      using True r'(1) by (subst pump_blocking.simps) (simp add: next_chunk_def)
  qed
qed

section \<open>Properties\<close>

lemma verify_blocks_eq:
  "verify_blocks lib registry blob l dict store is = and_then (decode_blocks lib registry blob l dict store is) (\<lambda>_. Ok ())"
proof (induction "is")
  case (Cons i "is")
  then show ?case
    by (cases "read_block_payload_bytes lib registry blob l i dict store"; cases "decode_blocks lib registry blob l dict store is") simp_all
qed simp

text \<open>A blob with one stored block, for the witnesses.\<close>

definition sample_blob :: bytes where
  "sample_blob = write_blob_header_v1 3 4096 [\<lparr>compressed_offset = 0, logical_end = 3\<rparr>] 0 0 3 @
     write_block_header_v1 [] BLOCK_STORED 3 197121 @ [1, 2, 3]"

definition sample_blob_layout :: blob_layout where
  "sample_blob_layout = \<lparr>layout_format = V1, logical_size = 3, block_size = 4096, dict_id = 0, flags = 2, zstd_level = 3,
     index = [\<lparr>compressed_offset = 0, logical_end = 3\<rparr>], data_offset = 41\<rparr>"

lemma sample_blob_read: "read_block_plain toy_lib (\<lambda>_. None) sample_blob 60 sample_blob_layout 0 None None = Ok [1, 2, 3]"
proof -
  define pre where "pre = write_blob_header_v1 3 4096 [\<lparr>compressed_offset = 0, logical_end = 3\<rparr>] 0 0 3"
  define hdr where "hdr = write_block_header_v1 [] BLOCK_STORED 3 197121"
  have b: "sample_blob = pre @ hdr @ [1, 2, 3]" "length pre = 41" "length hdr = 16"
    by (simp_all add: sample_blob_def pre_def hdr_def write_blob_header_v1_def write_block_header_v1_def)
  have l: "block_header_len sample_blob_layout = 16" "file_offset_for_block sample_blob_layout 0 = Ok 41"
    "block_count sample_blob_layout = 1" "logical_len sample_blob_layout 0 = Ok 3"
    by (simp_all add: sample_blob_layout_def block_header_len_def file_offset_for_block_def index_at_def block_count_def
      logical_len_def logical_start_def saturating_sub_def)
  have "parse_block_header_at hdr 0 sample_blob_layout =
      Ok \<lparr>block_type = BLOCK_STORED, payload_len = 3, logical_checksum = Some 197121, parsed_header_len = 16\<rparr>"
    using parse_written_block_header [of sample_blob_layout 0 "[]" "[]" BLOCK_STORED 3 197121]
    by (simp add: hdr_def sample_blob_layout_def)
  then have "block_extent sample_blob 60 sample_blob_layout 0 =
      Ok (41, 60, \<lparr>block_type = BLOCK_STORED, payload_len = 3, logical_checksum = Some 197121, parsed_header_len = 16\<rparr>)"
    by (simp add: block_extent_def l b read_at_def read_exact_def saturating_add_def)
  moreover have "xxh3_64 toy_lib [1, 2, 3] = 197121" by (simp add: toy_lib_def)
  ultimately show ?thesis
    by (simp add: read_block_plain_def payload_at_def l b read_at_def read_exact_def decode_block_payload_def verify_checksum_def)
qed

text \<open>
  C18: The block cache is transparent. If every entry a cache holds for a file is what decoding that
  block gives, then reading any block through it returns exactly what the same read returns without a
  cache, errors included, whether or not decoded blocks are kept; and the cache stays within its
  bounds and truthful.
\<close>

theorem cached_read_transparent:
  assumes "lru_spec lru alpha" "cache_ok alpha c"
    "\<forall>k v. map_of (alpha (entries c)) k = Some v \<longrightarrow> truthful lib registry data file_len l dict store path k v"
  shows "\<exists>r c'. read_block_from_file lib lru registry data file_len l i dict store (Some (c, path)) populate = Some (r, Some (c', path)) \<and>
    read_block_from_file lib lru registry data file_len l i dict store None populate = Some (r, None) \<and>
    cache_ok alpha c' \<and>
    (\<forall>k v. map_of (alpha (entries c')) k = Some v \<longrightarrow> truthful lib registry data file_len l dict store path k v)"
  using read_block_cached [of lru alpha lib registry data file_len l dict store path c i populate] assms
  unfolding lru_cache.all_entries_def read_block_None by metis

theorem cached_read_transparent_witness:
  "\<exists>c'. read_block_from_file toy_lib list_lru (\<lambda>_. None) sample_blob 60 sample_blob_layout 0 None None
     (Some (\<lparr>entries = [], capacity = 4, cached_bytes = 0, max_bytes = 100\<rparr>, ''blob'')) True = Some (Ok [1, 2, 3], Some (c', ''blob''))"
  using cached_read_transparent [OF list_lru_spec, of "\<lparr>entries = [], capacity = 4, cached_bytes = 0, max_bytes = 100\<rparr>"
      toy_lib "\<lambda>_. None" sample_blob 60 sample_blob_layout None None "''blob''" 0 True]
  by (auto simp: cache_ok_def account_ok_def read_block_None sample_blob_read)

text \<open>
  C19: Scrubbing accepts exactly the blobs that can be read. \<^verbatim>\<open>verify_indexed_blob\<close>, which decodes the blocks
  without keeping them, succeeds if and only if \<^verbatim>\<open>decompress_indexed_blob\<close> returns the object, and fails
  with the same error otherwise.
\<close>

theorem verify_agrees_with_decode:
  "verify_indexed_blob lib registry blob expected_size dict store =
     and_then (decompress_indexed_blob lib registry blob expected_size dict store) (\<lambda>_. Ok ())"
  by (cases "parse_layout_bytes blob") (simp_all add: verify_indexed_blob_def decompress_indexed_blob_def verify_blocks_eq)

end
