(* ===== verification/Blob_Roundtrip.thy ===== *)
theory Blob_Roundtrip
  imports Blob_Encode Blob_Decode
begin

text \<open>
  Encoding and decoding together. What the encoder of \<^verbatim>\<open>encode.rs\<close> writes is read back by the decoder of
  \<^verbatim>\<open>decode.rs\<close>: whole objects in memory, ranges of the file block by block, with or without the cache,
  with blocks kept in the blob or shared through the block store, at the moment of the upload or
  after the store has changed as it may (see \<open>chunk_store\<close> in \<^verbatim>\<open>Block_Store\<close>).
\<close>

unbundle bit_operations_syntax

lemma of_nat_unat_ucast: "ucast w = of_nat (unat w)"
  by (rule of_nat_unat [symmetric])

section \<open>One block\<close>

text \<open>
  The dictionary of the encoder is found again: it has an id, and the registry holds it under that
  id or the caller passes it as the hint.
\<close>

definition dict_found :: "codec_lib \<Rightarrow> (u32 \<rightharpoonup> bytes) \<Rightarrow> bytes option \<Rightarrow> bytes option \<Rightarrow> bool" where
  "dict_found lib registry hint dict \<longleftrightarrow>
     (case dict of
        None \<Rightarrow> True
      | Some d \<Rightarrow> d = [] \<or>
          (case dict_id_from_dict lib d of
             None \<Rightarrow> False
           | Some i \<Rightarrow> registry i = Some d \<or> (registry i = None \<and> hint = Some d)))"

definition header_of :: "enc_block \<Rightarrow> parsed_block_header" where
  "header_of b = (case b of (btype, payload, checksum) \<Rightarrow>
     \<lparr>block_type = btype, payload_len = of_nat (length payload), logical_checksum = Some checksum,
      parsed_header_len = 16\<rparr>)"

definition decodes :: "codec_lib \<Rightarrow> (u32 \<rightharpoonup> bytes) \<Rightarrow> bytes option \<Rightarrow> block_store option \<Rightarrow> enc_block \<Rightarrow> bytes \<Rightarrow> bool" where
  "decodes lib registry hint store b c \<longleftrightarrow>
     decode_block_payload lib registry (fst (snd b)) (header_of b) (of_nat (length c)) hint store = Ok c"

lemma decode_compressed:
  assumes "zstd_lossless lib" "zstd_frames_name_dict lib" "dict_found lib registry hint dict"
    "zp_dict p = (case dict of None \<Rightarrow> [] | Some d \<Rightarrow> d)" "zstd_compress lib p chunk = Some c" "length chunk < 2 ^ 32"
  shows "decode_compressed_payload lib registry c hint (of_nat (length chunk)) = Ok chunk"
proof -
  let ?d = "zp_dict p"
  have frame: "dict_id_from_frame lib c = (if ?d = [] then None else dict_id_from_dict lib ?d)"
    using assms(2,5) by (simp add: zstd_frames_name_dict_def)
  have "dictionary_for_frame lib registry c hint = Ok (if ?d = [] then None else Some ?d)"
    using assms(3,4) frame by (auto simp: dictionary_for_frame_def dict_found_def split: option.splits if_splits)
  moreover have "unat (saturating_add (of_nat (length chunk)) (1 :: u64)) = length chunk + 1"
    using assms(6) by (simp add: saturating_add_def unat_of_nat unat_word_ariths)
  moreover have "zstd_decode lib ?d c = Some (chunk, False)" using zstd_losslessD(1) assms(1,5) .
  ultimately show ?thesis
    by (cases "?d = []") (simp_all add: decode_compressed_payload_def decode_limited_lossless)
qed

lemma tune_dict [simp]: "zp_dict (tune_block_compressor n level d) = d"
  by (simp add: tune_block_compressor_def)

lemma encode_logical_block_decodes:
  assumes "zstd_lossless lib" "zstd_frames_name_dict lib" "dict_found lib registry hint dict" "length chunk < 2 ^ 32"
    "dedup \<Longrightarrow> storable lib level chunk"
    "encode_logical_block lib now st chunk level dict dedup = (Ok b, st')"
  shows "blocks.evolves lib st st'" "blocks.evolves lib st' st'' \<Longrightarrow> decodes lib registry hint (Some st'') b chunk"
proof -
  have compressed: "decodes lib registry hint store (t, p, xxh3_64 lib chunk) chunk"
    if "compress_block lib chunk level dict = Ok (t, p)" for t p store
  proof -
    have "t = 1 \<and> p = chunk \<or> t = 0 \<and> decode_compressed_payload lib registry p hint (of_nat (length chunk)) = Ok chunk"
      using that decode_compressed [OF assms(1-3) tune_dict _ assms(4)]
      by (auto simp: compress_block_def Let_def result_simps split: if_splits)
    then show ?thesis by (auto simp: decodes_def header_of_def decode_block_payload_def verify_checksum_def)
  qed
  obtain r st1 where store: "dedup \<Longrightarrow> store_block lib now level st chunk = (r, st1)"
    by (cases "store_block lib now level st chunk")
  have u: "unat (of_nat (length chunk) :: u32) = length chunk" "unat (of_nat (length chunk) :: u64) = length chunk"
    using assms(4) by (simp_all add: unat_of_nat)
  then have uc: "(ucast (of_nat (length chunk) :: u32) :: u64) = of_nat (length chunk)"
    by (metis of_nat_unat_ucast)
  show "blocks.evolves lib st st'"
    using assms(6) store blocks.put_evolves [of lib now level st chunk r st1] blocks.evolves_refl
    by (auto simp: encode_logical_block_def Let_def split: if_splits option.splits)
  assume ev: "blocks.evolves lib st' st''"
  show "decodes lib registry hint (Some st'') b chunk"
  proof (cases "dedup \<and> r \<noteq> None")
    case True
    then obtain h where h: "r = Some h" by auto
    have b: "b = (2, to_le_bytes h @ to_le_bytes (of_nat (length chunk) :: u32), h)" "st' = st1"
      using assms(6) True store h by (auto simp: encode_logical_block_def Let_def)
    have good: "zstd_lossless lib \<and> storable lib level chunk" using assms(1,5) True by blast
    have put: "store_block lib now level st chunk = (Some h, st1)" using True store h by simp
    have "read_logical_block lib st'' h (length chunk) = Ok chunk"
      using blocks.put_get_later [OF put good] ev b by simp
    moreover have "xxh3_64 lib chunk = h"
      using store_block_get(1) [OF _ _ put] good by (simp add: hash_block_def)
    ultimately show ?thesis
      using u uc
      by (simp add: b decodes_def header_of_def decode_block_payload_def get_eqs codec_simps load_dedup_block_def
        verify_checksum_def)
  next
    case False
    then obtain t p where "compress_block lib chunk level dict = Ok (t, p)" "b = (t, p, xxh3_64 lib chunk)"
      using assms(6) store by (auto simp: encode_logical_block_def Let_def result_simps split: if_splits)
    then show ?thesis using compressed by simp
  qed
qed

lemma encode_chunks_decodes:
  assumes "zstd_lossless lib" "zstd_frames_name_dict lib" "dict_found lib registry hint (opt_dict opts)"
    "\<forall>c \<in> set cs. length c < 2 ^ 32 \<and> (opt_dedup opts \<longrightarrow> storable lib level c)"
    "encode_chunks lib now opts level cs st = (Ok bs, st')"
  shows "blocks.evolves lib st st' \<and>
    (\<forall>st''. blocks.evolves lib st' st'' \<longrightarrow> list_all2 (decodes lib registry hint (Some st'')) bs cs)"
  using assms(4,5)
proof (induction cs arbitrary: st bs)
  case Nil
  then show ?case by (simp add: blocks.evolves_refl)
next
  case (Cons c cs)
  obtain b st1 bs1 where e: "encode_logical_block lib now st c level (opt_dict opts) (opt_dedup opts) = (Ok b, st1)"
      "encode_chunks lib now opts level cs st1 = (Ok bs1, st')" "bs = b # bs1"
    using Cons.prems(2) by (auto simp: result_simps split: prod.splits result.splits)
  have c: "length c < 2 ^ 32" "opt_dedup opts \<Longrightarrow> storable lib level c" using Cons.prems(1) by auto
  have IH: "blocks.evolves lib st1 st'"
    "\<forall>st''. blocks.evolves lib st' st'' \<longrightarrow> list_all2 (decodes lib registry hint (Some st'')) bs1 cs"
    using Cons.IH [OF _ e(2)] Cons.prems(1) by simp_all
  note enc = encode_logical_block_decodes [OF assms(1-3) c e(1)]
  have "list_all2 (decodes lib registry hint (Some st'')) bs (c # cs)" if "blocks.evolves lib st' st''" for st''
    using enc(2) [of st''] IH that e(3) blocks.evolves_trans by (metis list_all2_Cons)
  with enc(1) IH(1) show ?case using blocks.evolves_trans by blast
qed

section \<open>A whole blob\<close>

text \<open>The blob an encoder writes for the blocks \<open>bs\<close> of the chunks \<open>cs\<close>, and its layout.\<close>

definition blob_of :: "u32 \<Rightarrow> u16 \<Rightarrow> u16 \<Rightarrow> u8 \<Rightarrow> enc_block list \<Rightarrow> bytes list \<Rightarrow> bytes" where
  "blob_of bsize did fl level bs cs =
     write_blob_header_v1 (of_nat (length (concat cs))) bsize (index_of 0 0 (zip bs (map length cs))) did fl level @
     concat (map block_bytes bs)"

definition layout_of :: "u32 \<Rightarrow> u16 \<Rightarrow> u16 \<Rightarrow> u8 \<Rightarrow> enc_block list \<Rightarrow> bytes list \<Rightarrow> blob_layout" where
  "layout_of bsize did fl level bs cs =
     \<lparr>layout_format = V1, logical_size = of_nat (length (concat cs)), block_size = bsize, dict_id = did,
      flags = fl OR NOSI_FLAG_HAS_LEVEL, zstd_level = level, index = index_of 0 0 (zip bs (map length cs)),
      data_offset = of_nat (25 + length bs * 16)\<rparr>"

definition sizes_ok :: "enc_block list \<Rightarrow> bytes list \<Rightarrow> bool" where
  "sizes_ok bs cs \<longleftrightarrow> length bs = length cs \<and> cs \<noteq> [] \<and> length cs \<le> MAX_BLOCK_COUNT \<and> (\<forall>c \<in> set cs. c \<noteq> []) \<and>
     length (concat cs) < 2 ^ 48 \<and> length (concat (map block_bytes bs)) < 2 ^ 53 \<and>
     (\<forall>b \<in> set bs. length (fst (snd b)) < 2 ^ 32)"

lemma sum_list_lengths: "sum_list (map length cs) = length (concat cs)"
  by (induction cs) auto

lemma zip_lengths:
  "length bs = length cs \<Longrightarrow> map snd (zip bs (map length cs)) = map length cs"
  "length bs = length cs \<Longrightarrow> concat (map (\<lambda>x. block_bytes (fst x)) (zip bs (map length cs))) = concat (map block_bytes bs)"
  using map_fst_zip_blocks [of bs "map length cs"] by simp_all

lemma wf_layout_of:
  assumes "sizes_ok bs cs"
  shows "wf_index (index_of 0 0 (zip bs (map length cs))) (of_nat (length (concat cs)))"
proof -
  have n: "length bs = length cs" using assms by (simp add: sizes_ok_def)
  have "\<forall>x \<in> set (zip bs (map length cs)). 0 < snd x"
    using assms by (auto simp: sizes_ok_def dest!: set_zip_rightD)
  then show ?thesis
    using wf_index_of [of "zip bs (map length cs)"] assms zip_lengths [OF n]
    by (simp add: sizes_ok_def sum_list_lengths)
qed

lemma parse_blob_of:
  assumes "sizes_ok bs cs"
  shows "parse_layout_bytes (blob_of bsize did fl level bs cs) = Ok (layout_of bsize did fl level bs cs)"
proof -
  have n: "length bs = length cs" "cs \<noteq> []" "length cs \<le> MAX_BLOCK_COUNT" using assms by (simp_all add: sizes_ok_def)
  then have ne: "index_of 0 0 (zip bs (map length cs)) \<noteq> []" "length (index_of 0 0 (zip bs (map length cs))) \<le> MAX_BLOCK_COUNT"
    by (cases bs; cases cs; simp)+
  show ?thesis
    using parse_header_v1 [OF ne wf_layout_of [OF assms]] n by (simp add: blob_of_def layout_of_def)
qed

lemma detect_blob_of: "detect_blob_format (blob_of bsize did fl level bs cs) = Nosi"
  by (simp add: blob_of_def write_blob_header_v1_def detect_nosi)

text \<open>Where block \<open>i\<close> lies in the blob.\<close>

lemma blob_of_split:
  assumes "i < length bs"
  obtains pre post where "blob_of bsize did fl level bs cs = pre @ block_bytes (bs ! i) @ post"
    "length pre = 25 + min (length bs) (length cs) * 16 + length (concat (map block_bytes (take i bs)))"
    "post = concat (map block_bytes (drop (Suc i) bs))"
proof -
  have "concat (map block_bytes bs) =
      concat (map block_bytes (take i bs)) @ block_bytes (bs ! i) @ concat (map block_bytes (drop (Suc i) bs))"
    by (subst id_take_nth_drop [OF assms]) simp
  then show thesis
    by (intro that [of "write_blob_header_v1 (of_nat (length (concat cs))) bsize (index_of 0 0 (zip bs (map length cs))) did fl level @
       concat (map block_bytes (take i bs))"]) (simp_all add: blob_of_def length_header_v1)
qed

lemma length_blocks_take:
  "i < length bs \<Longrightarrow> length (concat (map block_bytes (take (Suc i) bs))) =
     length (concat (map block_bytes (take i bs))) + length (block_bytes (bs ! i))"
  by (simp add: take_Suc_conv_app_nth)

lemma length_blocks_le: "length (concat (map block_bytes (take i bs))) \<le> length (concat (map block_bytes bs))"
  by (metis append_take_drop_id concat_append le_add1 length_append map_append)

lemma blob_file_offset:
  assumes "sizes_ok bs cs" "i < length bs"
  shows "file_offset_for_block (layout_of bsize did fl level bs cs) i =
    Ok (of_nat (25 + length bs * 16 + length (concat (map block_bytes (take i bs)))))"
proof -
  have n: "length bs = length cs" using assms by (simp add: sizes_ok_def)
  have "concat (map (\<lambda>x. block_bytes (fst x)) (take i (zip bs (map length cs)))) = concat (map block_bytes (take i bs))"
    using map_fst_zip_blocks [of "take i bs" "take i (map length cs)"] n by (simp add: take_zip)
  then show ?thesis
    using assms(2) n by (simp add: file_offset_for_block_def index_at_def layout_of_def nth_index_of)
qed

lemma blob_logical:
  assumes "sizes_ok bs cs" "i < length bs"
  shows "logical_start (layout_of bsize did fl level bs cs) i = Ok (of_nat (length (concat (take i cs))))"
    "logical_end (index (layout_of bsize did fl level bs cs) ! i) = of_nat (length (concat (take (Suc i) cs)))"
    "logical_len (layout_of bsize did fl level bs cs) i = Ok (of_nat (length (cs ! i)))"
proof -
  have n: "length bs = length cs" using assms by (simp add: sizes_ok_def)
  have e: "logical_end (index_of 0 0 (zip bs (map length cs)) ! j) = of_nat (length (concat (take (Suc j) cs)))"
    if "j < length cs" for j
  proof -
    have "map snd (take (Suc j) (zip bs (map length cs))) = map length (take (Suc j) cs)"
      using n by (simp add: take_zip take_map)
    then show ?thesis using that n by (simp add: nth_index_of sum_list_lengths)
  qed
  show start: "logical_start (layout_of bsize did fl level bs cs) i = Ok (of_nat (length (concat (take i cs))))"
    using e [of "i - 1"] assms(2) n by (cases i) (auto simp: logical_start_def index_at_def layout_of_def)
  show "logical_end (index (layout_of bsize did fl level bs cs) ! i) = of_nat (length (concat (take (Suc i) cs)))"
    using e [of i] assms(2) n by (simp add: layout_of_def)
  have len: "length (concat (take (Suc i) cs)) = length (concat (take i cs)) + length (cs ! i)"
    using assms(2) n by (simp add: take_Suc_conv_app_nth)
  have "length (concat (take (Suc i) cs)) \<le> length (concat cs)"
    by (metis append_take_drop_id concat_append le_add1 length_append)
  then have small: "length (concat (take i cs)) + length (cs ! i) < 2 ^ 48"
    using assms(1) len by (simp add: sizes_ok_def)
  have "unat (saturating_sub (of_nat (length (concat (take (Suc i) cs)))) (of_nat (length (concat (take i cs)))) :: u64) =
      unat (of_nat (length (cs ! i)) :: u64)"
    using small len by (simp add: unat_of_nat del: of_nat_add)
  then have "saturating_sub (of_nat (length (concat (take (Suc i) cs)))) (of_nat (length (concat (take i cs)))) =
      (of_nat (length (cs ! i)) :: u64)" by (rule unsigned_word_eqI)
  then show "logical_len (layout_of bsize did fl level bs cs) i = Ok (of_nat (length (cs ! i)))"
    using e [of i] start assms(2) n by (simp add: logical_len_def index_at_def layout_of_def)
qed

text \<open>Position of block \<open>i\<close> in the blob.\<close>

definition block_pos :: "enc_block list \<Rightarrow> nat \<Rightarrow> nat" where
  "block_pos bs i = 25 + length bs * 16 + length (concat (map block_bytes (take i bs)))"

lemma block_pos_Suc: "i < length bs \<Longrightarrow> block_pos bs (Suc i) = block_pos bs i + 16 + length (fst (snd (bs ! i)))"
  using length_block_bytes by (cases "bs ! i") (simp add: block_pos_def length_blocks_take)

lemma length_blob_of: "length bs = length cs \<Longrightarrow> length (blob_of bsize did fl level bs cs) = block_pos bs (length bs)"
  by (simp add: blob_of_def length_header_v1 block_pos_def)

lemma block_pos_small:
  assumes "sizes_ok bs cs"
  shows "block_pos bs i < 2 ^ 54"
  using assms length_blocks_le [of i bs] by (simp add: sizes_ok_def block_pos_def)

lemma block_pos_le: "i \<le> j \<Longrightarrow> block_pos bs i \<le> block_pos bs j"
  using length_blocks_le [of i "take j bs"] by (simp add: block_pos_def min_def)

lemma blob_block:
  assumes "sizes_ok bs cs" "i < length bs"
  shows "parse_block_header_at (blob_of bsize did fl level bs cs) (of_nat (block_pos bs i)) (layout_of bsize did fl level bs cs) =
      Ok (header_of (bs ! i))"
    "slice (block_pos bs i + 16) (block_pos bs (Suc i)) (blob_of bsize did fl level bs cs) = fst (snd (bs ! i))"
    "block_pos bs (Suc i) \<le> length (blob_of bsize did fl level bs cs)"
proof -
  have n: "length bs = length cs" using assms by (simp add: sizes_ok_def)
  obtain t p s where b: "bs ! i = (t, p, s)" by (cases "bs ! i")
  obtain pre post where B: "blob_of bsize did fl level bs cs = pre @ block_bytes (bs ! i) @ post"
    and pre: "length pre = block_pos bs i"
    using blob_of_split [OF assms(2), of bsize did fl level cs] n by (metis block_pos_def min.idem)
  show le: "block_pos bs (Suc i) \<le> length (blob_of bsize did fl level bs cs)"
    using length_blob_of [OF n] block_pos_le [of "Suc i" "length bs" bs] assms(2) by simp
  have len: "length (blob_of bsize did fl level bs cs) < 2 ^ 54"
    using length_blob_of [OF n] block_pos_small [OF assms(1)] by simp
  have B': "blob_of bsize did fl level bs cs = pre @ write_block_header_v1 [] t (of_nat (length p)) s @ p @ post"
    using B b by (simp add: block_bytes_def append_block_v1_def)
  have "length pre + 16 + length (p @ post) < 2 ^ 64" using len B' by simp
  then show "parse_block_header_at (blob_of bsize did fl level bs cs) (of_nat (block_pos bs i)) (layout_of bsize did fl level bs cs) =
      Ok (header_of (bs ! i))"
    unfolding B' using b pre
    by (subst parse_written_block_header) (simp_all add: layout_of_def header_of_def)
  show "slice (block_pos bs i + 16) (block_pos bs (Suc i)) (blob_of bsize did fl level bs cs) = fst (snd (bs ! i))"
    unfolding B' block_pos_Suc [OF assms(2)] using b pre by (simp add: slice_def)
qed

lemma blob_offset:
  assumes "sizes_ok bs cs" "i < length bs"
  shows "file_offset_for_block (layout_of bsize did fl level bs cs) i = Ok (of_nat (block_pos bs i))"
  using blob_file_offset [OF assms] by (simp add: block_pos_def)

lemma block_payload_len:
  assumes "sizes_ok bs cs" "i < length bs"
  shows "unat (payload_len (header_of (bs ! i))) = length (fst (snd (bs ! i)))" "parsed_header_len (header_of (bs ! i)) = 16"
    "(ucast (payload_len (header_of (bs ! i))) :: u64) = of_nat (length (fst (snd (bs ! i))))"
proof -
  have "length (fst (snd (bs ! i))) < 2 ^ 32" using assms by (simp add: sizes_ok_def)
  then show u: "unat (payload_len (header_of (bs ! i))) = length (fst (snd (bs ! i)))"
    by (cases "bs ! i") (simp add: header_of_def unat_of_nat)
  show "parsed_header_len (header_of (bs ! i)) = 16" by (cases "bs ! i") (simp add: header_of_def)
  show "(ucast (payload_len (header_of (bs ! i))) :: u64) = of_nat (length (fst (snd (bs ! i))))"
    unfolding of_nat_unat_ucast u ..
qed

lemma blob_payload:
  assumes "sizes_ok bs cs" "i < length bs"
  shows "block_payload (blob_of bsize did fl level bs cs) (header_of (bs ! i)) (of_nat (block_pos bs i)) =
    Ok (fst (snd (bs ! i)))"
proof -
  let ?p = "fst (snd (bs ! i))"
  have len: "block_pos bs i + 16 + length ?p < 2 ^ 54"
    using block_pos_small [OF assms(1), of "Suc i"] block_pos_Suc [OF assms(2)] by simp
  have u: "unat (of_nat (block_pos bs i + 16 + length ?p) :: u64) = block_pos bs i + 16 + length ?p"
    "unat (of_nat (block_pos bs i + 16) :: u64) = block_pos bs i + 16" "unat (of_nat (length ?p) :: u64) = length ?p"
    using len by (simp_all only: unat_of_nat, simp_all)
  have c: "checked_add (of_nat (block_pos bs i + 16)) (of_nat (length ?p)) = Some (of_nat (block_pos bs i + 16 + length ?p) :: u64)"
    unfolding checked_add_def u using len by simp
  have "of_nat (block_pos bs i) + of_nat 16 = (of_nat (block_pos bs i + 16) :: u64)" by (simp only: of_nat_add)
  then show ?thesis
    unfolding block_payload_def Let_def block_payload_len [OF assms] 
    using c u blob_block(2,3) [OF assms, of bsize did fl level] block_pos_Suc [OF assms(2)]
    by (simp add: slice_at_def not_less del: of_nat_add)
qed

lemma blob_read_block:
  assumes "sizes_ok bs cs" "i < length bs" "decodes lib registry hint store (bs ! i) (cs ! i)"
  shows "read_block_payload_bytes lib registry (blob_of bsize did fl level bs cs) (layout_of bsize did fl level bs cs) i hint store =
    Ok (cs ! i)"
  using assms blob_block(1) [OF assms(1,2)] blob_offset [OF assms(1,2)] blob_payload [OF assms(1,2)] blob_logical(3) [OF assms(1,2)]
  by (simp add: read_block_payload_bytes_def decodes_def)

lemma read_at_eq: "pos + n \<le> length data \<Longrightarrow> read_at pos n data = Ok (slice pos (pos + n) data)"
  by (simp add: read_at_def read_exact_def slice_def)

lemma parse_header_alone:
  assumes "pos + 16 \<le> length data" "length data < 2 ^ 64" "layout_format l = V1"
  shows "parse_block_header_at (slice pos (pos + 16) data) 0 l = parse_block_header_at data (of_nat pos) l"
proof -
  have u: "unat (of_nat pos :: u64) = pos" using assms by (simp add: unat_of_nat)
  have sl: "slice a b (slice pos (pos + 16) data) = slice (pos + a) (pos + b) data" if "b \<le> 16" for a b
    using that by (simp add: slice_def drop_take add.commute min_def)
  have "slice pos (pos + 16) data ! 0 = data ! pos" using assms by (simp add: slice_def)
  then show ?thesis
    using assms u sl by (subst (1 2) parse_block_header_Ok) (simp_all add: block_header_len_def)
qed

lemma blob_extent:
  assumes "sizes_ok bs cs" "i < length bs"
    and B_def: "B = blob_of bsize did fl level bs cs" and L_def: "L = layout_of bsize did fl level bs cs"
  shows "block_extent B (of_nat (length B)) L i =
      Ok (of_nat (block_pos bs i), of_nat (block_pos bs (Suc i)), header_of (bs ! i))"
    "payload_at B L (of_nat (block_pos bs i)) (of_nat (block_pos bs (Suc i))) (header_of (bs ! i)) = Ok (fst (snd (bs ! i)))"
proof -
  let ?p = "fst (snd (bs ! i))"
  have n: "length bs = length cs" using assms by (simp add: sizes_ok_def)
  have L: "block_header_len L = 16" "layout_format L = V1" "block_count L = length bs"
    using n by (simp_all add: L_def layout_of_def block_header_len_def block_count_def)
  have stop: "(if i + 1 < block_count L then file_offset_for_block L (i + 1) else Ok (of_nat (length B))) =
      Ok (of_nat (block_pos bs (Suc i)))"
  proof (cases "Suc i < length bs")
    case False
    then have "Suc i = length bs" using assms(2) by simp
    then show ?thesis using L length_blob_of [OF n] by (simp add: B_def)
  qed (use L blob_offset [OF assms(1)] in \<open>simp add: L_def\<close>)
  note small = block_pos_small [OF assms(1), of "Suc i"] block_pos_small [OF assms(1), of "length bs"]
  have len: "block_pos bs i + 16 + length ?p \<le> length B" "length B < 2 ^ 54"
    using blob_block(3) [OF assms(1,2)] block_pos_Suc [OF assms(2)] small length_blob_of [OF n] by (simp_all add: B_def)
  have u: "unat (of_nat m :: u64) = m" if "m < 2 ^ 54" for m using that by (simp add: unat_of_nat)
  have le: "\<not> (of_nat (length B) :: u64) < of_nat (block_pos bs (Suc i))"
    "\<not> of_nat (block_pos bs (Suc i)) < (saturating_add (of_nat (block_pos bs i)) (of_nat 16) :: u64)"
    using len block_pos_Suc [OF assms(2)] by (simp_all add: word_less_nat_alt saturating_add_def u unat_word_ariths)
  have header: "parse_block_header_at (slice (block_pos bs i) (block_pos bs i + 16) B) 0 L = Ok (header_of (bs ! i))"
    using blob_block(1) [OF assms(1,2)] parse_header_alone [of "block_pos bs i" B L] len L by (simp add: B_def L_def)
  show "block_extent B (of_nat (length B)) L i =
      Ok (of_nat (block_pos bs i), of_nat (block_pos bs (Suc i)), header_of (bs ! i))"
    unfolding block_extent_def stop L(1) Let_def
    using le header len blob_offset [OF assms(1,2), of bsize did fl level, folded L_def] u [of "block_pos bs i"]
    by (simp add: read_at_eq)
  have "unat (of_nat (block_pos bs (Suc i)) - of_nat (block_pos bs i) :: u64) = 16 + length ?p"
    using len block_pos_Suc [OF assms(2)] u [of "block_pos bs i"] u [of "block_pos bs (Suc i)"]
    by (subst unat_sub) (simp_all add: word_le_nat_alt)
  moreover have "unat (of_nat 16 + of_nat (length ?p) :: u64) = 16 + length ?p"
    using len by (simp add: unat_word_ariths unat_of_nat)
  ultimately have fits: "\<not> of_nat (block_pos bs (Suc i)) - of_nat (block_pos bs i) < (of_nat 16 + of_nat (length ?p) :: u64)"
    by (simp add: word_less_nat_alt)
  show "payload_at B L (of_nat (block_pos bs i)) (of_nat (block_pos bs (Suc i))) (header_of (bs ! i)) = Ok ?p"
    using fits len u [of "block_pos bs i"] blob_block(2) [OF assms(1,2)] block_pos_Suc [OF assms(2)]
    by (simp add: payload_at_def Let_def L(1) block_payload_len [OF assms(1,2)] read_at_eq B_def)
qed

lemma blob_read_plain:
  assumes "sizes_ok bs cs" "i < length bs" "decodes lib registry hint store (bs ! i) (cs ! i)"
  shows "read_block_plain lib registry (blob_of bsize did fl level bs cs) (of_nat (length (blob_of bsize did fl level bs cs)))
     (layout_of bsize did fl level bs cs) i hint store = Ok (cs ! i)"
  using assms blob_extent [OF assms(1,2) refl refl] blob_logical(3) [OF assms(1,2)]
  by (simp add: read_block_plain_def decodes_def)

section \<open>Whole objects and ranges\<close>

lemma decode_blocks_eq:
  assumes "\<And>i. i \<in> set is \<Longrightarrow> read_block_payload_bytes lib registry blob l i dict store = Ok (f i)"
  shows "decode_blocks lib registry blob l dict store is = Ok (concat (map f is))"
  using assms by (induction "is") simp_all

lemma decompress_blob_of:
  assumes "sizes_ok bs cs" "list_all2 (decodes lib registry hint store) bs cs"
  shows "decompress_blob lib registry (blob_of bsize did fl level bs cs) (of_nat (length (concat cs))) hint store = Ok (concat cs)"
proof -
  have n: "length bs = length cs" using assms by (simp add: sizes_ok_def)
  have "read_block_payload_bytes lib registry (blob_of bsize did fl level bs cs) (layout_of bsize did fl level bs cs) i hint store =
      Ok (cs ! i)" if "i \<in> set [0..<length cs]" for i
    using that assms n by (intro blob_read_block) (auto simp: list_all2_conv_all_nth)
  from decode_blocks_eq [of "[0..<length cs]", OF this] have "decode_blocks lib registry (blob_of bsize did fl level bs cs)
      (layout_of bsize did fl level bs cs) hint store [0..<length cs] = Ok (concat cs)" by (simp add: map_nth)
  then show ?thesis
    using parse_blob_of [OF assms(1)] n
    by (simp add: decompress_blob_def detect_blob_of decompress_indexed_blob_def) (simp add: layout_of_def)
qed

lemma slice_concat_nth: "i < length cs \<Longrightarrow> slice (length (concat (take i cs))) (length (concat (take (Suc i) cs))) (concat cs) = cs ! i"
  by (subst (3) id_take_nth_drop [of i cs]) (simp_all add: take_Suc_conv_app_nth slice_def)

lemma blob_blocks_hold:
  assumes "sizes_ok bs cs" "list_all2 (decodes lib registry hint store) bs cs"
  shows "blocks_hold (\<lambda>i. read_block_plain lib registry (blob_of bsize did fl level bs cs)
      (of_nat (length (blob_of bsize did fl level bs cs))) (layout_of bsize did fl level bs cs) i hint store)
    (layout_of bsize did fl level bs cs) (concat cs)"
proof -
  have n: "length bs = length cs" "length (concat cs) < 2 ^ 48" using assms by (simp_all add: sizes_ok_def)
  have u: "unat (of_nat (length (concat (take j cs))) :: u64) = length (concat (take j cs))" for j
  proof -
    have "length (concat (take j cs)) \<le> length (concat cs)"
      by (metis append_take_drop_id concat_append le_add1 length_append)
    then show ?thesis using n(2) by (simp add: unat_of_nat)
  qed
  show ?thesis
    unfolding blocks_hold_def
  proof (intro conjI allI impI)
    show "wf_index (index (layout_of bsize did fl level bs cs)) (logical_size (layout_of bsize did fl level bs cs))"
      using wf_layout_of [OF assms(1)] by (simp add: layout_of_def)
    show "unat (logical_size (layout_of bsize did fl level bs cs)) = length (concat cs)"
      using u [of "length cs"] by (simp add: layout_of_def)
    fix i assume "i < length (index (layout_of bsize did fl level bs cs))"
    then have i: "i < length bs" "i < length cs" using n by (simp_all add: layout_of_def)
    have d: "decodes lib registry hint store (bs ! i) (cs ! i)" using assms(2) i by (simp add: list_all2_conv_all_nth)
    show "\<exists>s. logical_start (layout_of bsize did fl level bs cs) i = Ok s \<and>
        read_block_plain lib registry (blob_of bsize did fl level bs cs) (of_nat (length (blob_of bsize did fl level bs cs)))
          (layout_of bsize did fl level bs cs) i hint store =
        Ok (slice (unat s) (unat (logical_end (index (layout_of bsize did fl level bs cs) ! i))) (concat cs))"
      using blob_logical(1,2) [OF assms(1) i(1), of bsize did fl level] blob_read_plain [OF assms(1) i(1) d, of bsize did fl level]
        u [of i] u [of "Suc i"] slice_concat_nth [OF i(2)]
      by simp
  qed
qed

section \<open>What the encoder leaves\<close>

text \<open>A stored blob is the object itself, which does not look like a blob, or the blob of its blocks.\<close>

abbreviation encoded_blob :: "encode_options \<Rightarrow> int \<Rightarrow> nat \<Rightarrow> enc_block list \<Rightarrow> bytes \<Rightarrow> bytes" where
  "encoded_blob opts level bsize bs content \<equiv>
     blob_of (of_nat bsize) (opt_dict_id opts) (dedup_flags opts) (word_of_int (clamp_zstd_level level)) bs (chunks bsize content)"

lemma encode_blob_cases:
  assumes "0 < bsize" "length content < 2 ^ 48" "ctx_logical_size ctx = of_nat (length content)" "0 < min_size ctx"
    "encode_blob_for_storage lib now content level bsize ctx opts st = (Ok blob, st')"
  obtains (raw) "blob = content" "detect_blob_format content = Raw"
  | (indexed) bs where "encode_chunks lib now opts level (chunks bsize content) st = (Ok bs, st')"
      "blob = encoded_blob opts level bsize bs content" "content \<noteq> []"
proof -
  have empty: "should_attempt_compression ctx = False" "\<not> raw_would_be_misread content" if "content = []"
    using that assms(3,4) by (simp_all add: should_attempt_compression_def raw_would_be_misread_def detect_blob_format_def magic_defs)
  have misread: "raw_would_be_misread content \<longleftrightarrow> detect_blob_format content \<noteq> Raw"
    using detect_take [of 24 content] by (simp add: raw_would_be_misread_def)
  have con: "concat (chunks bsize content) = content" using concat_chunks [OF assms(1)] .
  obtain r st1 where enc: "encode_chunks lib now opts level (chunks bsize content) st = (r, st1)"
    by (cases "encode_chunks lib now opts level (chunks bsize content) st")
  note reader = encode_blocks_from_reader_eq [OF assms(1), of content lib now level opts st, unfolded enc, simplified]
  have eq: "(blob = content \<and> detect_blob_format content = Raw) \<or>
     (content \<noteq> [] \<and> (\<exists>bs. r = Ok bs \<and> st1 = st' \<and> blob = encoded_blob opts level bsize bs content))"
    using assms(2,5) empty misread reader
    by (cases r) (auto simp: encode_blob_for_storage_def Let_def blob_of_def con split: if_splits)
  show thesis using eq raw indexed enc by blast
qed

lemma encode_chunks_payloads:
  assumes "encode_chunks lib now opts level cs st = (Ok bs, st')" "\<forall>c \<in> set cs. length c < 2 ^ 32"
  shows "\<forall>b \<in> set bs. length (fst (snd b)) < 2 ^ 32"
  using assms
proof (induction cs arbitrary: st bs)
  case (Cons c cs)
  then obtain t p s st1 bs1 where e: "encode_logical_block lib now st c level (opt_dict opts) (opt_dedup opts) = (Ok (t, p, s), st1)"
      "encode_chunks lib now opts level cs st1 = (Ok bs1, st')" "bs = (t, p, s) # bs1"
    by (auto simp: result_simps split: prod.splits result.splits)
  show ?case
    using encode_logical_block_length [OF e(1)] Cons.IH [OF e(2)] Cons.prems(2) e(3)
    by (auto simp: max_def split: if_splits)
qed simp

lemma encoded_sizes_ok:
  assumes "0 < bsize" "bsize < 2 ^ 32" "length content < 2 ^ 48" "length (chunks bsize content) \<le> MAX_BLOCK_COUNT" "content \<noteq> []"
    "encode_chunks lib now opts level (chunks bsize content) st = (Ok bs, st')"
  shows "sizes_ok bs (chunks bsize content)"
proof -
  have "\<forall>c \<in> set (chunks bsize content). length c < 2 ^ 32" using chunks_bounds assms(2) by fastforce
  from encode_chunks_payloads [OF assms(6) this] show ?thesis
    using assms encode_chunks_length [OF assms(6)] encoding_small(1) [OF assms(1,3,6)] chunks_bounds concat_chunks [OF assms(1), of content]
    by (auto simp: sizes_ok_def)
qed

text \<open>The conditions under which an upload is read back.\<close>

definition upload_ok :: "codec_lib \<Rightarrow> int \<Rightarrow> nat \<Rightarrow> compression_context \<Rightarrow> encode_options \<Rightarrow> bytes \<Rightarrow> bool" where
  "upload_ok lib level bsize ctx opts content \<longleftrightarrow>
     0 < bsize \<and> bsize < 2 ^ 32 \<and> length content < 2 ^ 48 \<and> length (chunks bsize content) \<le> MAX_BLOCK_COUNT \<and>
     ctx_logical_size ctx = of_nat (length content) \<and> 0 < min_size ctx \<and>
     (opt_dedup opts \<longrightarrow> (\<forall>c \<in> set (chunks bsize content). storable lib level c))"

lemma stored_blob_cases:
  assumes "zstd_lossless lib" "zstd_frames_name_dict lib" "dict_found lib registry hint (opt_dict opts)"
    "upload_ok lib level bsize ctx opts content"
    "encode_blob_for_storage lib now content level bsize ctx opts st = (Ok blob, st')" "blocks.evolves lib st' st''"
  obtains (raw) "blob = content" "detect_blob_format content = Raw"
  | (indexed) bs where "sizes_ok bs (chunks bsize content)" "blob = encoded_blob opts level bsize bs content"
      "list_all2 (decodes lib registry hint (Some st'')) bs (chunks bsize content)" "concat (chunks bsize content) = content"
proof -
  have up: "0 < bsize" "bsize < 2 ^ 32" "length content < 2 ^ 48" "length (chunks bsize content) \<le> MAX_BLOCK_COUNT"
    "ctx_logical_size ctx = of_nat (length content)" "0 < min_size ctx"
    "opt_dedup opts \<longrightarrow> (\<forall>c \<in> set (chunks bsize content). storable lib level c)"
    using assms(4) by (auto simp: upload_ok_def)
  have small: "\<forall>c \<in> set (chunks bsize content). length c < 2 ^ 32 \<and> (opt_dedup opts \<longrightarrow> storable lib level c)"
    using chunks_bounds up(2,7) by fastforce
  show thesis
  proof (rule encode_blob_cases [OF up(1,3,5,6) assms(5)])
    fix bs assume bs: "encode_chunks lib now opts level (chunks bsize content) st = (Ok bs, st')"
      "blob = encoded_blob opts level bsize bs content" "content \<noteq> []"
    show thesis
      using indexed [OF encoded_sizes_ok [OF up(1-4) bs(3,1)] bs(2)] concat_chunks [OF up(1), of content]
        encode_chunks_decodes [OF assms(1-3) small bs(1)] assms(6) by blast
  qed (rule raw)
qed

section \<open>References of an upload\<close>

lemma encode_logical_block_ref:
  assumes "encode_logical_block lib now st chunk level dict dedup = (Ok (t, p, s), st')" "t = BLOCK_DEDUP_REF"
  shows "dedup" "p = to_le_bytes s @ to_le_bytes (of_nat (length chunk) :: u32)"
  using assms
  by (auto simp: encode_logical_block_def compress_block_def Let_def result_simps split: if_splits option.splits prod.splits)

lemma encode_chunks_refs:
  assumes "encode_chunks lib now opts level cs st = (Ok bs, st')"
  shows "list_all2 (\<lambda>b c. fst b = BLOCK_DEDUP_REF \<longrightarrow> opt_dedup opts \<and>
    fst (snd b) = to_le_bytes (snd (snd b)) @ to_le_bytes (of_nat (length c) :: u32)) bs cs"
  using assms
proof (induction cs arbitrary: st bs)
  case (Cons c cs)
  then obtain t p s st1 bs1 where e: "encode_logical_block lib now st c level (opt_dict opts) (opt_dedup opts) = (Ok (t, p, s), st1)"
      "encode_chunks lib now opts level cs st1 = (Ok bs1, st')" "bs = (t, p, s) # bs1"
    by (auto simp: result_simps split: prod.splits result.splits)
  show ?case using encode_logical_block_ref [OF e(1)] Cons.IH [OF e(2)] e(3) by simp
qed simp

lemma collect_refs_step:
  assumes "sizes_ok bs cs" "i < length bs"
    "fst (bs ! i) = BLOCK_DEDUP_REF \<longrightarrow> fst (snd (bs ! i)) = to_le_bytes (snd (snd (bs ! i))) @ to_le_bytes (of_nat (length (cs ! i)) :: u32)"
    and R_def: "R = collect_refs (blob_of bsize did fl level bs cs) (layout_of bsize did fl level bs cs)"
  shows "R (i # is) = and_then (R is) (\<lambda>refs. Ok (block_refs [(bs ! i, length (cs ! i))] @ refs))"
proof -
  obtain t p s where b: "bs ! i = (t, p, s)" by (cases "bs ! i")
  have len: "block_pos bs i + 16 + length p < 2 ^ 54"
    using block_pos_small [OF assms(1), of "Suc i"] block_pos_Suc [OF assms(2)] b by simp
  have u: "unat (of_nat (block_pos bs i + 16 + length p) :: u64) = block_pos bs i + 16 + length p"
    "unat (of_nat (block_pos bs i + 16) :: u64) = block_pos bs i + 16"
    using len by (simp_all only: unat_of_nat, simp_all)
  have h: "header_of (t, p, s) = \<lparr>block_type = t, payload_len = of_nat (length p), logical_checksum = Some s, parsed_header_len = 16\<rparr>"
    by (simp add: header_of_def)
  have sums: "of_nat (block_pos bs i) + of_nat 16 = (of_nat (block_pos bs i + 16) :: u64)"
    "of_nat (block_pos bs i + 16) + of_nat (length p) = (of_nat (block_pos bs i + 16 + length p) :: u64)"
    by (simp_all only: of_nat_add)
  note pl = block_payload_len(3) [OF assms(1,2), unfolded b h, simplified]
  note facts = blob_block [OF assms(1,2), of bsize did fl level] blob_offset [OF assms(1,2), of bsize did fl level]
  show ?thesis
  proof (cases "t = BLOCK_DEDUP_REF")
    case False
    then show ?thesis using facts b h by (cases "R is") (simp_all add: R_def block_refs_def)
  next
    case True
    have p: "p = to_le_bytes s @ to_le_bytes (of_nat (length (cs ! i)) :: u32)" using assms(3) True b by simp
    have p12: "length p = 12" by (simp add: p)
    have "collect_refs (blob_of bsize did fl level bs cs) (layout_of bsize did fl level bs cs) (i # is) =
      and_then (get_u64 0 p) (\<lambda>h. and_then (get_u32 8 p) (\<lambda>s. and_then (R is) (\<lambda>refs. Ok ((h, s) # refs))))"
      using facts b True u sums pl p12 block_pos_Suc [OF assms(2)]
      by (simp add: header_of_def R_def slice_at_def Let_def not_less del: of_nat_add)
    then show ?thesis
      by (simp add: R_def p get_eqs codec_simps block_refs_def b True)
  qed
qed

lemma collect_refs_eq:
  assumes "sizes_ok bs cs" "k \<le> length bs"
    "list_all2 (\<lambda>b c. fst b = BLOCK_DEDUP_REF \<longrightarrow> fst (snd b) = to_le_bytes (snd (snd b)) @ to_le_bytes (of_nat (length c) :: u32)) bs cs"
  shows "collect_refs (blob_of bsize did fl level bs cs) (layout_of bsize did fl level bs cs) [k..<length bs] =
    Ok (block_refs (zip (drop k bs) (map length (drop k cs))))"
  using assms(2)
proof (induction "length bs - k" arbitrary: k)
  case 0
  then show ?case by (simp add: block_refs_def)
next
  case (Suc n)
  then have k: "k < length bs" "k < length cs" using assms(1) by (simp_all add: sizes_ok_def)
  have refs: "fst (bs ! k) = BLOCK_DEDUP_REF \<longrightarrow>
      fst (snd (bs ! k)) = to_le_bytes (snd (snd (bs ! k))) @ to_le_bytes (of_nat (length (cs ! k)) :: u32)"
    using assms(3) k by (simp add: list_all2_conv_all_nth)
  have hd: "block_refs (x # xs) = block_refs [x] @ block_refs xs" for x xs by (simp add: block_refs_def)
  have "collect_refs (blob_of bsize did fl level bs cs) (layout_of bsize did fl level bs cs) [Suc k..<length bs] =
      Ok (block_refs (zip (drop (Suc k) bs) (map length (drop (Suc k) cs))))"
    using Suc k by (intro Suc.hyps) simp_all
  then show ?case
    using collect_refs_step [OF assms(1) k(1) refs refl, of bsize did fl level] k
      hd [of "(bs ! k, length (cs ! k))" "zip (drop (Suc k) bs) (map length (drop (Suc k) cs))"]
    by (simp add: upt_conv_Cons Cons_nth_drop_Suc [symmetric] del: collect_refs.simps)
qed

lemma block_refs_none: "\<forall>b \<in> set bs. fst b \<noteq> BLOCK_DEDUP_REF \<Longrightarrow> block_refs (zip bs ns) = []"
  by (fastforce simp: block_refs_def filter_empty_conv dest: set_zip_leftD)

lemma encoded_refs:
  assumes "sizes_ok bs (chunks bsize content)" "encode_chunks lib now opts level (chunks bsize content) st = (Ok bs, st')"
  shows "collect_dedup_refs (encoded_blob opts level bsize bs content) = Ok (block_refs (zip bs (map length (chunks bsize content))))"
proof -
  let ?cs = "chunks bsize content"
  have n: "length bs = length ?cs" using assms by (simp add: sizes_ok_def)
  note refs = encode_chunks_refs [OF assms(2)]
  have count: "block_count (layout_of b did fl lev bs ?cs) = length bs" for b did fl lev
    using n by (simp add: layout_of_def block_count_def)
  have dedup: "uses_dedup_blocks (layout_of b did (dedup_flags opts) lev bs ?cs) \<longleftrightarrow> opt_dedup opts" for b did lev
    by (simp add: layout_of_def uses_dedup_blocks_def dedup_flags_def NOSI_FLAG_DEDUP_def NOSI_FLAG_HAS_LEVEL_def)
  show ?thesis
  proof (cases "opt_dedup opts")
    case True
    have "list_all2 (\<lambda>b c. fst b = BLOCK_DEDUP_REF \<longrightarrow>
        fst (snd b) = to_le_bytes (snd (snd b)) @ to_le_bytes (of_nat (length c) :: u32)) bs ?cs"
      using refs by (auto elim!: list_all2_mono)
    from collect_refs_eq [OF assms(1) _ this, of 0] True show ?thesis
      by (simp add: collect_dedup_refs_def detect_blob_of parse_blob_of [OF assms(1)] dedup count)
  next
    case False
    then have "\<forall>b \<in> set bs. fst b \<noteq> BLOCK_DEDUP_REF"
      using refs by (fastforce simp: list_all2_conv_all_nth in_set_conv_nth)
    then show ?thesis
      using False by (simp add: collect_dedup_refs_def detect_blob_of parse_blob_of [OF assms(1)] dedup block_refs_none)
  qed
qed

lemma range_read_blob:
  assumes "sizes_ok bs cs" "list_all2 (decodes lib registry hint store) bs cs" "start + len \<le> length (concat cs)"
  shows "\<exists>r. reader_from_file (blob_of bsize did fl level bs cs) (of_nat (length (concat cs))) (of_nat start) (of_nat len)
      hint store cache = Ok r \<and>
    (reader_truthful lib lru alpha registry r cache \<longrightarrow>
      (\<exists>cache'. pump_blocking lib lru registry r [] = Some (Ok (slice start (start + len) (concat cs)), cache')))"
proof -
  define content where "content = concat cs"
  define l where "l = layout_of bsize did fl level bs cs"
  define blob where "blob = blob_of bsize did fl level bs cs"
  have small: "length content < 2 ^ 48" "start + len \<le> length content"
    using assms by (simp_all add: sizes_ok_def content_def)
  have u: "unat (of_nat m :: u64) = m" if "m \<le> length content" for m
    using that small by (simp add: unat_of_nat)
  have le: "start \<le> length content" "len \<le> length content" using small(2) by simp_all
  have n: "length bs = length cs" "cs \<noteq> []" using assms(1) by (simp_all add: sizes_ok_def)
  have "length (index l) = length cs" using n by (simp add: l_def layout_of_def)
  then have "index l \<noteq> []" using n by auto
  then have l: "logical_size l = of_nat (length content)" "index l \<noteq> []"
    by (simp_all add: l_def layout_of_def content_def)
  have layout: "read_indexed_layout blob (of_nat (length content)) = Ok (of_nat (length blob), l)"
    using parse_blob_of [OF assms(1), of bsize did fl level] l read_layout_iff [of blob l]
    by (simp add: read_indexed_layout_def blob_def l_def)
  have chk: "checked_add (of_nat start) (of_nat len) = Some (of_nat (start + len) :: u64)"
    unfolding checked_add_def u [OF le(1)] u [OF le(2)] using small by simp
  have le': "(of_nat (start + len) :: u64) \<le> of_nat (length content)" "(of_nat start :: u64) \<le> of_nat (start + len)"
    using small by (simp_all add: of_nat_le_iff64 del: of_nat_add)
  define full where "full \<longleftrightarrow> (of_nat start :: u64) = 0 \<and> (of_nat len :: u64) = of_nat (length content)"
  define r where "r = \<lparr>rd_file = blob, rd_file_len = of_nat (length blob), rd_layout = l, rd_dict = hint,
    rd_store = store, rd_cache = cache, rd_populate = (\<not> full),
    rd_block = block_for_offset l (of_nat start), rd_pos = of_nat start, rd_end = of_nat (start + len)\<rparr>"
  have r: "rd_cache r = cache" "rd_pos r = of_nat start" "rd_end r = of_nat (start + len)" "rd_layout r = l"
    "rd_block r = block_for_offset l (of_nat start)" by (simp_all add: r_def)
  have reader: "reader_from_file blob (of_nat (length content)) (of_nat start) (of_nat len) hint store cache = Ok r"
    unfolding reader_from_file_def layout chk using le'(1) by (simp add: r_def full_def del: of_nat_add)
  have hold: "blocks_hold (reader_plain lib registry r) (rd_layout r) content"
    using blob_blocks_hold [OF assms(1,2), of bsize did fl level]
    by (simp add: r_def reader_plain_def [abs_def] blob_def l_def content_def)
  then have wf: "wf_index (index l) (logical_size l)" by (simp add: blocks_hold_def r)
  have first: "rd_block r < length (index (rd_layout r)) \<and>
      (\<exists>s. logical_start (rd_layout r) (rd_block r) = Ok s \<and> s \<le> rd_pos r) \<and>
      rd_pos r < logical_end (index (rd_layout r) ! rd_block r)" if "rd_pos r < rd_end r"
  proof -
    have "(of_nat start :: u64) < logical_size l" using that le'(1) unfolding r l(1) by (rule less_le_trans)
    from block_for_offset_spec [OF wf this] show ?thesis
      unfolding r by (auto simp: logical_start_def index_at_def)
  qed
  have end_le: "rd_pos r \<le> rd_end r" "rd_end r \<le> logical_size (rd_layout r)" unfolding r l(1) by (rule le')+
  have "\<exists>cache'. pump_blocking lib lru registry r [] = Some (Ok (slice start (start + len) content), cache')"
    if "reader_truthful lib lru alpha registry r cache"
    using pump_correct [of lib lru alpha registry r content "[]", unfolded r(1), OF that hold end_le first]
    unfolding r u [OF le(1)] u [OF small(2)] by simp
  with reader show ?thesis unfolding blob_def content_def by blast
qed

lemma encode_file_cases:
  assumes "4096 \<le> bsize" "length content < 2 ^ 48"
    "compress_file_to_storage lib now content final (of_nat (length content)) level bsize ctx opts st = (Ok (refs, Some blob), st')"
  obtains (raw) "refs = []" "blob = content" "detect_blob_format content = Raw"
  | (indexed) bs where "encode_chunks lib now opts level (chunks bsize content) st = (Ok bs, st')"
      "blob = encoded_blob opts level bsize bs content" "refs = block_refs (zip bs (map length (chunks bsize content)))"
      "content = [] \<longrightarrow> should_attempt_compression ctx"
proof -
  have pos: "0 < bsize" "max bsize 4096 = bsize" using assms(1) by simp_all
  have con: "concat (chunks bsize content) = content" using concat_chunks [OF pos(1)] .
  have empty: "\<not> raw_would_be_misread (take 24 content)" if "content = []"
    using that by (simp add: raw_would_be_misread_def detect_blob_format_def magic_defs)
  have misread: "raw_would_be_misread (take 24 content) \<longleftrightarrow> detect_blob_format content \<noteq> Raw"
    using detect_take [of 24 content] by (simp add: raw_would_be_misread_def)
  obtain r st1 where enc: "encode_chunks lib now opts level (chunks bsize content) st = (r, st1)"
    by (cases "encode_chunks lib now opts level (chunks bsize content) st")
  note to_file = encode_blocks_to_file_eq [OF pos(1) assms(2), of lib now level opts st, unfolded enc, simplified]
  have eq: "(refs = [] \<and> blob = content \<and> detect_blob_format content = Raw) \<or>
     ((content = [] \<longrightarrow> should_attempt_compression ctx) \<and>
       (\<exists>bs. r = Ok bs \<and> st1 = st' \<and> blob = encoded_blob opts level bsize bs content \<and>
        refs = block_refs (zip bs (map length (chunks bsize content)))))"
    using assms(3) empty misread to_file
    by (cases r) (auto simp: compress_file_to_storage_def encode_file_for_storage_def Let_def blob_of_def con pos(2) split: if_splits)
  show thesis using eq raw indexed enc by blast
qed

lemma stored_refs:
  assumes "4096 \<le> bsize" "upload_ok lib level bsize ctx opts content"
    "compress_file_to_storage lib now content final (of_nat (length content)) level bsize ctx opts st = (Ok (refs, Some blob), st')"
  shows "collect_dedup_refs blob = Ok refs"
proof -
  have up: "0 < bsize" "bsize < 2 ^ 32" "length content < 2 ^ 48" "length (chunks bsize content) \<le> MAX_BLOCK_COUNT"
    using assms(2) by (auto simp: upload_ok_def)
  have empty: "\<not> should_attempt_compression ctx" if "content = []"
    using that assms(2) by (simp add: should_attempt_compression_def upload_ok_def)
  show ?thesis
  proof (rule encode_file_cases [OF assms(1) up(3) assms(3)])
    fix bs assume bs: "encode_chunks lib now opts level (chunks bsize content) st = (Ok bs, st')"
      "blob = encoded_blob opts level bsize bs content" "refs = block_refs (zip bs (map length (chunks bsize content)))"
      "content = [] \<longrightarrow> should_attempt_compression ctx"
    then have "content \<noteq> []" using empty by blast
    from encoded_refs [OF encoded_sizes_ok [OF up this bs(1)] bs(1)] show ?thesis using bs by simp
  qed (simp add: collect_dedup_refs_def)
qed

section \<open>Too many blocks\<close>

lemma parse_too_many:
  assumes "MAX_BLOCK_COUNT < length idx" "length idx < 2 ^ 32"
    and data_def: "data = write_blob_header_v1 lsize bsize idx did fl level @ rest"
  shows "parse_layout_bytes data = Err (Internal ''block count exceeds limit'')"
    "read_blob_layout data = Err (Internal ''block count exceeds limit'')"
proof -
  have len: "length data = 25 + length idx * 16 + length rest"
    by (simp add: data_def write_blob_header_v1_def)
  have fields: "slice 4 12 data = to_le_bytes lsize" "slice 12 16 data = to_le_bytes bsize"
    "slice 16 20 data = to_le_bytes (of_nat (length idx) :: u32)"
    "slice 20 22 data = to_le_bytes did" "slice 22 24 data = to_le_bytes (fl OR NOSI_FLAG_HAS_LEVEL)"
    "data ! 24 = level"
    by (simp_all add: data_def write_blob_header_v1_def codec_simps nth_append)
  have det: "detect_blob_format data = Nosi" by (simp add: data_def write_blob_header_v1_def detect_nosi)
  have count: "unat (of_nat (length idx) :: u32) = length idx" using assms(2) by (simp add: unat_of_nat)
  have ni: "nosi_header_info data (fl OR NOSI_FLAG_HAS_LEVEL) = Ok (25, level)"
    using len fields(6) by (simp add: nosi_header_info_def has_level_or get_u8_def)
  show "parse_layout_bytes data = Err (Internal ''block count exceeds limit'')"
    using det len fields ni count assms(1)
    by (simp add: parse_layout_bytes_def get_eqs parse_index_def)
  have fixed: "fixed_len_of data = Some 25"
    using det len fields by (simp add: fixed_len_of_def has_level_or)
  have "read_fixed_header data = Ok (take 25 data, drop 25 data)"
    using read_fixed_header_Ok [of data] fixed by simp
  then show "read_blob_layout data = Err (Internal ''block count exceeds limit'')"
    using len count assms(1) fields(3) by (simp add: read_blob_layout_def get_eqs slice_take)
qed

lemma large_upload_unreadable:
  assumes "4096 \<le> bsize" "length content < 2 ^ 48" "MAX_BLOCK_COUNT < length (chunks bsize content)"
    "length (chunks bsize content) < 2 ^ 32"
    "compress_file_to_storage lib now content final (of_nat (length content)) level bsize ctx opts st = (Ok (refs, Some blob), st')"
    "detect_blob_format blob \<noteq> Raw"
  shows "decompress_blob lib registry blob (of_nat (length content)) hint store = Err (Internal ''block count exceeds limit'')"
    "reader_from_file blob (of_nat (length content)) start len hint store cache = Err (Internal ''block count exceeds limit'')"
proof -
  have "detect_blob_format blob = Nosi \<and> parse_layout_bytes blob = Err (Internal ''block count exceeds limit'') \<and>
      read_blob_layout blob = Err (Internal ''block count exceeds limit'')"
  proof (rule encode_file_cases [OF assms(1,2,5)])
    fix bs assume bs: "encode_chunks lib now opts level (chunks bsize content) st = (Ok bs, st')"
      "blob = encoded_blob opts level bsize bs content"
    have "length (index_of 0 0 (zip bs (map length (chunks bsize content)))) = length (chunks bsize content)"
      using encode_chunks_length [OF bs(1)] by simp
    with assms(3,4) show ?thesis
      unfolding bs(2) by (simp add: detect_blob_of, unfold blob_of_def) (intro conjI parse_too_many [OF _ _ refl]; simp)
  qed (use assms(6) in simp)
  then show "decompress_blob lib registry blob (of_nat (length content)) hint store = Err (Internal ''block count exceeds limit'')"
    "reader_from_file blob (of_nat (length content)) start len hint store cache = Err (Internal ''block count exceeds limit'')"
    by (simp_all add: decompress_blob_def decompress_indexed_blob_def reader_from_file_def read_indexed_layout_def)
qed

section \<open>Sample uploads\<close>

text \<open>A small upload for the witnesses: three bytes, shared through an empty block store.\<close>

definition sample_ctx :: compression_context where
  "sample_ctx = compression_context_new (Some ''notes.txt'') None 3 1 []"

definition sample_opts :: encode_options where
  "sample_opts = \<lparr>opt_dict_id = 0, opt_dict = None, opt_dedup = True\<rparr>"

lemma sample_upload_ok: "upload_ok toy_lib 3 4096 sample_ctx sample_opts [1, 2, 3]"
  by (simp add: upload_ok_def sample_ctx_def compression_context_new_def storable_def chunks.simps)


lemma sample_compresses: "should_attempt_compression sample_ctx"
  unfolding sample_ctx_def by code_simp

lemma sample_encodes:
  "\<exists>blob st'. encode_blob_for_storage toy_lib 5 [1, 2, 3] 3 4096 sample_ctx sample_opts empty_store = (Ok blob, st') \<and>
     detect_blob_format blob = Nosi"
  using encode_blocks_from_reader_eq [of 4096 "[1, 2, 3]" toy_lib 5 3 sample_opts empty_store] sample_compresses
  by (simp add: encode_blob_for_storage_def Let_def chunks.simps encode_logical_block_def store_block_def empty_store_def
    sample_opts_def write_blob_header_v1_def detect_nosi)

lemma sample_dict: "dict_found toy_lib (\<lambda>_. None) None (opt_dict sample_opts)"
  by (simp add: dict_found_def sample_opts_def)

lemma toy_encode_total:
  assumes "\<forall>c \<in> set cs. length c < 2 ^ 32" "opt_dict opts = None"
  shows "\<exists>bs st'. encode_chunks toy_lib now opts level cs st = (Ok bs, st')"
  using assms(1)
proof (induction cs arbitrary: st)
  case (Cons c cs)
  have "\<exists>b st1. encode_logical_block toy_lib now st c level (opt_dict opts) (opt_dedup opts) = (Ok b, st1)"
    using Cons.prems assms(2)
    by (auto simp: encode_logical_block_def compress_block_def Let_def toy_lib_def split: prod.splits option.splits)
  then obtain b st1 where b: "encode_logical_block toy_lib now st c level (opt_dict opts) (opt_dedup opts) = (Ok b, st1)" by blast
  obtain bs st2 where "encode_chunks toy_lib now opts level cs st1 = (Ok bs, st2)" using Cons by force
  with b show ?case by simp
qed simp

definition large_ctx :: compression_context where
  "large_ctx = compression_context_new (Some ''dump.sql'') None 68719480832 1 []"

lemma large_compresses: "should_attempt_compression large_ctx"
proof -
  have "\<not> extension_is_excluded ''dump.sql'' []" by code_simp
  then show ?thesis by (simp add: should_attempt_compression_def large_ctx_def compression_context_new_def)
qed

lemma large_upload:
  assumes "length content = 68719480832"
  shows "\<exists>refs blob st'. compress_file_to_storage toy_lib 5 content None 68719480832 3 4096 large_ctx sample_opts empty_store =
      (Ok (refs, Some blob), st') \<and> detect_blob_format blob = Nosi"
    "length (chunks 4096 content) = 16777217"
proof -
  show "length (chunks 4096 content) = 16777217" using assms by (simp add: length_chunks_eq)
  have "\<forall>c \<in> set (chunks 4096 content). length c < 2 ^ 32" using chunks_bounds by fastforce
  from toy_encode_total [OF this, of sample_opts 5 3 empty_store] obtain bs st' where
    "encode_chunks toy_lib 5 sample_opts 3 (chunks 4096 content) empty_store = (Ok bs, st')"
    by (auto simp: sample_opts_def)
  with encode_blocks_to_file_eq [of 4096 content toy_lib 5 3 sample_opts empty_store] assms large_compresses
  show "\<exists>refs blob st'. compress_file_to_storage toy_lib 5 content None 68719480832 3 4096 large_ctx sample_opts empty_store =
      (Ok (refs, Some blob), st') \<and> detect_blob_format blob = Nosi"
    by (simp add: compress_file_to_storage_def encode_file_for_storage_def Let_def sample_opts_def write_blob_header_v1_def detect_nosi)
qed

section \<open>Properties\<close>

text \<open>
  C1: An object that was stored is read back. Whatever \<^verbatim>\<open>encode_blob_for_storage\<close> decides (raw, compressed
  blocks, blocks stored as they are, shared blocks), \<^verbatim>\<open>decompress_blob\<close> returns the original bytes, at any
  later state of the block store that still holds the blocks, if zstd is lossless, the dictionary
  is registered or passed, the block count is within \<^verbatim>\<open>MAX_BLOCK_COUNT\<close> and no shared block is one the
  block store misreads.
\<close>

theorem stored_object_roundtrip:
  assumes "zstd_lossless lib" "zstd_frames_name_dict lib" "dict_found lib registry hint (opt_dict opts)"
    "upload_ok lib level bsize ctx opts content"
    "encode_blob_for_storage lib now content level bsize ctx opts st = (Ok blob, st')"
    "\<forall>h n b. read_logical_block lib st' h n = Ok b \<longrightarrow> read_logical_block lib st'' h n = Ok b"
  shows "decompress_blob lib registry blob (of_nat (length content)) hint (Some st'') = Ok content"
proof -
  have ev: "blocks.evolves lib st' st''" using assms(6) by (simp add: blocks.evolves_def)
  show ?thesis
    by (rule stored_blob_cases [OF assms(1-5) ev]) (simp add: decompress_blob_def, metis decompress_blob_of)
qed

theorem stored_object_roundtrip_witness:
  "\<exists>blob st'. encode_blob_for_storage toy_lib 5 [1, 2, 3] 3 4096 sample_ctx sample_opts empty_store = (Ok blob, st') \<and>
     decompress_blob toy_lib (\<lambda>_. None) blob 3 None (Some st') = Ok [1, 2, 3]"
  using sample_encodes stored_object_roundtrip [OF toy_lossless toy_names_dict sample_dict sample_upload_ok] by force

text \<open>
  C2: A range of a stored object is read back. For a blob with an index, the range reader accepts
  every range inside the object, and reading it block by block from the file, through a cache whose
  entries are truthful or without one, ends and returns exactly the bytes of the range.
\<close>

theorem range_read_exact:
  assumes "zstd_lossless lib" "zstd_frames_name_dict lib" "dict_found lib registry hint (opt_dict opts)"
    "upload_ok lib level bsize ctx opts content"
    "encode_blob_for_storage lib now content level bsize ctx opts st = (Ok blob, st')"
    "\<forall>h n b. read_logical_block lib st' h n = Ok b \<longrightarrow> read_logical_block lib st'' h n = Ok b"
    "detect_blob_format blob = Nosi" "start + len \<le> length content"
  shows "\<exists>r. reader_from_file blob (of_nat (length content)) (of_nat start) (of_nat len) hint (Some st'') cache = Ok r \<and>
    (reader_truthful lib lru alpha registry r cache \<longrightarrow>
      (\<exists>cache'. pump_blocking lib lru registry r [] = Some (Ok (slice start (start + len) content), cache')))"
proof -
  have ev: "blocks.evolves lib st' st''" using assms(6) by (simp add: blocks.evolves_def)
  show ?thesis
  proof (rule stored_blob_cases [OF assms(1-5) ev])
    assume "blob = content" "detect_blob_format content = Raw"
    then show ?thesis using assms(7) by simp
  next
    fix bs
    assume bs: "sizes_ok bs (chunks bsize content)" "blob = encoded_blob opts level bsize bs content"
      "list_all2 (decodes lib registry hint (Some st'')) bs (chunks bsize content)" and content: "concat (chunks bsize content) = content"
    show ?thesis
      using range_read_blob [OF bs(1,3), of start len "of_nat bsize" "opt_dict_id opts" "dedup_flags opts"
        "word_of_int (clamp_zstd_level level)" cache lru alpha] assms(8) unfolding bs(2) content by blast
  qed
qed

theorem range_read_exact_witness:
  "\<exists>blob st' r cache'. encode_blob_for_storage toy_lib 5 [1, 2, 3] 3 4096 sample_ctx sample_opts empty_store = (Ok blob, st') \<and>
     reader_from_file blob 3 1 2 None (Some st') (None :: (block_key \<times> bytes) list cache_ref) = Ok r \<and>
     pump_blocking toy_lib list_lru (\<lambda>_. None) r [] = Some (Ok [2, 3], cache')"
proof -
  obtain blob st' where e: "encode_blob_for_storage toy_lib 5 [1, 2, 3] 3 4096 sample_ctx sample_opts empty_store = (Ok blob, st')"
    "detect_blob_format blob = Nosi" using sample_encodes by blast
  from range_read_exact [OF toy_lossless toy_names_dict sample_dict sample_upload_ok e(1) _ e(2), of st' 1 2 None list_lru "\<lambda>l. l"] e(1)
  show ?thesis by (auto simp: reader_truthful_def slice_def)
qed

text \<open>
  C20: The references an upload counts are those its blob holds. The list of shared blocks that
  \<^verbatim>\<open>compress_file_to_storage\<close> returns, which the engine adds to the reference counts, is exactly what
  \<^verbatim>\<open>collect_dedup_refs\<close> later finds in the stored file, which the engine subtracts when it is deleted.
\<close>

theorem upload_refs_exact:
  assumes "4096 \<le> bsize" "upload_ok lib level bsize ctx opts content"
    "compress_file_to_storage lib now content final (of_nat (length content)) level bsize ctx opts st = (Ok (refs, Some blob), st')"
  shows "collect_dedup_refs blob = Ok refs"
  using stored_refs [OF assms] .

theorem upload_refs_exact_witness:
  "\<exists>refs blob st'. compress_file_to_storage toy_lib 5 [1, 2, 3] None 3 3 4096 sample_ctx sample_opts empty_store = (Ok (refs, Some blob), st') \<and>
     collect_dedup_refs blob = Ok refs"
proof -
  have "\<exists>refs blob st'. compress_file_to_storage toy_lib 5 [1, 2, 3] None 3 3 4096 sample_ctx sample_opts empty_store = (Ok (refs, Some blob), st')"
    using encode_blocks_to_file_eq [of 4096 "[1, 2, 3]" toy_lib 5 3 sample_opts empty_store] sample_compresses
    by (simp add: compress_file_to_storage_def encode_file_for_storage_def Let_def chunks.simps encode_logical_block_def
      store_block_def empty_store_def sample_opts_def)
  then show ?thesis using upload_refs_exact [OF _ sample_upload_ok, of 5 None empty_store] by fastforce
qed



end
