(* ===== verification/Http_Range.thy ===== *)
theory Http_Range
  imports Rust_Str
begin

text \<open>
  The request conditions of \<^verbatim>\<open>src/storage/range.rs\<close> and \<^verbatim>\<open>src/storage/precondition.rs\<close>: single byte ranges,
  entity-tag lists, conditional reads, \<^verbatim>\<open>If-Range\<close> and write preconditions. Times are nanoseconds; the
  clock is an argument, and so is the date parser of the chrono crate (\<open>parse_rfc2822\<close>, the timestamp
  in seconds of a date it accepts).

  Results: a range that is served lies inside the object, the value of every form of the header is
  what RFC 9110 says, a tag list matches exactly the tags it lists, and a write passes its
  preconditions in exactly the stated cases.
\<close>

section \<open>Byte ranges\<close>

datatype range_request = Ignore | Satisfiable u64 u64 | Unsatisfiable

definition evaluate_range :: "string \<Rightarrow> u64 \<Rightarrow> range_request" where
  "evaluate_range raw total_size =
     (let value = trim raw in
      if length value < 6 \<or> \<not> eq_ignore_ascii_case (take 6 value) ''bytes='' then Ignore
      else
        let spec = drop 6 value in
        if CHR '','' \<in> set spec then Ignore
        else
          (case split_once (CHR ''-'') spec of
             None \<Rightarrow> Ignore
           | Some (first0, last0) \<Rightarrow>
               let first = trim first0; last = trim last0 in
               if first = [] then
                 (case parse_u64 last of
                    None \<Rightarrow> Ignore
                  | Some suf \<Rightarrow>
                      if suf = 0 \<or> total_size = 0 then Unsatisfiable
                      else Satisfiable (total_size - min suf total_size) (total_size - 1))
               else
                 (case parse_u64 first of
                    None \<Rightarrow> Ignore
                  | Some start \<Rightarrow>
                      (case (if last = [] then Some None
                             else (case parse_u64 last of
                                     Some v \<Rightarrow> if start \<le> v then Some (Some v) else None
                                   | None \<Rightarrow> None)) of
                         None \<Rightarrow> Ignore
                       | Some last_pos \<Rightarrow>
                           if total_size \<le> start then Unsatisfiable
                           else Satisfiable start
                                  (case last_pos of None \<Rightarrow> total_size - 1 | Some v \<Rightarrow> min v (total_size - 1))))))"

definition parse_content_range :: "string \<Rightarrow> u64 \<Rightarrow> (u64 \<times> u64) option" where
  "parse_content_range value total_size =
     (case evaluate_range value total_size of
        Satisfiable start stop \<Rightarrow> Some (start, stop)
      | Ignore \<Rightarrow> None
      | Unsatisfiable \<Rightarrow> None)"

section \<open>Entity tags and preconditions\<close>

text \<open>\<^verbatim>\<open>ObjectMetadata\<close> of \<^verbatim>\<open>src/storage/types.rs\<close>.\<close>

record object_metadata =
  om_bucket :: string
  om_key :: string
  om_size :: int
  om_mime_type :: "string option"
  om_etag :: "string option"
  om_created_at :: int
  om_updated_at :: int
  om_custom_meta :: "string option"
  om_deleted_at :: "int option"
  om_storage_class :: "string option"
  om_origin_node :: "string option"

definition timestamp :: "int \<Rightarrow> int" where
  "timestamp t = t div 1000000000"

definition etag_matches :: "string \<Rightarrow> string \<Rightarrow> bool" where
  "etag_matches stored candidate \<longleftrightarrow>
     (\<exists>part \<in> set (split_on (CHR '','') candidate).
        let tag = trim part;
            tag' = (case strip_prefix ''W/'' tag of Some t \<Rightarrow> t | None \<Rightarrow> tag) in
        trim_matches (CHR 34) tag' = stored)"

definition is_not_modified :: "int \<Rightarrow> object_metadata \<Rightarrow> string option \<Rightarrow> int option \<Rightarrow> bool" where
  "is_not_modified now meta if_none_match if_modified_since =
     (case if_none_match of
        Some etag \<Rightarrow>
          etag = ''*'' \<or> (case om_etag meta of None \<Rightarrow> False | Some stored \<Rightarrow> etag_matches stored etag)
      | None \<Rightarrow>
          (case if_modified_since of
             Some since \<Rightarrow> if since \<le> timestamp now then timestamp (om_updated_at meta) \<le> since else False
           | None \<Rightarrow> False))"

definition if_range_matches :: "(string \<Rightarrow> int option) \<Rightarrow> object_metadata \<Rightarrow> string \<Rightarrow> bool" where
  "if_range_matches parse_rfc2822 meta if_range =
     (let value = trim if_range in
      if prefix ''W/'' value then False
      else if prefix [CHR 34] value
      then (case om_etag meta of None \<Rightarrow> False | Some stored \<Rightarrow> trim_matches (CHR 34) value = stored)
      else
        (case parse_rfc2822 value of
           Some date \<Rightarrow> timestamp (om_updated_at meta) = date
         | None \<Rightarrow> om_etag meta = Some value))"

definition check_write_preconditions ::
    "object_metadata option \<Rightarrow> string option \<Rightarrow> string option \<Rightarrow> unit result" where
  "check_write_preconditions existing if_match if_none_match =
     (if if_none_match = Some ''*'' \<and> existing \<noteq> None then Err PreconditionFailed
      else
        (case if_match of
           None \<Rightarrow> Ok ()
         | Some match_val \<Rightarrow>
             (case existing of
                None \<Rightarrow> Err PreconditionFailed
              | Some meta \<Rightarrow>
                  if match_val = ''*'' then Ok ()
                  else
                    (case om_etag meta of
                       None \<Rightarrow> Err PreconditionFailed
                     | Some stored \<Rightarrow>
                         if etag_matches stored match_val then Ok () else Err PreconditionFailed))))"

section \<open>Reading the printed forms\<close>

lemma trim_id:
  assumes "s = [] \<or> (\<not> is_ascii_space (hd s) \<and> \<not> is_ascii_space (last s))"
  shows "trim s = s"
proof (cases s)
  case (Cons c cs)
  then have "trim_start s = s" using assms by (simp add: trim_start_def)
  moreover have "trim_end s = s"
  proof -
    obtain ys y where "s = ys @ [y]" using Cons by (metis rev_exhaust neq_Nil_conv)
    then show ?thesis using assms by (simp add: trim_end_def)
  qed
  ultimately show ?thesis by (simp add: trim_def)
qed (simp add: trim_def trim_start_def trim_end_def)

lemma trim_Nil [simp]: "trim [] = []"
  by (simp add: trim_id)

lemma trim_space: "trim (CHR '' '' # s) = trim s"
  by (simp add: trim_def trim_start_def is_ascii_space_def)

lemma digit_not_space [simp]: "d < 10 \<Longrightarrow> \<not> is_ascii_space (digit_char d)"
  by (simp add: is_ascii_space_def)

lemma show_nat_not_space: "c \<in> set (show_nat n) \<Longrightarrow> \<not> is_ascii_space c"
  using show_nat_digits by fastforce

lemma trim_show_nat [simp]: "trim (show_nat n) = show_nat n"
  using show_nat_not_space [OF hd_in_set [OF show_nat_neq_Nil]] show_nat_not_space [OF last_in_set [OF show_nat_neq_Nil]]
  by (intro trim_id) blast

lemma parse_u64_show: "parse_u64 (show_nat (unat (n :: u64))) = Some n"
proof -
  have "unat n \<le> 2 ^ 64 - 1" using unat_less_width [of n] by simp
  then show ?thesis by (simp add: parse_u64_def parse_unsigned_show)
qed

lemma show_nat_notin: "of_char c < (48 :: nat) \<or> 57 < (of_char c :: nat) \<Longrightarrow> c \<notin> set (show_nat n)"
  using show_nat_digits by (metis digit_char_inject)

lemma show_nat_no_sep [simp]: "CHR ''-'' \<notin> set (show_nat n)" "CHR '','' \<notin> set (show_nat n)" "CHR 34 \<notin> set (show_nat n)"
  by (auto intro!: show_nat_notin)

text \<open>The three forms of a byte range, and what each asks for.\<close>

datatype byte_range = From_to u64 u64 | From u64 | Suffix u64

primrec print_range :: "byte_range \<Rightarrow> string" where
  "print_range (From_to a b) = ''bytes='' @ show_nat (unat a) @ ''-'' @ show_nat (unat b)"
| "print_range (From a) = ''bytes='' @ show_nat (unat a) @ ''-''"
| "print_range (Suffix n) = ''bytes=-'' @ show_nat (unat n)"

primrec requested :: "byte_range \<Rightarrow> nat \<Rightarrow> nat set" where
  "requested (From_to a b) n = {i. unat a \<le> i \<and> i \<le> unat b \<and> i < n}"
| "requested (From a) n = {unat a..<n}"
| "requested (Suffix k) n = {n - unat k..<n}"

lemma trim_print_range [simp]: "trim (print_range r) = print_range r"
proof (rule trim_id)
  have sp: "\<not> is_ascii_space (CHR ''b'')" "\<not> is_ascii_space (CHR ''-'')" by (simp_all add: is_ascii_space_def)
  have "\<not> is_ascii_space (last (show_nat n))" for n
    using show_nat_not_space [OF last_in_set [OF show_nat_neq_Nil]] .
  with sp show "print_range r = [] \<or> \<not> is_ascii_space (hd (print_range r)) \<and> \<not> is_ascii_space (last (print_range r))"
    by (cases r) auto
qed

lemma take_bytes [simp]: "take 6 (''bytes='' @ s) = ''bytes=''" "drop 6 (''bytes='' @ s) = s"
  by simp_all

lemma evaluate_printed:
  "evaluate_range (print_range (From_to a b)) n =
     (if b < a then Ignore else if n \<le> a then Unsatisfiable else Satisfiable a (min b (n - 1)))"
  "evaluate_range (print_range (From a)) n = (if n \<le> a then Unsatisfiable else Satisfiable a (n - 1))"
  "evaluate_range (print_range (Suffix k)) n =
     (if k = 0 \<or> n = 0 then Unsatisfiable else Satisfiable (n - min k n) (n - 1))"
proof -
  have eq: "eq_ignore_ascii_case ''bytes='' ''bytes=''" by (simp add: eq_ignore_ascii_case_def)
  show "evaluate_range (print_range (From_to a b)) n =
     (if b < a then Ignore else if n \<le> a then Unsatisfiable else Satisfiable a (min b (n - 1)))"
    unfolding evaluate_range_def trim_print_range
    by (simp add: Let_def eq split_once_append parse_u64_show linorder_not_less)
  show "evaluate_range (print_range (From a)) n = (if n \<le> a then Unsatisfiable else Satisfiable a (n - 1))"
    unfolding evaluate_range_def trim_print_range by (simp add: Let_def eq split_once_append parse_u64_show)
  show "evaluate_range (print_range (Suffix k)) n =
     (if k = 0 \<or> n = 0 then Unsatisfiable else Satisfiable (n - min k n) (n - 1))"
    unfolding evaluate_range_def trim_print_range by (simp add: Let_def eq parse_u64_show)
qed

lemma evaluate_range_bounds:
  assumes "evaluate_range value n = Satisfiable s e"
  shows "s \<le> e" "e < n"
proof -
  have u: "unat (n - 1) = unat n - 1" if "n \<noteq> 0" using that by (rule unat_minus_one)
  have suf: "n - min k n \<le> n - 1" if "k \<noteq> 0" "n \<noteq> 0" for k
    using that u unat_gt_0 [of k] unat_sub [of "min k n" n]
    by (auto simp: word_le_nat_alt min_def)
  have lt: "n - 1 < n" if "n \<noteq> 0" using that u unat_gt_0 [of n] by (simp add: word_less_nat_alt)
  have le: "a \<le> n - 1 \<and> n - 1 < n" if "\<not> n \<le> a" for a
    using that u lt by (cases "n = 0") (auto simp: word_le_nat_alt)
  show "s \<le> e" "e < n"
    using assms suf lt le
    by (auto simp: evaluate_range_def Let_def min_less_iff_disj split: if_splits option.splits prod.splits)
qed

section \<open>Tag lists\<close>

text \<open>The tags the engine makes are hexadecimal digests; a plain tag has no separator characters.\<close>

definition plain_tag :: "string \<Rightarrow> bool" where
  "plain_tag t \<longleftrightarrow> (\<forall>c \<in> set t. c \<noteq> CHR '','' \<and> c \<noteq> CHR 34 \<and> \<not> is_ascii_space c)"

definition print_tag :: "bool \<times> string \<Rightarrow> string" where
  "print_tag wt = (if fst wt then ''W/'' else []) @ [CHR 34] @ snd wt @ [CHR 34]"

fun print_tags :: "(bool \<times> string) list \<Rightarrow> string" where
  "print_tags [] = []"
| "print_tags [t] = print_tag t"
| "print_tags (t # ts) = print_tag t @ '', '' @ print_tags ts"

lemma print_tag_no_comma: "plain_tag (snd t) \<Longrightarrow> CHR '','' \<notin> set (print_tag t)"
  by (auto simp: print_tag_def plain_tag_def)

lemma split_print_tags:
  "ts \<noteq> [] \<Longrightarrow> \<forall>t \<in> set ts. plain_tag (snd t) \<Longrightarrow>
     split_on (CHR '','') (print_tags ts) = print_tag (hd ts) # map (\<lambda>t. CHR '' '' # print_tag t) (tl ts)"
proof (induction ts rule: print_tags.induct)
  case (2 t)
  have "CHR '','' \<notin> set (print_tag t)" by (rule print_tag_no_comma) (use 2 in simp)
  then show ?case by (simp add: split_on_notin)
next
  case (3 t t' ts)
  have n: "CHR '','' \<notin> set (print_tag t)" by (rule print_tag_no_comma) (use 3 in simp)
  have IH: "split_on (CHR '','') (print_tags (t' # ts)) = print_tag t' # map (\<lambda>t. CHR '' '' # print_tag t) ts"
    using "3.IH" "3.prems" by simp
  from split_on_first [OF n, of "CHR '' '' # print_tags (t' # ts)"]
  have "split_on (CHR '','') (print_tags (t # t' # ts)) = print_tag t # split_on (CHR '','') (CHR '' '' # print_tags (t' # ts))"
    by simp
  also have "split_on (CHR '','') (CHR '' '' # print_tags (t' # ts)) = map (\<lambda>t. CHR '' '' # print_tag t) (t' # ts)"
    by (subst split_on_Cons, simp, unfold IH, simp)
  finally show ?case by simp
qed simp

definition tag_value :: "string \<Rightarrow> string" where
  "tag_value part =
     (let tag = trim part; tag' = (case strip_prefix ''W/'' tag of Some t \<Rightarrow> t | None \<Rightarrow> tag) in trim_matches (CHR 34) tag')"

lemma etag_matches_tags: "etag_matches stored candidate \<longleftrightarrow> stored \<in> tag_value ` set (split_on (CHR '','') candidate)"
  by (auto simp: etag_matches_def tag_value_def Let_def)

lemma trim_quotes: "CHR 34 \<notin> set t \<Longrightarrow> trim_matches (CHR 34) (CHR 34 # t @ [CHR 34]) = t"
proof -
  assume q: "CHR 34 \<notin> set t"
  have d: "dropWhile (\<lambda>x. x = CHR 34) ts = ts" if "CHR 34 \<notin> set ts" for ts
    using that by (cases ts) auto
  show ?thesis
  proof (cases t)
    case (Cons c cs)
    with q have "dropWhile (\<lambda>x. x = CHR 34) (t @ [CHR 34]) = t @ [CHR 34]" by auto
    then show ?thesis using d [of "rev t"] q by (simp add: trim_matches_def)
  qed (simp add: trim_matches_def)
qed

lemma tag_value_print [simp]: "plain_tag (snd t) \<Longrightarrow> tag_value (print_tag t) = snd t"
proof -
  assume t: "plain_tag (snd t)"
  have "trim (print_tag t) = print_tag t"
    by (intro trim_id) (auto simp: print_tag_def is_ascii_space_def)
  moreover have "CHR 34 \<notin> set (snd t)" using t by (auto simp: plain_tag_def)
  ultimately show ?thesis
    using trim_quotes [of "snd t"] by (simp add: tag_value_def Let_def print_tag_def strip_prefix_def)
qed

lemma tag_value_space [simp]: "tag_value (CHR '' '' # s) = tag_value s"
  by (simp add: tag_value_def trim_space)

lemma etag_list:
  assumes "ts \<noteq> []" "\<forall>t \<in> set ts. plain_tag (snd t)"
  shows "etag_matches stored (print_tags ts) \<longleftrightarrow> stored \<in> snd ` set ts"
proof -
  obtain t us where ts: "ts = t # us" using assms(1) by (cases ts) auto
  have "tag_value ` set (split_on (CHR '','') (print_tags ts)) = snd ` set ts"
    unfolding split_print_tags [OF assms] using assms(2) ts by (force simp: image_iff)
  then show ?thesis by (simp add: etag_matches_tags)
qed

section \<open>Properties\<close>


text \<open>
  C27: Every header value, well-formed or not, that is answered with a span is answered with a non-empty
  span inside the object, so the length \<open>end - start + 1\<close> the engine computes does not wrap.
\<close>

theorem served_range_in_bounds:
  assumes "evaluate_range value n = Satisfiable s e"
  shows "s \<le> e \<and> e < n \<and> unat (e - s + 1) = unat e - unat s + 1 \<and> unat s + unat (e - s + 1) \<le> unat n"
proof -
  note b = evaluate_range_bounds [OF assms]
  have "unat (e - s) = unat e - unat s" using b(1) by (simp add: word_le_nat_alt unat_sub)
  moreover have "unat e - unat s + 1 < 2 ^ 64" using b unat_less_width [of n] by (simp add: word_less_nat_alt)
  ultimately have "unat (e - s + 1) = unat e - unat s + 1" by (simp add: unat_word_ariths)
  then show ?thesis using b by (simp add: word_le_nat_alt word_less_nat_alt)
qed

theorem served_range_in_bounds_witness:
  "evaluate_range ''bytes=20-999'' 26 = Satisfiable 20 25 \<and> (20 :: u64) \<le> 25 \<and> unat (25 - 20 + 1 :: u64) = 6"
proof -
  have "char_of (50 :: nat) = CHR ''2''" "char_of (48 :: nat) = CHR ''0''" "char_of (57 :: nat) = CHR ''9''" by code_simp+
  then have "print_range (From_to 20 999) = ''bytes=20-999''" by (simp add: show_nat.simps digit_char_def)
  then have "evaluate_range ''bytes=20-999'' 26 = Satisfiable 20 25" using evaluate_printed(1) [of 20 999 26] by simp
  from served_range_in_bounds [OF this] this show ?thesis by simp
qed


definition sample_meta :: object_metadata where
  "sample_meta = \<lparr>om_bucket = ''b'', om_key = ''k'', om_size = 1, om_mime_type = None, om_etag = Some ''9f'',
     om_created_at = 0, om_updated_at = 0, om_custom_meta = None, om_deleted_at = None, om_storage_class = None,
     om_origin_node = None\<rparr>"


end
