(* ===== verification/Object_Names.thy ===== *)
theory Object_Names
  imports Rust_Str Codec_Lib
begin

text \<open>
  Names of buckets and objects and the files their blobs lie in: \<^verbatim>\<open>sanitize_bucket\<close>, \<^verbatim>\<open>sanitize_key\<close>,
  \<^verbatim>\<open>check_new_object\<close> of \<^verbatim>\<open>src/storage/mod.rs\<close> and the filename schemes and path lookup of
  \<^verbatim>\<open>src/storage/blob_paths.rs\<close>. A string is the list of its UTF-8 bytes; a path is the list of its
  components below the data directory. The file system is the list of the files below that directory
  and whether it ignores ASCII case.

  Results: both filename schemes are decoded back to the key, portable names stay apart when case is
  ignored, a sanitized name never leaves its shard directory, and the lookup of a key's blob never
  returns the file of another key.
\<close>

section \<open>Checking names\<close>

definition as_bytes :: "string \<Rightarrow> bytes" where
  "as_bytes s = map of_char s"

definition code :: "char \<Rightarrow> nat" where
  "code c = of_char c"

text \<open>\<^verbatim>\<open>char::is_control\<close> on UTF-8: the C0 controls and DEL, and the C1 controls, encoded as \<open>C2 80 .. C2 9F\<close>.\<close>

fun has_control :: "string \<Rightarrow> bool" where
  "has_control [] = False"
| "has_control (c # cs) =
     (code c < 32 \<or> code c = 127 \<or>
      (code c = 0xC2 \<and> (case cs of d # _ \<Rightarrow> 0x80 \<le> code d \<and> code d \<le> 0x9F | [] \<Rightarrow> False)) \<or> has_control cs)"

definition sanitize_bucket :: "string \<Rightarrow> string + string" where
  "sanitize_bucket bucket =
     (if bucket = [] then Inl ''bucket cannot be empty''
      else if prefix ''.'' bucket \<or> CHR ''/'' \<in> set bucket \<or> CHR 92 \<in> set bucket \<or> has_control bucket \<or> 255 < length bucket
      then Inl ''invalid bucket name''
      else if sublist ''..'' bucket then Inl ''invalid bucket name''
      else if 2 \<le> length bucket \<and> bucket ! 1 = CHR '':'' then Inl ''invalid bucket name''
      else Inr bucket)"

definition sanitize_key :: "string \<Rightarrow> string + string" where
  "sanitize_key key0 =
     (if key0 = [] then Inl ''key cannot be empty''
      else
        let key = map (\<lambda>c. if c = CHR 92 then CHR ''/'' else c) key0 in
        if prefix ''/'' key then Inl ''invalid key: absolute paths are not allowed''
        else if 2 \<le> length key \<and> key ! 1 = CHR '':'' then Inl ''invalid key: absolute paths are not allowed''
        else if ''..'' \<in> set (split_on (CHR ''/'') key) then Inl ''invalid key: directory traversal detected''
        else if CHR 0x0A \<in> set key \<or> CHR 0x00 \<in> set key then Inl ''invalid key: newlines and NUL are not allowed''
        else Inr key)"

section \<open>Filenames\<close>

definition hex_digit :: "nat \<Rightarrow> char" where
  "hex_digit n = (if n < 10 then char_of (48 + n) else char_of (55 + n))"

definition percent :: "char \<Rightarrow> string" where
  "percent c = [CHR ''%'', hex_digit (code c div 16), hex_digit (code c mod 16)]"

definition encode_plain :: "string \<Rightarrow> string" where
  "encode_plain key =
     concat (map (\<lambda>c. if c = CHR ''/'' then ''%2F'' else if c = CHR ''%'' then ''%25'' else [c]) key)"

definition is_windows_device_name :: "string \<Rightarrow> bool" where
  "is_windows_device_name key =
     (let stem = to_ascii_uppercase (hd (split_on (CHR ''.'') key)) in
      stem \<in> {''CON'', ''PRN'', ''AUX'', ''NUL''} \<or>
      ((prefix ''COM'' stem \<or> prefix ''LPT'' stem) \<and> length stem = 4 \<and> digit_value (stem ! 3) \<noteq> None))"

definition portable_punctuation :: string where
  "portable_punctuation = '' -_.()[]{}+,;=@!#$&'' @ [CHR 39] @ ''~^'' @ [CHR 96]"

definition portable_keep :: "char \<Rightarrow> bool" where
  "portable_keep b \<longleftrightarrow> (97 \<le> code b \<and> code b \<le> 122) \<or> (48 \<le> code b \<and> code b \<le> 57) \<or> b \<in> set portable_punctuation"

fun encode_portable_loop :: "bool \<Rightarrow> string \<Rightarrow> string" where
  "encode_portable_loop escape_first [] = []"
| "encode_portable_loop escape_first (b # bs) =
     (let trailing = (bs = [] \<and> (b = CHR ''.'' \<or> b = CHR '' ''));
          keep = (\<not> (trailing \<or> escape_first) \<and> portable_keep b) in
      (if keep then [b] else percent b) @ encode_portable_loop False bs)"

definition encode_portable :: "string \<Rightarrow> string" where
  "encode_portable key = encode_portable_loop (is_windows_device_name key) key"

text \<open>\<open>portable\<close> is the process-wide choice of \<^verbatim>\<open>configure_filenames_for\<close>.\<close>

definition encode_blob_filename :: "bool \<Rightarrow> string \<Rightarrow> string" where
  "encode_blob_filename portable key = (if portable then encode_portable key else encode_plain key)"

definition hex_value :: "char \<Rightarrow> nat option" where
  "hex_value c =
     (let n = code c in
      if 48 \<le> n \<and> n \<le> 57 then Some (n - 48)
      else if 65 \<le> n \<and> n \<le> 70 then Some (n - 55)
      else if 97 \<le> n \<and> n \<le> 102 then Some (n - 87) else None)"

text \<open>\<^verbatim>\<open>u8::from_str_radix\<close> on two bytes: two hex digits, or a plus sign and one.\<close>

definition parse_hex2 :: "char \<Rightarrow> char \<Rightarrow> char option" where
  "parse_hex2 a b =
     (if a = CHR ''+'' then map_option char_of (hex_value b)
      else Option.bind (hex_value a) (\<lambda>h. map_option (\<lambda>l. char_of (16 * h + l)) (hex_value b)))"

fun decode_bytes :: "string \<Rightarrow> string" where
  "decode_bytes [] = []"
| "decode_bytes (c # cs) =
     (if c = CHR ''%'' then
        (case cs of
           a # b # rest \<Rightarrow>
             (case parse_hex2 a b of
                Some byte \<Rightarrow> byte # decode_bytes rest
              | None \<Rightarrow> c # decode_bytes cs)
         | _ \<Rightarrow> c # decode_bytes cs)
      else c # decode_bytes cs)"

text \<open>
  \<^verbatim>\<open>String::from_utf8_lossy\<close>: \<open>utf8_next\<close> is whether the next sequence is valid and its length, where
  an invalid one is the longest prefix that could begin a character.
\<close>

definition utf8_next :: "nat list \<Rightarrow> bool \<times> nat" where
  "utf8_next bs =
     (let at = (\<lambda>i. if i < length bs then bs ! i else 0);
          cont = (\<lambda>x. 0x80 \<le> x \<and> x \<le> (0xBF :: nat));
          a = at 0; b = at 1 in
      if a < 0x80 then (True, 1)
      else if 0xC2 \<le> a \<and> a \<le> 0xDF then (if cont b then (True, 2) else (False, 1))
      else if 0xE0 \<le> a \<and> a \<le> 0xEF then
        (if (if a = 0xE0 then 0xA0 \<le> b \<and> b \<le> 0xBF else if a = 0xED then 0x80 \<le> b \<and> b \<le> 0x9F else cont b)
         then (if cont (at 2) then (True, 3) else (False, 2)) else (False, 1))
      else if 0xF0 \<le> a \<and> a \<le> 0xF4 then
        (if (if a = 0xF0 then 0x90 \<le> b \<and> b \<le> 0xBF else if a = 0xF4 then 0x80 \<le> b \<and> b \<le> 0x8F else cont b)
         then (if cont (at 2) then (if cont (at 3) then (True, 4) else (False, 3)) else (False, 2)) else (False, 1))
      else (False, 1))"

lemma utf8_next_pos: "0 < snd (utf8_next bs)"
  by (simp add: utf8_next_def Let_def)

function from_utf8_lossy :: "string \<Rightarrow> string" where
  "from_utf8_lossy s =
     (if s = [] then []
      else (case utf8_next (map code s) of
              (ok, n) \<Rightarrow> (if ok then take n s else [char_of (0xEF :: nat), char_of (0xBF :: nat), char_of (0xBD :: nat)]) @
                         from_utf8_lossy (drop n s)))"
  by pat_completeness auto
termination
proof (relation "measure length")
  fix s x y assume "s \<noteq> []" "(x, y) = utf8_next (map code s)"
  moreover from this have "0 < y" using utf8_next_pos [of "map code s"] by (metis snd_conv)
  ultimately show "(drop y s, s) \<in> measure length" by simp
qed simp

declare from_utf8_lossy.simps [simp del]

definition decode_blob_filename :: "string \<Rightarrow> string" where
  "decode_blob_filename encoded = from_utf8_lossy (decode_bytes encoded)"

definition lower_hex :: "nat \<Rightarrow> char" where
  "lower_hex n = (if n < 10 then char_of (48 + n) else char_of (87 + n))"

definition hash_prefix :: "codec_lib \<Rightarrow> string \<Rightarrow> string" where
  "hash_prefix lib key =
     (let h = unat (xxh3_64 lib (as_bytes key)) mod 256 in [lower_hex (h div 16), lower_hex (h mod 16)])"

section \<open>Limits on new objects\<close>

definition check_new_key_len :: "bool \<Rightarrow> string \<Rightarrow> unit result" where
  "check_new_key_len portable key =
     (if 255 < length (encode_blob_filename portable key)
      then Err (InvalidRequest ''key too long: stored keys may use at most 255 bytes (each '/' counts as 3)'')
      else Ok ())"

definition RESERVED_BUCKETS :: "string list" where
  "RESERVED_BUCKETS = [''_cluster'', ''_nos'']"

definition shadowed_by_system_route :: "string \<Rightarrow> string \<Rightarrow> bool" where
  "shadowed_by_system_route bucket key =
     (if bucket \<in> set RESERVED_BUCKETS \<or> (bucket = ''health'' \<and> key = ''ready'') then True
      else
        (case split_on (CHR ''/'') key of
           [a] \<Rightarrow> a = ''_batch_delete'' \<or> a = ''_multipart''
         | [a, b] \<Rightarrow> a = ''_multipart''
         | [a, b, c] \<Rightarrow> a = ''_multipart'' \<and> c = ''complete''
         | [a, b, c, d] \<Rightarrow> a = ''_multipart'' \<and> c = ''parts''
         | _ \<Rightarrow> False))"

definition check_new_object :: "bool \<Rightarrow> string \<Rightarrow> string \<Rightarrow> unit result" where
  "check_new_object portable bucket key =
     (if shadowed_by_system_route bucket key
      then Err (InvalidRequest (CHR 39 # bucket @ ''/'' @ key @ [CHR 39] @ '' is answered by a system route; use another bucket or key''))
      else check_new_key_len portable key)"

section \<open>Paths\<close>

text \<open>
  A path is the list of its components. A final empty component stands for a trailing slash: such a
  path only names a directory. Joining a relative path drops \<open>.\<close> and empty components inside it.
\<close>

type_synonym path = "string list"

definition blob_path :: "codec_lib \<Rightarrow> bool \<Rightarrow> string \<Rightarrow> string \<Rightarrow> path" where
  "blob_path lib portable bucket key = [bucket, hash_prefix lib key, encode_blob_filename portable key]"

definition trivial_segment :: "string \<Rightarrow> bool" where
  "trivial_segment c \<longleftrightarrow> c = [] \<or> c = ''.''"

definition path_components :: "string \<Rightarrow> path" where
  "path_components s =
     (let segments = split_on (CHR ''/'') s in
      filter (\<lambda>c. \<not> trivial_segment c) segments @ (if trivial_segment (last segments) then [[]] else []))"

definition blob_path_legacy :: "codec_lib \<Rightarrow> string \<Rightarrow> string \<Rightarrow> path" where
  "blob_path_legacy lib bucket key = [bucket, hash_prefix lib key] @ path_components key"

definition components :: "path \<Rightarrow> path" where
  "components p = filter (\<lambda>c. c \<noteq> []) p"

definition blob_rel_path :: "codec_lib \<Rightarrow> bool \<Rightarrow> string \<Rightarrow> string \<Rightarrow> string" where
  "blob_rel_path lib portable bucket key =
     bucket @ ''/'' @ hash_prefix lib key @ ''/'' @ encode_blob_filename portable key"

text \<open>\<^verbatim>\<open>variants.contains\<close> compares paths by their components.\<close>

definition push_new :: "path list \<Rightarrow> path \<Rightarrow> path list" where
  "push_new ps p = (if components p \<in> components ` set ps then ps else ps @ [p])"

definition blob_path_variants :: "codec_lib \<Rightarrow> bool \<Rightarrow> string \<Rightarrow> string \<Rightarrow> path list" where
  "blob_path_variants lib portable bucket key =
     (let shard_dir = [bucket, hash_prefix lib key];
          variants = [shard_dir @ [encode_blob_filename portable key]];
          variants = push_new variants (shard_dir @ [encode_plain key]);
          variants = push_new variants (shard_dir @ [encode_portable key]) in
      if CHR ''/'' \<in> set key then push_new variants (blob_path_legacy lib bucket key) else variants)"

definition object_key_from_blob_relpath :: "string \<Rightarrow> string option" where
  "object_key_from_blob_relpath rel =
     (case split_once (CHR ''/'') rel of
        None \<Rightarrow> None
      | Some (_, tail) \<Rightarrow>
          if tail = [] then None
          else Some (if CHR ''/'' \<in> set tail then tail else decode_blob_filename tail))"

text \<open>A file system: its files, and whether names that differ only in case are the same.\<close>

record file_system =
  fs_files :: "path list"
  fs_folds :: bool

definition fold_name :: "file_system \<Rightarrow> string \<Rightarrow> string" where
  "fold_name fs s = (if fs_folds fs then to_ascii_lowercase s else s)"

definition same_path :: "file_system \<Rightarrow> path \<Rightarrow> path \<Rightarrow> bool" where
  "same_path fs p q \<longleftrightarrow> map (fold_name fs) p = map (fold_name fs) q"

definition path_exists :: "file_system \<Rightarrow> path \<Rightarrow> bool" where
  "path_exists fs p \<longleftrightarrow>
     (let d = components p in
      \<exists>f \<in> set (fs_files fs). same_path fs (take (length d) f) d \<and>
        (if last p = [] then length d < length f else length d \<le> length f))"

definition read_dir :: "file_system \<Rightarrow> path \<Rightarrow> string list" where
  "read_dir fs d = map (\<lambda>f. f ! length d)
     (filter (\<lambda>f. length d < length f \<and> same_path fs (take (length d) f) d) (fs_files fs))"

fun names_listed :: "file_system \<Rightarrow> path \<Rightarrow> path \<Rightarrow> bool" where
  "names_listed fs d [] = True"
| "names_listed fs d (name # names) =
     (if name \<notin> set (read_dir fs d) then False else names_listed fs (d @ [name]) names)"

definition names_match_exactly :: "bool \<Rightarrow> file_system \<Rightarrow> path \<Rightarrow> path \<Rightarrow> bool" where
  "names_match_exactly portable fs shard_dir p =
     (if \<not> portable then True
      else if \<not> prefix shard_dir p then False
      else names_listed fs shard_dir (components (drop (length shard_dir) p)))"

definition existing_blob_paths :: "bool \<Rightarrow> file_system \<Rightarrow> path list \<Rightarrow> path list" where
  "existing_blob_paths portable fs variants =
     (case variants of
        [] \<Rightarrow> []
      | primary # _ \<Rightarrow>
          map snd (filter (\<lambda>(i, p). path_exists fs p \<and> (i = 0 \<or> names_match_exactly portable fs (butlast primary) p))
            (enumerate 0 variants)))"

definition first_existing_blob_path :: "bool \<Rightarrow> file_system \<Rightarrow> path list \<Rightarrow> path option" where
  "first_existing_blob_path portable fs variants =
     (case variants of
        [] \<Rightarrow> None
      | primary # _ \<Rightarrow>
          if path_exists fs primary then Some primary
          else (case existing_blob_paths portable fs variants of [] \<Rightarrow> None | p # _ \<Rightarrow> Some p))"

section \<open>Decoding filenames\<close>

function utf8_valid :: "string \<Rightarrow> bool" where
  "utf8_valid s =
     (if s = [] then True else case utf8_next (map code s) of (ok, n) \<Rightarrow> ok \<and> utf8_valid (drop n s))"
  by pat_completeness auto
termination
proof (relation "measure length")
  fix s x y assume "s \<noteq> []" "(x, y) = utf8_next (map code s)"
  moreover from this have "0 < y" using utf8_next_pos [of "map code s"] by (metis snd_conv)
  ultimately show "(drop y s, s) \<in> measure length" by simp
qed simp

declare utf8_valid.simps [simp del]

lemma from_utf8_lossy_valid: "utf8_valid s \<Longrightarrow> from_utf8_lossy s = s"
proof (induction s rule: utf8_valid.induct)
  case (1 s)
  then show ?case
    by (cases "s = []") (auto simp: from_utf8_lossy.simps [of s] from_utf8_lossy.simps [of "[]"] utf8_valid.simps [of s] split: prod.splits)
qed

lemma code_char_of [simp]: "n < 256 \<Longrightarrow> code (char_of n) = n"
  by (simp add: code_def)

lemma code_less [simp]: "code c < 256"
  by (simp add: code_def)

lemma char_of_code [simp]: "char_of (code c) = c"
  by (simp add: code_def)

lemma hex_value_digit: "n < 16 \<Longrightarrow> hex_value (hex_digit n) = Some n"
  by (auto simp: hex_value_def hex_digit_def Let_def)

lemma hex_value_lower: "n < 16 \<Longrightarrow> hex_value (ascii_lower (hex_digit n)) = Some n"
  by (auto simp: hex_value_def hex_digit_def ascii_lower_def Let_def code_def)

lemma hex_value_plus: "hex_value (CHR ''+'') = None"
  by (simp add: hex_value_def code_def)

lemma parse_hex2_digits:
  assumes "hex_value a = Some (code c div 16)" "hex_value b = Some (code c mod 16)"
  shows "parse_hex2 a b = Some c"
proof -
  have "a \<noteq> CHR ''+''" using assms(1) hex_value_plus by auto
  with assms show ?thesis by (simp add: parse_hex2_def)
qed

lemma nibbles: "code c div 16 < 16" "code c mod 16 < 16"
  by (rule less_mult_imp_div_less) simp_all

lemma decode_percent: "decode_bytes (percent c @ rest) = c # decode_bytes rest"
  using parse_hex2_digits [OF hex_value_digit hex_value_digit, OF nibbles [of c]] by (simp add: percent_def)

lemma decode_percent_lower: "decode_bytes (to_ascii_lowercase (percent c) @ rest) = c # decode_bytes rest"
proof -
  have "ascii_lower (CHR ''%'') = CHR ''%''" by (simp add: ascii_lower_def)
  then show ?thesis
    using parse_hex2_digits [OF hex_value_lower hex_value_lower, OF nibbles [of c]]
    by (simp add: percent_def to_ascii_lowercase_def)
qed

lemma percent_slash: "''%2F'' = percent (CHR ''/'')" "''%25'' = percent (CHR ''%'')"
proof -
  have "char_of (50 :: nat) = CHR ''2''" "char_of (70 :: nat) = CHR ''F''" "char_of (53 :: nat) = CHR ''5''" by code_simp+
  then show "''%2F'' = percent (CHR ''/'')" "''%25'' = percent (CHR ''%'')"
    by (simp_all add: percent_def hex_digit_def code_def)
qed

lemma decode_plain: "decode_bytes (encode_plain key) = key"
proof (induction key)
  case (Cons c key)
  have "encode_plain (c # key) =
      (if c = CHR ''/'' then percent (CHR ''/'') else if c = CHR ''%'' then percent (CHR ''%'') else [c]) @ encode_plain key"
    by (simp add: encode_plain_def percent_slash)
  then show ?case using Cons by (auto simp: decode_percent)
qed (simp add: encode_plain_def)

lemma portable_keepD: "portable_keep b \<Longrightarrow> b \<noteq> CHR ''%'' \<and> ascii_lower b = b"
  by (auto simp: portable_keep_def portable_punctuation_def ascii_lower_def code_def Let_def)

lemma decode_portable: "decode_bytes (encode_portable_loop e key) = key"
  by (induction e key rule: encode_portable_loop.induct) (auto simp: Let_def decode_percent dest: portable_keepD)

lemma decode_portable_lower: "decode_bytes (to_ascii_lowercase (encode_portable_loop e key)) = key"
proof (induction e key rule: encode_portable_loop.induct)
  case (2 e b bs)
  define enc where "enc = encode_portable_loop False bs"
  have "to_ascii_lowercase (xs @ enc) = to_ascii_lowercase xs @ to_ascii_lowercase enc" for xs
    by (simp add: to_ascii_lowercase_def)
  moreover have "to_ascii_lowercase [b] = [b] \<and> b \<noteq> CHR ''%''" if "portable_keep b"
    using portable_keepD [OF that] by (simp add: to_ascii_lowercase_def)
  ultimately show ?case
    using 2 by (simp add: Let_def enc_def [symmetric] decode_percent_lower del: append_Cons) auto
qed (simp add: to_ascii_lowercase_def)

lemma decode_encoded: "decode_bytes (encode_portable key) = key" "decode_bytes (encode_blob_filename portable key) = key"
  by (simp_all add: encode_blob_filename_def decode_plain decode_portable encode_portable_def)

lemma decode_filename: "utf8_valid key \<Longrightarrow> decode_blob_filename (encode_blob_filename portable key) = key"
  by (simp add: decode_blob_filename_def encode_blob_filename_def decode_plain encode_portable_def decode_portable
    from_utf8_lossy_valid)

lemma portable_inj: "to_ascii_lowercase (encode_portable a) = to_ascii_lowercase (encode_portable b) \<Longrightarrow> a = b"
  using decode_portable_lower by (metis encode_portable_def)

lemma plain_portable_inj: "encode_plain a = encode_portable b \<Longrightarrow> a = b"
  by (metis decode_plain decode_portable encode_portable_def)

section \<open>Paths stay below their shard\<close>

text \<open>A component that names an entry of its directory.\<close>

definition entry_name :: "string \<Rightarrow> bool" where
  "entry_name c \<longleftrightarrow> c \<noteq> [] \<and> c \<noteq> ''.'' \<and> c \<noteq> ''..'' \<and> CHR ''/'' \<notin> set c \<and> CHR 0x00 \<notin> set c"

lemma hex_digit_plain: "n < 16 \<Longrightarrow> hex_digit n \<noteq> CHR ''/'' \<and> hex_digit n \<noteq> CHR 0x00"
proof -
  assume "n < 16"
  then have "code (hex_digit n) \<ge> 48" by (auto simp: hex_digit_def)
  then show ?thesis by (auto simp: code_def)
qed

lemma percent_plain: "x \<in> set (percent c) \<Longrightarrow> x \<noteq> CHR ''/'' \<and> x \<noteq> CHR 0x00"
  using hex_digit_plain [OF nibbles(1), of c] hex_digit_plain [OF nibbles(2), of c] by (auto simp: percent_def)

lemma plain_chars: "x \<in> set (encode_plain key) \<Longrightarrow> x \<noteq> CHR ''/'' \<and> (x = CHR 0x00 \<longrightarrow> CHR 0x00 \<in> set key)"
  by (auto simp: encode_plain_def split: if_splits)

lemma portable_keep_plain: "portable_keep b \<Longrightarrow> b \<noteq> CHR ''/'' \<and> b \<noteq> CHR 0x00"
  by (auto simp: portable_keep_def portable_punctuation_def code_def)

lemma portable_chars: "x \<in> set (encode_portable_loop e key) \<Longrightarrow> x \<noteq> CHR ''/'' \<and> x \<noteq> CHR 0x00"
  by (induction e key rule: encode_portable_loop.induct)
     (auto simp: Let_def dest: percent_plain portable_keep_plain split: if_splits)

lemma decode_dots: "decode_bytes [] = []" "decode_bytes ''.'' = ''.''" "decode_bytes ''..'' = ''..''"
  by simp_all

lemma filename_entry:
  assumes "sanitize_key raw = Inr key" "key \<noteq> ''.''"
  shows "entry_name (encode_blob_filename portable key)"
proof -
  have key: "key \<noteq> []" "CHR 0x00 \<notin> set key" "key \<noteq> ''..''"
    using assms(1) by (auto simp: sanitize_key_def Let_def split: if_splits)
  note dec = decode_encoded(2) [of portable key]
  show ?thesis
    unfolding entry_name_def
  proof (intro conjI)
    show "encode_blob_filename portable key \<noteq> []" "encode_blob_filename portable key \<noteq> ''.''"
      "encode_blob_filename portable key \<noteq> ''..''" using dec decode_dots key assms(2) by metis+
    show "CHR ''/'' \<notin> set (encode_blob_filename portable key)" "CHR 0x00 \<notin> set (encode_blob_filename portable key)"
      using plain_chars [of _ key] portable_chars [of _ _ key] key
      by (auto simp: encode_blob_filename_def encode_portable_def)
  qed
qed

lemma bucket_entry: "sanitize_bucket raw = Inr bucket \<Longrightarrow> entry_name bucket"
proof -
  assume s: "sanitize_bucket raw = Inr bucket"
  have "has_control xs" if "CHR 0x00 \<in> set xs" for xs
    using that by (induction xs) (auto simp: code_def)
  with s show ?thesis by (auto simp: sanitize_bucket_def entry_name_def split: if_splits)
qed

lemma lower_hex_plain: "n < 16 \<Longrightarrow> lower_hex n \<notin> {CHR ''/'', CHR 0x00, CHR ''.''}"
proof -
  assume "n < 16"
  then have "48 \<le> code (lower_hex n)" by (simp add: lower_hex_def)
  then show ?thesis by (auto simp: code_def)
qed

lemma hash_prefix_entry: "entry_name (hash_prefix lib key)"
proof -
  define h where "h = unat (xxh3_64 lib (as_bytes key)) mod 256"
  have h: "h div 16 < 16" "h mod 16 < 16" by (rule less_mult_imp_div_less) (simp_all add: h_def)
  show ?thesis
    using lower_hex_plain [OF h(1)] lower_hex_plain [OF h(2)]
    unfolding hash_prefix_def Let_def h_def [symmetric] entry_name_def by simp metis
qed

lemma legacy_entries:
  assumes "sanitize_key raw = Inr key"
  shows "\<forall>c \<in> set (components (path_components key)). entry_name c"
proof
  fix c assume "c \<in> set (components (path_components key))"
  then have c: "c \<in> set (split_on (CHR ''/'') key)" "c \<noteq> []" "c \<noteq> ''.''"
    by (auto simp: path_components_def components_def trivial_segment_def Let_def split: if_splits)
  have "''..'' \<notin> set (split_on (CHR ''/'') key)" "CHR 0x00 \<notin> set key"
    using assms by (auto simp: sanitize_key_def Let_def split: if_splits)
  with c split_on_parts [OF c(1)] show "entry_name c" by (auto simp: entry_name_def)
qed

section \<open>The lookup of a blob\<close>

lemma in_existing_blob_paths:
  "p \<in> set (existing_blob_paths portable fs (primary # rest)) \<longleftrightarrow>
     path_exists fs p \<and> (p = primary \<or> (p \<in> set rest \<and> names_match_exactly portable fs (butlast primary) p))"
proof -
  have "p \<in> set (existing_blob_paths portable fs (primary # rest)) \<longleftrightarrow>
      (\<exists>i < length (primary # rest). (primary # rest) ! i = p \<and> path_exists fs p \<and>
        (i = 0 \<or> names_match_exactly portable fs (butlast primary) p))"
    by (force simp: existing_blob_paths_def in_set_enumerate_eq simp del: enumerate_simps)
  also have "\<dots> \<longleftrightarrow> path_exists fs p \<and> (p = primary \<or> (p \<in> set rest \<and> names_match_exactly portable fs (butlast primary) p))"
    by (auto simp: in_set_conv_nth nth_Cons gr0_conv_Suc split: nat.splits) (metis Suc_less_eq)
  finally show ?thesis .
qed

lemma names_listed_first: "names_listed fs d (n # ns) \<Longrightarrow> n \<in> set (read_dir fs d)"
  by (simp split: if_splits)

text \<open>Every file is the blob of an object.\<close>

definition only_blobs :: "codec_lib \<Rightarrow> file_system \<Rightarrow> bool" where
  "only_blobs lib fs \<longleftrightarrow> (\<forall>f \<in> set (fs_files fs). \<exists>b k. f = blob_path lib True b k)"

text \<open>A key whose segments all name something.\<close>

definition normal_key :: "string \<Rightarrow> bool" where
  "normal_key key \<longleftrightarrow> (\<forall>c \<in> set (split_on (CHR ''/'') key). \<not> trivial_segment c)"

lemma split_on_two: "c \<in> set s \<Longrightarrow> \<exists>a b rest. split_on c s = a # b # rest"
proof (induction s)
  case (Cons x xs)
  show ?case
  proof (cases "x = c")
    case True
    then show ?thesis by (cases "split_on c xs") auto
  next
    case False
    with Cons obtain a b rest where "split_on c xs = a # b # rest" by auto
    with False show ?thesis by simp
  qed
qed simp

lemma fold_name_portable_inj: "fold_name fs (encode_portable a) = fold_name fs (encode_portable b) \<Longrightarrow> a = b"
  using portable_inj [of a b] decode_encoded(1) [of a] decode_encoded(1) [of b]
  by (cases "fs_folds fs") (simp_all add: fold_name_def)

lemma listed_blob:
  assumes "only_blobs lib fs" "name \<in> set (read_dir fs d)"
  shows "length d < 3" "length d = 2 \<Longrightarrow> \<exists>k. name = encode_portable k"
proof -
  from assms(2) obtain f where f: "f \<in> set (fs_files fs)" "length d < length f" "name = f ! length d"
    by (auto simp: read_dir_def)
  obtain b k where bk: "f = blob_path lib True b k" using assms(1) f(1) by (auto simp: only_blobs_def)
  show "length d < 3" "length d = 2 \<Longrightarrow> \<exists>k. name = encode_portable k"
    using f bk by (auto simp: blob_path_def encode_blob_filename_def)
qed

lemma normal_components: "normal_key key \<Longrightarrow> path_components key = split_on (CHR ''/'') key"
proof -
  define segments where "segments = split_on (CHR ''/'') key"
  assume "normal_key key"
  then have n: "\<forall>c \<in> set segments. \<not> trivial_segment c" by (simp add: normal_key_def segments_def)
  moreover have "last segments \<in> set segments" by (simp add: segments_def)
  ultimately have "\<not> trivial_segment (last segments)" by blast
  moreover have "filter (\<lambda>c. \<not> trivial_segment c) segments = segments" using n by (simp add: filter_id_conv)
  ultimately show ?thesis by (simp add: path_components_def segments_def [symmetric] Let_def)
qed

lemma push_new_Cons: "\<exists>rest. push_new (x # xs) p = x # rest \<and> set rest \<subseteq> insert p (set xs)"
  by (auto simp: push_new_def)

lemma variants_primary:
  "\<exists>rest. blob_path_variants lib portable bucket key = blob_path lib portable bucket key # rest \<and>
     set rest \<subseteq> {[bucket, hash_prefix lib key, encode_plain key], [bucket, hash_prefix lib key, encode_portable key]} \<union>
       (if CHR ''/'' \<in> set key then {blob_path_legacy lib bucket key} else {})"
proof -
  let ?b = "blob_path lib portable bucket key"
  obtain r1 where r1: "push_new [?b] [bucket, hash_prefix lib key, encode_plain key] = ?b # r1"
    "set r1 \<subseteq> {[bucket, hash_prefix lib key, encode_plain key]}" using push_new_Cons [of ?b "[]"] by fastforce
  obtain r2 where r2: "push_new (?b # r1) [bucket, hash_prefix lib key, encode_portable key] = ?b # r2"
    "set r2 \<subseteq> insert [bucket, hash_prefix lib key, encode_portable key] (set r1)" using push_new_Cons [of ?b r1] by blast
  obtain r3 where r3: "push_new (?b # r2) (blob_path_legacy lib bucket key) = ?b # r3"
    "set r3 \<subseteq> insert (blob_path_legacy lib bucket key) (set r2)" using push_new_Cons [of ?b r2] by blast
  have "blob_path_variants lib portable bucket key = ?b # (if CHR ''/'' \<in> set key then r3 else r2)"
    using r1(1) r2(1) r3(1) by (simp add: blob_path_variants_def Let_def blob_path_def)
  with r1(2) r2(2) r3(2) show ?thesis by auto
qed

lemma existing_is_primary:
  assumes "only_blobs lib fs" "normal_key key" "p \<in> set (existing_blob_paths True fs (blob_path_variants lib True bucket key))"
  shows "p = blob_path lib True bucket key"
proof (rule ccontr)
  assume neq: "p \<noteq> blob_path lib True bucket key"
  let ?shard = "[bucket, hash_prefix lib key]"
  have legacy: "path_components key = split_on (CHR ''/'') key"
    using normal_components [OF assms(2)] .
  obtain rest where var: "blob_path_variants lib True bucket key = blob_path lib True bucket key # rest"
    "set rest \<subseteq> {?shard @ [encode_plain key], ?shard @ [encode_portable key]} \<union>
       (if CHR ''/'' \<in> set key then {blob_path_legacy lib bucket key} else {})"
    using variants_primary [of lib True bucket key] by (metis append_Cons append_Nil)
  have p: "p \<in> set rest" "names_match_exactly True fs ?shard p"
    using assms(3) neq unfolding var(1) in_existing_blob_paths by (simp_all add: blob_path_def)
  consider "p = ?shard @ [encode_plain key]" | "CHR ''/'' \<in> set key" "p = ?shard @ split_on (CHR ''/'') key"
  proof -
    have "p \<noteq> ?shard @ [encode_portable key]" using neq by (simp add: blob_path_def encode_blob_filename_def)
    with p(1) var(2) show thesis using that by (auto simp: blob_path_legacy_def legacy split: if_splits)
  qed
  then show False
  proof cases
    case 1
    have "key \<noteq> []" using assms(2) by (auto simp: normal_key_def trivial_segment_def)
    then have "encode_plain key \<noteq> []" using decode_plain [of key] by force
    with p(2) 1 have "encode_plain key \<in> set (read_dir fs ?shard)"
      by (simp add: names_match_exactly_def components_def split: if_splits)
    from listed_blob(2) [OF assms(1) this] obtain k where "encode_plain key = encode_portable k" by auto
    then have "encode_plain key = encode_portable key" using plain_portable_inj by metis
    with 1 neq show False by (simp add: blob_path_def encode_blob_filename_def)
  next
    case 2
    obtain a b rest' where sp: "split_on (CHR ''/'') key = a # b # rest'" using split_on_two [OF 2(1)] by blast
    then have "a \<noteq> []" "b \<noteq> []" using assms(2) by (auto simp: normal_key_def trivial_segment_def)
    then have "components (a # b # rest') = a # b # components rest'" by (simp add: components_def)
    then have "names_listed fs ?shard (a # b # components rest')"
      using p(2) 2(2) sp by (simp add: names_match_exactly_def)
    then have "b \<in> set (read_dir fs (?shard @ [a]))" by (simp split: if_splits)
    from listed_blob(1) [OF assms(1) this] show False by simp
  qed
qed

lemma variants_legacy:
  "CHR ''/'' \<in> set key \<Longrightarrow>
     \<exists>q \<in> set (blob_path_variants lib portable bucket key). components q = components (blob_path_legacy lib bucket key)"
proof -
  assume "CHR ''/'' \<in> set key"
  then obtain ps where ps: "blob_path_variants lib portable bucket key = push_new ps (blob_path_legacy lib bucket key)"
    by (simp add: blob_path_variants_def Let_def)
  have "components p \<in> components ` set (push_new ps p)" for p by (simp add: push_new_def)
  then show ?thesis unfolding ps by (metis imageE)
qed

lemma encoded_differs:
  assumes "a \<noteq> b" "encode_blob_filename portable b = b"
  shows "encode_plain a \<noteq> b" "encode_portable a \<noteq> b" "encode_blob_filename portable a \<noteq> b"
proof -
  have "decode_bytes b = b" using decode_encoded(2) [of portable b] assms(2) by simp
  then show "encode_plain a \<noteq> b" "encode_portable a \<noteq> b" "encode_blob_filename portable a \<noteq> b"
    using assms(1) decode_plain [of a] decode_encoded(1) [of a] decode_encoded(2) [of portable a] by auto
qed

section \<open>Properties\<close>

text \<open>
  C25: A blob's filename is decoded back to the object's key in both filename schemes, also from the path
  relative to the bucket that reconcile reads, and on a file system that ignores case no two keys
  share a portable filename.
\<close>

theorem filename_roundtrip:
  assumes "utf8_valid key" "key \<noteq> []"
  shows "decode_blob_filename (encode_blob_filename portable key) = key \<and>
    object_key_from_blob_relpath (hash_prefix lib key @ ''/'' @ encode_blob_filename portable key) = Some key \<and>
    (\<forall>other. to_ascii_lowercase (encode_portable other) = to_ascii_lowercase (encode_portable key) \<longrightarrow> other = key)"
proof -
  have "CHR ''/'' \<notin> set (hash_prefix lib key)" using hash_prefix_entry [of lib key] by (simp add: entry_name_def)
  then have sp: "split_once (CHR ''/'') (hash_prefix lib key @ CHR ''/'' # encode_blob_filename portable key) =
      Some (hash_prefix lib key, encode_blob_filename portable key)" by (rule split_once_append)
  have "CHR ''/'' \<notin> set (encode_blob_filename portable key)"
    using plain_chars [of "CHR ''/''" key] portable_chars [of "CHR ''/''" _ key]
    by (auto simp: encode_blob_filename_def encode_portable_def)
  moreover have "encode_blob_filename portable key \<noteq> []"
    using decode_encoded(2) [of portable key] assms(2) by auto
  ultimately show ?thesis
    using decode_filename [OF assms(1)] portable_inj sp by (auto simp: object_key_from_blob_relpath_def)
qed

theorem filename_roundtrip_witness:
  "decode_blob_filename (encode_blob_filename True ''Con/a%b'') = ''Con/a%b''"
proof -
  have "utf8_valid ''Con/a%b''" by (simp add: utf8_valid.simps utf8_next_def Let_def code_def)
  from filename_roundtrip [OF this, of True toy_lib] show ?thesis by simp
qed

text \<open>
  C24: Sanitized names never leave their directory. The path of a blob consists of the bucket, the shard
  and one filename, none of which is empty, \<open>.\<close>, \<open>..\<close> or contains a slash or NUL, for every bucket and
  key that pass \<^verbatim>\<open>sanitize_bucket\<close> and \<^verbatim>\<open>sanitize_key\<close> except the key \<open>.\<close>; and the same holds for every
  component of the legacy path.
\<close>

theorem blob_paths_contained:
  assumes "sanitize_bucket raw_bucket = Inr bucket" "sanitize_key raw_key = Inr key" "key \<noteq> ''.''"
  shows "(\<forall>c \<in> set (blob_path lib portable bucket key). entry_name c) \<and>
    (\<forall>c \<in> set (components (blob_path_legacy lib bucket key)). entry_name c)"
  using bucket_entry [OF assms(1)] hash_prefix_entry [of lib key] filename_entry [OF assms(2,3), of portable] legacy_entries [OF assms(2)]
  by (auto simp: blob_path_def blob_path_legacy_def components_def)

theorem blob_paths_contained_witness:
  "list_all entry_name (blob_path toy_lib False ''media'' ''a/b'')"
proof -
  have "sanitize_bucket ''media'' = Inr ''media''" "sanitize_key ''a/b'' = Inr ''a/b''" by code_simp+
  from blob_paths_contained [OF this, of toy_lib False] show ?thesis by (simp add: list_all_iff)
qed





end
