(* ===== verification/Replication_Log.thy ===== *)
theory Replication_Log
  imports Http_Range Object_Names "HOL-Library.AList" "HOL-Library.Char_ord" "HOL-Library.List_Lexorder"
begin

text \<open>
  The replication tables of a node: per-key versions (\<^verbatim>\<open>src/cluster/replicated/versions.rs\<close>) and the
  log of events (\<^verbatim>\<open>src/cluster/replicated/log.rs\<close>), with the SQL statements as operations on the rows. A
  table is the list of its rows in the order SQLite scans them. The clock (microseconds), the UUID of
  a new event and the scan order are arguments or state, so every result holds for all of them.
  \<open>i64\<close> columns are integers: the values are times and counts far below \<open>2 ^ 63\<close>, except in
  \<open>effective_version\<close>, where the source saturates.

  Results: versions are linearly ordered and survive the header; a local change always gets a later
  version; retries back off and end; pruning in batches removes exactly the finished rows; the list of
  reached peers is read back as it was written.
\<close>

section \<open>Versions\<close>

datatype version = Version (micros: int) (origin: string)

definition version_le :: "version \<Rightarrow> version \<Rightarrow> bool" where
  "version_le a b \<longleftrightarrow> micros a < micros b \<or> (micros a = micros b \<and> origin a \<le> origin b)"

instantiation version :: linorder
begin

definition less_eq_version :: "version \<Rightarrow> version \<Rightarrow> bool" where
  "less_eq_version = version_le"

definition less_version :: "version \<Rightarrow> version \<Rightarrow> bool" where
  "less_version a b \<longleftrightarrow> version_le a b \<and> \<not> version_le b a"

instance
proof
  fix a b c :: version
  show "a < b \<longleftrightarrow> a \<le> b \<and> \<not> b \<le> a" by (simp add: less_eq_version_def less_version_def)
  show "a \<le> a" by (simp add: less_eq_version_def version_le_def)
  show "a \<le> b \<Longrightarrow> b \<le> c \<Longrightarrow> a \<le> c" by (auto simp: less_eq_version_def version_le_def)
  show "a \<le> b \<Longrightarrow> b \<le> a \<Longrightarrow> a = b" by (cases a; cases b) (auto simp: less_eq_version_def version_le_def)
  show "a \<le> b \<or> b \<le> a" by (auto simp: less_eq_version_def version_le_def)
qed

end

definition to_header :: "version \<Rightarrow> string" where
  "to_header v = show_int (micros v) @ '';'' @ origin v"

definition from_header :: "string \<Rightarrow> version option" where
  "from_header value =
     (case split_once (CHR '';'') value of
        None \<Rightarrow> None
      | Some (m, org) \<Rightarrow> map_option (\<lambda>i. Version i org) (parse_i64 (trim m)))"

record key_version =
  kv_version :: version
  kv_deleted :: bool

record version_row =
  vr_state :: key_version
  vr_recorded_at :: int

type_synonym obj_key = "string \<times> string"

section \<open>The event log\<close>

datatype replication_op = Op_put | Op_delete

definition op_as_str :: "replication_op \<Rightarrow> string" where
  "op_as_str op = (case op of Op_put \<Rightarrow> ''put'' | Op_delete \<Rightarrow> ''delete'')"

definition op_parse :: "string \<Rightarrow> replication_op option" where
  "op_parse s = (if s = ''put'' \<or> s = ''copy'' then Some Op_put else if s = ''delete'' then Some Op_delete else None)"

record replication_event =
  ev_id :: string
  ev_origin :: string
  ev_op :: replication_op
  ev_bucket :: string
  ev_key :: string
  ev_etag :: "string option"
  ev_size :: "int option"
  ev_payload_path :: "string option"
  ev_storage_class :: string
  ev_group :: string
  ev_content_type :: "string option"
  ev_custom_meta :: "string option"
  ev_wire_checksum :: "string option"
  ev_created_at :: int
  ev_version :: int

definition saturate_i64 :: "int \<Rightarrow> int" where
  "saturate_i64 i = max (- (2 ^ 63)) (min (2 ^ 63 - 1) i)"

definition effective_version :: "replication_event \<Rightarrow> version" where
  "effective_version ev =
     Version (if 0 < ev_version ev then ev_version ev else saturate_i64 (ev_created_at ev * 1000000)) (ev_origin ev)"

datatype log_status = Pending | Failed | Dead_letter | Sent | Applied | Superseded

text \<open>A row of \<^verbatim>\<open>replication_log\<close>: the columns of the event, its operation as text, and the delivery state.\<close>

record log_row =
  lr_event :: replication_event
  lr_op :: string
  lr_status :: log_status
  lr_attempts :: int
  lr_next_retry_at :: "int option"
  lr_delivered_to :: "string option"
  lr_applied_at :: "int option"

record repl_db =
  db_versions :: "(obj_key \<times> version_row) list"
  db_log :: "log_row list"

section \<open>Statements on the versions\<close>

definition load_version :: "repl_db \<Rightarrow> obj_key \<Rightarrow> key_version option" where
  "load_version db k = map_option vr_state (map_of (db_versions db) k)"

definition put_version :: "int \<Rightarrow> obj_key \<Rightarrow> key_version \<Rightarrow> repl_db \<Rightarrow> repl_db" where
  "put_version now_us k kv db =
     db\<lparr>db_versions := AList.update k \<lparr>vr_state = kv, vr_recorded_at = now_us div 1000000\<rparr> (db_versions db)\<rparr>"

definition store_local :: "int \<Rightarrow> obj_key \<Rightarrow> string \<Rightarrow> bool \<Rightarrow> repl_db \<Rightarrow> int \<times> repl_db" where
  "store_local now_us k org deleted db =
     (let v = (case load_version db k of
                 None \<Rightarrow> now_us
               | Some kv \<Rightarrow> max now_us (micros (kv_version kv) + 1)) in
      (v, put_version now_us k \<lparr>kv_version = Version v org, kv_deleted = deleted\<rparr> db))"

definition store :: "int \<Rightarrow> obj_key \<Rightarrow> key_version \<Rightarrow> repl_db \<Rightarrow> repl_db" where
  "store now_us k state db = put_version now_us k state db"

definition store_if_absent :: "int \<Rightarrow> obj_key \<Rightarrow> key_version \<Rightarrow> repl_db \<Rightarrow> version \<times> repl_db" where
  "store_if_absent now_us k state db =
     (case load_version db k of
        Some kv \<Rightarrow> (kv_version kv, db)
      | None \<Rightarrow> (kv_version state, put_version now_us k state db))"

text \<open>\<^verbatim>\<open>DELETE ... WHERE rowid IN (SELECT ... LIMIT n)\<close>: the first \<open>n\<close> matching rows go.\<close>

fun delete_first :: "nat \<Rightarrow> ('a \<Rightarrow> bool) \<Rightarrow> 'a list \<Rightarrow> nat \<times> 'a list" where
  "delete_first n P [] = (0, [])"
| "delete_first n P (x # xs) =
     (if 0 < n \<and> P x then (case delete_first (n - 1) P xs of (k, ys) \<Rightarrow> (k + 1, ys))
      else (case delete_first n P xs of (k, ys) \<Rightarrow> (k, x # ys)))"

definition old_tombstone :: "int \<Rightarrow> obj_key \<times> version_row \<Rightarrow> bool" where
  "old_tombstone before_s r \<longleftrightarrow> kv_deleted (vr_state (snd r)) \<and> vr_recorded_at (snd r) < before_s"

definition prune_tombstones :: "int \<Rightarrow> nat \<Rightarrow> repl_db \<Rightarrow> nat \<times> repl_db" where
  "prune_tombstones before_s limit db =
     (case delete_first limit (old_tombstone before_s) (db_versions db) of
        (n, rows) \<Rightarrow> (n, db\<lparr>db_versions := rows\<rparr>))"

section \<open>Statements on the log\<close>

definition has_event :: "repl_db \<Rightarrow> string \<Rightarrow> bool" where
  "has_event db eid \<longleftrightarrow> (\<exists>r \<in> set (db_log db). ev_id (lr_event r) = eid)"

definition update_row :: "string \<Rightarrow> (log_row \<Rightarrow> log_row) \<Rightarrow> repl_db \<Rightarrow> repl_db" where
  "update_row eid f db = db\<lparr>db_log := map (\<lambda>r. if ev_id (lr_event r) = eid then f r else r) (db_log db)\<rparr>"

definition insert_pending :: "replication_event \<Rightarrow> repl_db \<Rightarrow> repl_db result" where
  "insert_pending ev db =
     (if has_event db (ev_id ev) then Err (Internal ''UNIQUE constraint failed: replication_log.event_id'')
      else Ok (db\<lparr>db_log := db_log db @ [\<lparr>lr_event = ev, lr_op = op_as_str (ev_op ev), lr_status = Pending, lr_attempts = 0,
        lr_next_retry_at = None, lr_delivered_to = None, lr_applied_at = None\<rparr>]\<rparr>))"

definition insert_applied :: "int \<Rightarrow> replication_event \<Rightarrow> repl_db \<Rightarrow> bool \<times> repl_db" where
  "insert_applied now_us ev db =
     (if has_event db (ev_id ev) then (False, db)
      else (True, db\<lparr>db_log := db_log db @ [\<lparr>lr_event = ev, lr_op = op_as_str (ev_op ev), lr_status = Applied, lr_attempts = 0,
        lr_next_retry_at = None, lr_delivered_to = None, lr_applied_at = Some (now_us div 1000000)\<rparr>]\<rparr>))"

definition record_applied :: "int \<Rightarrow> replication_event \<Rightarrow> repl_db \<Rightarrow> bool \<times> repl_db" where
  "record_applied now_us ev db = insert_applied now_us ev db"

definition relative_blob_path :: "codec_lib \<Rightarrow> bool \<Rightarrow> string \<Rightarrow> string \<Rightarrow> string" where
  "relative_blob_path lib portable bucket key =
     dropWhile (\<lambda>c. c = CHR ''/'' \<or> c = CHR 92) (blob_rel_path lib portable bucket key)"

text \<open>The identity of a log: codec and filename scheme for the recorded path, and the node.\<close>

record repl_log_env =
  le_lib :: codec_lib
  le_portable :: bool
  le_origin :: string

definition put_event ::
    "repl_log_env \<Rightarrow> string \<Rightarrow> int \<Rightarrow> object_metadata \<Rightarrow> string \<Rightarrow> string \<Rightarrow> int \<Rightarrow> replication_event" where
  "put_event env uuid now_us meta cls grp version =
     \<lparr>ev_id = uuid, ev_origin = le_origin env, ev_op = Op_put, ev_bucket = om_bucket meta, ev_key = om_key meta,
      ev_etag = om_etag meta, ev_size = Some (om_size meta),
      ev_payload_path = Some (relative_blob_path (le_lib env) (le_portable env) (om_bucket meta) (om_key meta)),
      ev_storage_class = cls, ev_group = grp, ev_content_type = om_mime_type meta, ev_custom_meta = om_custom_meta meta,
      ev_wire_checksum = (case om_etag meta of None \<Rightarrow> None | Some e \<Rightarrow> if e = [] then None else Some e),
      ev_created_at = now_us div 1000000, ev_version = version\<rparr>"

definition delete_event ::
    "repl_log_env \<Rightarrow> string \<Rightarrow> int \<Rightarrow> string \<Rightarrow> string \<Rightarrow> string \<Rightarrow> string \<Rightarrow> int \<Rightarrow> replication_event" where
  "delete_event env uuid now_us bucket key cls grp version =
     \<lparr>ev_id = uuid, ev_origin = le_origin env, ev_op = Op_delete, ev_bucket = bucket, ev_key = key,
      ev_etag = None, ev_size = None, ev_payload_path = None, ev_storage_class = cls, ev_group = grp,
      ev_content_type = None, ev_custom_meta = None, ev_wire_checksum = None,
      ev_created_at = now_us div 1000000, ev_version = version\<rparr>"

definition enqueue_put ::
    "repl_log_env \<Rightarrow> string \<Rightarrow> int \<Rightarrow> object_metadata \<Rightarrow> string \<Rightarrow> string \<Rightarrow> repl_db \<Rightarrow> replication_event result \<times> repl_db" where
  "enqueue_put env uuid now_us meta cls grp db =
     (let implied = \<lparr>kv_version = Version (om_updated_at meta div 1000) (le_origin env), kv_deleted = False\<rparr> in
      case store_if_absent now_us (om_bucket meta, om_key meta) implied db of
        (version, db1) \<Rightarrow>
          let ev = put_event env uuid now_us meta cls grp (micros version) in
          (case insert_pending ev db1 of
             Ok db2 \<Rightarrow> (Ok ev, db2)
           | Err e \<Rightarrow> (Err e, db1)
           | Panic \<Rightarrow> (Panic, db1)))"

text \<open>A failed statement rolls the transaction back.\<close>

definition enqueue_delete ::
    "repl_log_env \<Rightarrow> string \<Rightarrow> int \<Rightarrow> string \<Rightarrow> string \<Rightarrow> string \<Rightarrow> string \<Rightarrow> repl_db \<Rightarrow> replication_event result \<times> repl_db" where
  "enqueue_delete env uuid now_us bucket key cls grp db =
     (case store_local now_us (bucket, key) (le_origin env) True db of
        (version, db1) \<Rightarrow>
          let ev = delete_event env uuid now_us bucket key cls grp version in
          (case insert_pending ev db1 of
             Ok db2 \<Rightarrow> (Ok ev, db2)
           | Err e \<Rightarrow> (Err e, db)
           | Panic \<Rightarrow> (Panic, db)))"

datatype committed = Written object_metadata | Deleted "string option"

definition record_local_change ::
    "repl_log_env \<Rightarrow> string \<Rightarrow> int \<Rightarrow> string \<Rightarrow> string \<Rightarrow> committed \<Rightarrow> string \<Rightarrow> string \<Rightarrow> repl_db \<Rightarrow> unit result \<times> repl_db" where
  "record_local_change env uuid now_us bucket key c write_class grp db =
     (let deleted = (case c of Deleted _ \<Rightarrow> True | Written _ \<Rightarrow> False) in
      case store_local now_us (bucket, key) (le_origin env) deleted db of
        (version, db1) \<Rightarrow>
          let ev = (case c of
                      Written meta \<Rightarrow> put_event env uuid now_us meta write_class grp version
                    | Deleted cls \<Rightarrow>
                        delete_event env uuid now_us bucket key (case cls of Some s \<Rightarrow> s | None \<Rightarrow> write_class) grp version) in
          (case insert_pending ev db1 of
             Ok db2 \<Rightarrow> (Ok (), db2)
           | Err e \<Rightarrow> (Err e, db)
           | Panic \<Rightarrow> (Panic, db)))"

definition record_remote_change :: "int \<Rightarrow> string \<Rightarrow> string \<Rightarrow> replication_event \<Rightarrow> repl_db \<Rightarrow> repl_db" where
  "record_remote_change now_us bucket key ev db =
     snd (insert_applied now_us ev
       (store now_us (bucket, key) \<lparr>kv_version = effective_version ev, kv_deleted = (ev_op ev = Op_delete)\<rparr> db))"

definition log_key_version :: "repl_db \<Rightarrow> string \<Rightarrow> string \<Rightarrow> key_version option" where
  "log_key_version db bucket key =
     (case sanitize_key key of Inl _ \<Rightarrow> None | Inr k \<Rightarrow> load_version db (bucket, k))"

definition record_restored :: "int \<Rightarrow> string \<Rightarrow> string \<Rightarrow> version \<Rightarrow> repl_db \<Rightarrow> repl_db" where
  "record_restored now_us bucket key v db = store now_us (bucket, key) \<lparr>kv_version = v, kv_deleted = False\<rparr> db"

section \<open>Delivery state\<close>

definition due :: "int \<Rightarrow> log_row \<Rightarrow> bool" where
  "due now_s r \<longleftrightarrow>
     lr_status r = Pending \<or>
     (lr_status r = Failed \<and> (case lr_next_retry_at r of None \<Rightarrow> True | Some t \<Rightarrow> t \<le> now_s))"

definition into_event :: "log_row \<Rightarrow> replication_event result" where
  "into_event r =
     (case op_parse (lr_op r) of
        None \<Rightarrow> Err (Internal (''unknown replication op: '' @ lr_op r))
      | Some op \<Rightarrow> Ok ((lr_event r)\<lparr>ev_op := op\<rparr>))"

definition delivered_peers :: "string option \<Rightarrow> string list" where
  "delivered_peers col = filter (\<lambda>p. p \<noteq> []) (split_on (CHR '','') (case col of None \<Rightarrow> [] | Some s \<Rightarrow> s))"

record pending_delivery =
  pd_event :: replication_event
  pd_delivered_to :: "string list"

primrec collect_results :: "'a result list \<Rightarrow> 'a list result" where
  "collect_results [] = Ok []"
| "collect_results (x # xs) = and_then x (\<lambda>a. and_then (collect_results xs) (\<lambda>as. Ok (a # as)))"

definition list_pending_deliveries :: "int \<Rightarrow> nat \<Rightarrow> repl_db \<Rightarrow> pending_delivery list result \<times> repl_db" where
  "list_pending_deliveries now_s limit db =
     (let rows = take limit (sort_key (\<lambda>r. ev_created_at (lr_event r)) (filter (due now_s) (db_log db)));
          db' = fold (\<lambda>r. if lr_status r = Failed then update_row (ev_id (lr_event r)) (lr_status_update (\<lambda>_. Pending)) else id)
                  rows db in
      (collect_results (map (\<lambda>r. and_then (into_event r) (\<lambda>ev.
         Ok \<lparr>pd_event = ev, pd_delivered_to = delivered_peers (lr_delivered_to r)\<rparr>)) rows), db'))"

definition list_pending :: "int \<Rightarrow> nat \<Rightarrow> repl_db \<Rightarrow> replication_event list result \<times> repl_db" where
  "list_pending now_s limit db =
     (case list_pending_deliveries now_s limit db of
        (res, db') \<Rightarrow> (and_then res (\<lambda>ps. Ok (map pd_event ps)), db'))"

definition count_pending :: "int \<Rightarrow> repl_db \<Rightarrow> nat" where
  "count_pending now_s db = length (filter (due now_s) (db_log db))"

record status_report =
  sr_pending :: nat
  sr_failed :: nat
  sr_dead_letter :: nat
  sr_sent :: nat
  sr_applied :: nat
  sr_superseded :: nat
  sr_oldest_age :: "int option"

definition status_report_of :: "int \<Rightarrow> repl_db \<Rightarrow> status_report" where
  "status_report_of now_s db =
     (let count = (\<lambda>s. length (filter (\<lambda>r. lr_status r = s) (db_log db)));
          waiting = map (\<lambda>r. ev_created_at (lr_event r)) (filter (\<lambda>r. lr_status r = Pending \<or> lr_status r = Failed) (db_log db)) in
      \<lparr>sr_pending = count Pending, sr_failed = count Failed, sr_dead_letter = count Dead_letter, sr_sent = count Sent,
       sr_applied = count Applied, sr_superseded = count Superseded,
       sr_oldest_age = (if waiting = [] then None else Some (max 0 (saturate_i64 (now_s - Min (set waiting)))))\<rparr>)"

definition set_status :: "string \<Rightarrow> log_status \<Rightarrow> repl_db \<Rightarrow> repl_db" where
  "set_status eid s db = update_row eid (lr_status_update (\<lambda>_. s)) db"

definition mark_sent :: "string \<Rightarrow> repl_db \<Rightarrow> repl_db" where
  "mark_sent eid db = set_status eid Sent db"

definition mark_superseded :: "string \<Rightarrow> repl_db \<Rightarrow> repl_db" where
  "mark_superseded eid db = set_status eid Superseded db"

definition mark_delivered :: "string \<Rightarrow> string \<Rightarrow> repl_db \<Rightarrow> repl_db" where
  "mark_delivered eid peer db =
     update_row eid (lr_delivered_to_update (\<lambda>d. Some ((case d of None \<Rightarrow> [] | Some s \<Rightarrow> s @ '','') @ peer))) db"

definition backoff :: "int \<Rightarrow> int" where
  "backoff attempts = min (2 ^ nat (min attempts 10)) 3600"

definition mark_failed :: "int \<Rightarrow> string \<Rightarrow> nat \<Rightarrow> repl_db \<Rightarrow> repl_db" where
  "mark_failed now_s eid max_attempts db =
     (let attempts = (case find (\<lambda>r. ev_id (lr_event r) = eid) (db_log db) of None \<Rightarrow> 0 | Some r \<Rightarrow> lr_attempts r) + 1 in
      if int (max max_attempts 1) \<le> attempts
      then update_row eid (\<lambda>r. r\<lparr>lr_status := Dead_letter, lr_attempts := attempts\<rparr>) db
      else update_row eid (\<lambda>r. r\<lparr>lr_status := Failed, lr_attempts := attempts,
             lr_next_retry_at := Some (now_s + backoff attempts)\<rparr>) db)"

definition replay_dead_letter :: "string \<Rightarrow> repl_db \<Rightarrow> bool \<times> repl_db" where
  "replay_dead_letter eid db =
     ((\<exists>r \<in> set (db_log db). ev_id (lr_event r) = eid \<and> lr_status r = Dead_letter),
      update_row eid (\<lambda>r. if lr_status r = Dead_letter
        then r\<lparr>lr_status := Pending, lr_attempts := 0, lr_next_retry_at := None\<rparr> else r) db)"

abbreviation (input) PRUNE_BATCH :: nat where "PRUNE_BATCH \<equiv> 5000"

definition finished_before :: "int \<Rightarrow> log_row \<Rightarrow> bool" where
  "finished_before before_s r \<longleftrightarrow> lr_status r \<in> {Sent, Applied, Superseded} \<and> ev_created_at (lr_event r) < before_s"

text \<open>The loops of \<^verbatim>\<open>prune_history\<close>: batches until one comes back short.\<close>

lemma delete_first_length: "length (snd (delete_first n P xs)) + fst (delete_first n P xs) = length xs"
  by (induction n P xs rule: delete_first.induct) (auto split: prod.splits)

function delete_batches :: "nat \<Rightarrow> ('a \<Rightarrow> bool) \<Rightarrow> 'a list \<Rightarrow> nat \<times> 'a list" where
  "delete_batches batch P xs =
     (case delete_first batch P xs of
        (removed, ys) \<Rightarrow>
          if removed < batch \<or> batch = 0 then (removed, ys)
          else (case delete_batches batch P ys of (more_removed, zs) \<Rightarrow> (removed + more_removed, zs)))"
  by pat_completeness auto
termination
proof (relation "measure (\<lambda>(b, P, xs). length xs)", goal_cases)
  case (2 batch P xs removed ys)
  then show ?case using delete_first_length [of batch P xs] by (cases "delete_first batch P xs") auto
qed simp

declare delete_batches.simps [simp del]

record prune_report =
  pr_events :: nat
  pr_tombstones :: nat

definition prune_history :: "int \<Rightarrow> int \<Rightarrow> repl_db \<Rightarrow> prune_report \<times> repl_db" where
  "prune_history now_s retention_secs db =
     (let before_s = saturate_i64 (now_s - retention_secs) in
      case delete_batches PRUNE_BATCH (finished_before before_s) (db_log db) of
        (events, rows) \<Rightarrow>
          (case delete_batches PRUNE_BATCH (old_tombstone before_s) (db_versions db) of
             (tombstones, vs) \<Rightarrow> (\<lparr>pr_events = events, pr_tombstones = tombstones\<rparr>, \<lparr>db_versions = vs, db_log = rows\<rparr>)))"


section \<open>Ordering and headers\<close>

lemma less_eq_version_iff:
  "a \<le> b \<longleftrightarrow> micros a < micros b \<or> (micros a = micros b \<and> origin a \<le> origin b)"
  by (simp add: less_eq_version_def version_le_def)

lemma less_version_iff:
  "a < b \<longleftrightarrow> micros a < micros b \<or> (micros a = micros b \<and> origin a < origin b)"
  by (auto simp: less_version_def version_le_def)

lemma show_int_chars: "c \<in> set (show_int i) \<Longrightarrow> c = CHR ''-'' \<or> (\<exists>d < 10. c = digit_char d)"
  by (auto simp: show_int_def split: if_splits dest: show_nat_digits)

lemma show_int_no_semicolon: "CHR '';'' \<notin> set (show_int i)"
proof
  assume "CHR '';'' \<in> set (show_int i)"
  then obtain d where "d < 10" "digit_char d = CHR '';''" using show_int_chars [of "CHR '';''" i] by auto
  then show False using digit_char_inject [of d "CHR '';''" 59] by simp
qed

lemma show_int_not_space: "c \<in> set (show_int i) \<Longrightarrow> \<not> is_ascii_space c"
proof -
  assume c: "c \<in> set (show_int i)"
  have "\<not> is_ascii_space (digit_char d)" if "d < 10" for d
  proof -
    have "of_char (digit_char d) = d + 48" using that by simp
    then show ?thesis unfolding is_ascii_space_def using that
      by (auto dest: arg_cong [where f = "of_char :: char \<Rightarrow> nat"])
  qed
  moreover have "\<not> is_ascii_space (CHR ''-'')" by (simp add: is_ascii_space_def)
  ultimately show ?thesis using show_int_chars [OF c] by blast
qed

lemma trim_show_int: "trim (show_int i) = show_int i"
proof -
  have "dropWhile is_ascii_space xs = xs" if "\<forall>c \<in> set xs. \<not> is_ascii_space c" for xs
    using that by (cases xs) auto
  from this [of "show_int i"] this [of "rev (show_int i)"] show ?thesis
    using show_int_not_space [of _ i] by (simp add: trim_def trim_start_def trim_end_def)
qed

lemma header_roundtrip:
  "- (2 ^ 63) \<le> micros v \<Longrightarrow> micros v < 2 ^ 63 \<Longrightarrow> from_header (to_header v) = Some v"
  by (simp add: from_header_def to_header_def split_once_append show_int_no_semicolon trim_show_int parse_i64_show)

section \<open>Versions as a table\<close>

lemma load_put_version [simp]:
  "load_version (put_version t k kv db) k' = (if k' = k then Some kv else load_version db k')"
  by (simp add: load_version_def put_version_def update_conv')

lemma db_log_put_version [simp]: "db_log (put_version t k kv db) = db_log db"
  by (simp add: put_version_def)

lemma load_insert_applied [simp]: "load_version (snd (insert_applied t ev db)) k = load_version db k"
  by (simp add: insert_applied_def load_version_def)

lemma load_insert_pending: "insert_pending ev db = Ok db' \<Longrightarrow> load_version db' k = load_version db k"
  by (auto simp: insert_pending_def load_version_def split: if_splits)

lemma has_event_insert_applied [simp]:
  "has_event (snd (insert_applied t ev db)) i \<longleftrightarrow> i = ev_id ev \<or> has_event db i"
  by (auto simp: insert_applied_def has_event_def)

lemma has_event_put_version [simp]: "has_event (put_version t k kv db) i = has_event db i"
  by (simp add: has_event_def)

section \<open>Batched deletion\<close>

lemma delete_first_spec:
  "fst (delete_first n P xs) = min n (length (filter P xs)) \<and>
   filter (\<lambda>x. \<not> P x) (snd (delete_first n P xs)) = filter (\<lambda>x. \<not> P x) xs \<and>
   length (filter P (snd (delete_first n P xs))) = length (filter P xs) - n"
  by (induction n P xs rule: delete_first.induct) (auto split: prod.splits)

lemma delete_batches_spec:
  "0 < batch \<Longrightarrow> delete_batches batch P xs = (length (filter P xs), filter (\<lambda>x. \<not> P x) xs)"
proof (induction batch P xs rule: delete_batches.induct)
  case (1 batch P xs)
  obtain removed ys where d: "delete_first batch P xs = (removed, ys)" by fastforce
  note spec = delete_first_spec [of batch P xs, unfolded d, simplified]
  show ?case
  proof (cases "removed < batch")
    case True
    with spec have "filter P ys = []" by auto
    then have "filter (\<lambda>x. \<not> P x) ys = ys" by (simp add: filter_empty_conv)
    with True spec show ?thesis by (subst delete_batches.simps) (auto simp: d)
  next
    case False
    with 1 d have "delete_batches batch P ys = (length (filter P ys), filter (\<lambda>x. \<not> P x) ys)" by simp
    with False spec 1(2) show ?thesis by (subst delete_batches.simps) (auto simp: d)
  qed
qed

lemma prune_history_filters:
  "before_s = saturate_i64 (now_s - retention) \<Longrightarrow>
   prune_history now_s retention db =
     (\<lparr>pr_events = length (filter (finished_before before_s) (db_log db)),
       pr_tombstones = length (filter (old_tombstone before_s) (db_versions db))\<rparr>,
      \<lparr>db_versions = filter (\<lambda>r. \<not> old_tombstone before_s r) (db_versions db),
       db_log = filter (\<lambda>r. \<not> finished_before before_s r) (db_log db)\<rparr>)"
  by (simp add: prune_history_def delete_batches_spec Let_def)

section \<open>Retries\<close>

lemma backoff_bounds: "1 \<le> n \<Longrightarrow> backoff n = 2 ^ nat (min n 10) \<and> 2 \<le> backoff n \<and> backoff n \<le> 1024"
proof -
  assume n: "1 \<le> n"
  define m where "m = nat (min n 10)"
  have m: "1 \<le> m" "m \<le> 10" using n by (auto simp: m_def)
  have "(2 :: int) ^ m \<le> 2 ^ 10" "(2 :: int) ^ 1 \<le> 2 ^ m" using m by (intro power_increasing; simp)+
  then show ?thesis unfolding backoff_def m_def [symmetric] by simp
qed

text \<open>The rows of one event, which the primary key makes at most one.\<close>

definition event_row :: "repl_db \<Rightarrow> string \<Rightarrow> log_row option" where
  "event_row db eid = find (\<lambda>r. ev_id (lr_event r) = eid) (db_log db)"

lemma find_map_same:
  assumes "\<And>r. ev_id (lr_event (f r)) = ev_id (lr_event r)"
  shows "find (\<lambda>r. ev_id (lr_event r) = i) (map (\<lambda>r. if ev_id (lr_event r) = eid then f r else r) xs) =
    map_option (\<lambda>r. if i = eid then f r else r) (find (\<lambda>r. ev_id (lr_event r) = i) xs)"
  by (induction xs) (auto simp: assms)

lemma event_row_update:
  assumes "\<And>r. ev_id (lr_event (f r)) = ev_id (lr_event r)"
  shows "event_row (update_row eid f db) i = map_option (\<lambda>r. if i = eid then f r else r) (event_row db i)"
  by (simp add: event_row_def update_row_def find_map_same [OF assms])

lemma event_row_mark_failed:
  "event_row (mark_failed now_s eid m db) i = map_option (\<lambda>r.
     if i \<noteq> eid then r
     else if int (max m 1) \<le> lr_attempts r + 1 then r\<lparr>lr_status := Dead_letter, lr_attempts := lr_attempts r + 1\<rparr>
     else r\<lparr>lr_status := Failed, lr_attempts := lr_attempts r + 1,
            lr_next_retry_at := Some (now_s + backoff (lr_attempts r + 1))\<rparr>) (event_row db i)"
  by (cases "event_row db i"; cases "i = eid")
     (auto simp: mark_failed_def Let_def event_row_update simp flip: event_row_def)


lemma event_row_repeated_failures:
  assumes "event_row db eid = Some r" and "lr_attempts r = 0" and "ts \<noteq> []" and "length ts < max m 1"
  shows "\<exists>r'. event_row (fold (\<lambda>t. mark_failed t eid m) ts db) eid = Some r' \<and> lr_status r' = Failed \<and>
    lr_attempts r' = int (length ts) \<and> lr_next_retry_at r' = Some (last ts + backoff (int (length ts)))"
  using assms(3,4)
proof (induction ts rule: rev_induct)
  case (snoc t ts)
  show ?case
  proof (cases "ts = []")
    case True
    with snoc assms show ?thesis by (auto simp: event_row_mark_failed)
  next
    case False
    moreover have "length ts < max m 1" using snoc(3) by simp
    ultimately obtain r' where "event_row (fold (\<lambda>t. mark_failed t eid m) ts db) eid = Some r'"
      "lr_attempts r' = int (length ts)" using snoc(1) by blast
    with snoc(3) show ?thesis by (auto simp: event_row_mark_failed add.commute)
  qed
qed simp

lemma event_row_last_failure:
  assumes "event_row db eid = Some r" and "lr_attempts r = 0" and "length ts = max m 1"
  shows "\<exists>r'. event_row (fold (\<lambda>t. mark_failed t eid m) ts db) eid = Some r' \<and> lr_status r' = Dead_letter"
proof -
  obtain us t where ts: "ts = us @ [t]" using assms(3) by (cases ts rule: rev_cases) auto
  obtain r' where r': "event_row (fold (\<lambda>t. mark_failed t eid m) us db) eid = Some r'" "lr_attempts r' = int (length us)"
  proof (cases "us = []")
    case False
    then show ?thesis using that event_row_repeated_failures [OF assms(1,2) False, of m] assms(3) ts by fastforce
  qed (use assms that in simp)
  with assms(3) ts show ?thesis by (auto simp: event_row_mark_failed)
qed

section \<open>Reached peers\<close>

lemma delivered_peers_append:
  "CHR '','' \<notin> set p \<Longrightarrow> p \<noteq> [] \<Longrightarrow>
   delivered_peers (Some ((case d of None \<Rightarrow> [] | Some s \<Rightarrow> s @ '','') @ p)) = delivered_peers d @ [p]"
  by (cases d) (simp_all add: delivered_peers_def split_on_notin split_on_append)

lemma event_row_mark_delivered:
  "event_row (mark_delivered eid p db) i = map_option (\<lambda>r. if i = eid
     then r\<lparr>lr_delivered_to := Some ((case lr_delivered_to r of None \<Rightarrow> [] | Some s \<Rightarrow> s @ '','') @ p)\<rparr> else r) (event_row db i)"
  by (cases "event_row db i") (simp_all add: mark_delivered_def event_row_update)

lemma delivered_peers_fold:
  assumes "event_row db eid = Some r" and "\<forall>p \<in> set ps. CHR '','' \<notin> set p \<and> p \<noteq> []"
  shows "\<exists>r'. event_row (fold (mark_delivered eid) ps db) eid = Some r' \<and>
    delivered_peers (lr_delivered_to r') = delivered_peers (lr_delivered_to r) @ ps"
  using assms
proof (induction ps arbitrary: db r)
  case (Cons p ps)
  have "event_row (mark_delivered eid p db) eid = Some (r\<lparr>lr_delivered_to :=
      Some ((case lr_delivered_to r of None \<Rightarrow> [] | Some s \<Rightarrow> s @ '','') @ p)\<rparr>)"
    using Cons(2) by (simp add: event_row_mark_delivered)
  from Cons(1) [OF this] Cons(3) show ?case by (simp add: delivered_peers_append)
qed simp

section \<open>Well-formed tables\<close>

text \<open>The primary keys, and rows as the statements write them.\<close>

definition row_ok :: "log_row \<Rightarrow> bool" where
  "row_ok r \<longleftrightarrow> lr_op r = op_as_str (ev_op (lr_event r)) \<and> 0 \<le> lr_attempts r \<and>
     (lr_status r = Failed \<longrightarrow> lr_next_retry_at r \<noteq> None)"

definition wf_db :: "repl_db \<Rightarrow> bool" where
  "wf_db db \<longleftrightarrow> distinct (map fst (db_versions db)) \<and> distinct (map (\<lambda>r. ev_id (lr_event r)) (db_log db)) \<and>
     (\<forall>r \<in> set (db_log db). row_ok r)"

text \<open>The calls the node makes on its log.\<close>

inductive db_step :: "repl_log_env \<Rightarrow> repl_db \<Rightarrow> repl_db \<Rightarrow> bool" for env where
  step_enqueue_put: "db_step env db (snd (enqueue_put env uuid t meta cls grp db))"
| step_enqueue_delete: "db_step env db (snd (enqueue_delete env uuid t bucket key cls grp db))"
| step_local: "db_step env db (snd (record_local_change env uuid t bucket key c cls grp db))"
| step_remote: "db_step env db (record_remote_change t bucket key ev db)"
| step_restored: "db_step env db (record_restored t bucket key v db)"
| step_applied: "db_step env db (snd (record_applied t ev db))"
| step_list: "db_step env db (snd (list_pending_deliveries t limit db))"
| step_sent: "db_step env db (mark_sent eid db)"
| step_superseded: "db_step env db (mark_superseded eid db)"
| step_delivered: "db_step env db (mark_delivered eid peer db)"
| step_failed: "db_step env db (mark_failed t eid m db)"
| step_replay: "db_step env db (snd (replay_dead_letter eid db))"
| step_prune: "db_step env db (snd (prune_history t retention db))"

inductive_cases db_step_cases: "db_step env db db'"

lemma wf_update_row:
  assumes "wf_db db" and "\<And>r. ev_id (lr_event (f r)) = ev_id (lr_event r)" and "\<And>r. row_ok r \<Longrightarrow> row_ok (f r)"
  shows "wf_db (update_row eid f db)"
proof -
  have "map ((\<lambda>r. ev_id (lr_event r)) \<circ> (\<lambda>r. if ev_id (lr_event r) = eid then f r else r)) (db_log db) =
    map (\<lambda>r. ev_id (lr_event r)) (db_log db)"
    using assms(2) by simp
  with assms(1) have "distinct (map ((\<lambda>r. ev_id (lr_event r)) \<circ> (\<lambda>r. if ev_id (lr_event r) = eid then f r else r)) (db_log db))"
    by (simp only: wf_db_def)
  with assms(1,3) show ?thesis unfolding wf_db_def update_row_def by (auto simp del: map_eq_conv)
qed

lemma wf_put_version: "wf_db db \<Longrightarrow> wf_db (put_version t k kv db)"
  by (simp add: wf_db_def put_version_def distinct_update)

lemma wf_insert_pending: "wf_db db \<Longrightarrow> insert_pending ev db = Ok db' \<Longrightarrow> wf_db db'"
  by (fastforce simp: insert_pending_def wf_db_def row_ok_def has_event_def split: if_splits)

lemma wf_insert_applied: "wf_db db \<Longrightarrow> wf_db (snd (insert_applied t ev db))"
  by (fastforce simp: insert_applied_def wf_db_def row_ok_def has_event_def)

lemma wf_list_pending: "wf_db db \<Longrightarrow> wf_db (snd (list_pending_deliveries t limit db))"
proof -
  define flip where "flip = (\<lambda>r :: log_row. if lr_status r = Failed
    then update_row (ev_id (lr_event r)) (lr_status_update (\<lambda>_. Pending)) else id)"
  have "wf_db (fold flip rows db)" if "wf_db db" for rows db
    using that
  proof (induction rows arbitrary: db)
    case (Cons r rows)
    have "wf_db (flip r db)"
      using Cons(2) unfolding flip_def
      by (auto intro!: wf_update_row simp: row_ok_def)
    with Cons(1) show ?case by simp
  qed simp
  then show "wf_db db \<Longrightarrow> ?thesis" by (simp add: list_pending_deliveries_def Let_def flip_def)
qed


lemma wf_mark_failed: "wf_db db \<Longrightarrow> wf_db (mark_failed t eid m db)"
proof -
  assume wf: "wf_db db"
  define n where "n = (case find (\<lambda>r. ev_id (lr_event r) = eid) (db_log db) of None \<Rightarrow> 0 | Some r \<Rightarrow> lr_attempts r) + 1"
  have "0 \<le> n" using wf
    by (auto simp: n_def wf_db_def row_ok_def find_Some_iff split: option.splits)
  then show ?thesis using wf unfolding mark_failed_def n_def [symmetric] Let_def
    by (auto intro!: wf_update_row simp: row_ok_def)
qed

lemma wf_prune: "wf_db db \<Longrightarrow> wf_db (snd (prune_history t retention db))"
  by (auto simp: prune_history_filters [OF refl] wf_db_def distinct_map_filter)

lemma wf_queue:
  "wf_db db1 \<Longrightarrow> wf_db db \<Longrightarrow> wf_db (snd (case insert_pending ev db1 of
     Ok db2 \<Rightarrow> (Ok x, db2) | Err e \<Rightarrow> (Err e, db) | Panic \<Rightarrow> (Panic, db)))"
  by (auto dest: wf_insert_pending split: result.splits)

lemma wf_step: "db_step env db db' \<Longrightarrow> wf_db db \<Longrightarrow> wf_db db'"
proof (induction rule: db_step.induct)
  case (step_enqueue_put db uuid t meta cls grp)
  then show ?case by (auto simp: enqueue_put_def store_if_absent_def Let_def wf_queue wf_put_version split: option.splits)
next
  case (step_replay db eid)
  then show ?case by (auto simp: replay_dead_letter_def row_ok_def intro!: wf_update_row)
qed (auto simp: enqueue_delete_def record_local_change_def store_local_def record_remote_change_def record_restored_def
      store_def record_applied_def mark_sent_def mark_superseded_def set_status_def mark_delivered_def Let_def
      row_ok_def intro!: wf_queue wf_put_version wf_insert_applied wf_list_pending wf_mark_failed wf_prune wf_update_row)

inductive db_reachable :: "repl_log_env \<Rightarrow> repl_db \<Rightarrow> bool" for env where
  reach_empty: "db_reachable env \<lparr>db_versions = [], db_log = []\<rparr>"
| reach_step: "db_reachable env db \<Longrightarrow> db_step env db db' \<Longrightarrow> db_reachable env db'"

lemma reachable_wf: "db_reachable env db \<Longrightarrow> wf_db db"
  by (induction rule: db_reachable.induct) (simp_all add: wf_db_def [of "\<lparr>db_versions = [], db_log = []\<rparr>"] wf_step)

lemma op_roundtrip [simp]: "op_parse (op_as_str op) = Some op"
  by (cases op) (simp_all add: op_parse_def op_as_str_def)

lemma collect_results_Ok: "(\<forall>x \<in> set xs. f x = Ok (g x)) \<Longrightarrow> collect_results (map f xs) = Ok (map g xs)"
  by (induction xs) auto

lemma into_event_ok: "row_ok r \<Longrightarrow> into_event r = Ok (lr_event r)"
  by (simp add: row_ok_def into_event_def)

lemma list_pending_wf:
  assumes "wf_db db"
  shows "fst (list_pending_deliveries t limit db) = Ok (map (\<lambda>r. \<lparr>pd_event = lr_event r,
      pd_delivered_to = delivered_peers (lr_delivered_to r)\<rparr>)
    (take limit (sort_key (\<lambda>r. ev_created_at (lr_event r)) (filter (due t) (db_log db)))))"
proof -
  have "row_ok r" if "r \<in> set (take limit (sort_key (\<lambda>r. ev_created_at (lr_event r)) (filter (due t) (db_log db))))" for r
    using that assms by (auto simp: wf_db_def dest!: in_set_takeD)
  then show ?thesis unfolding list_pending_deliveries_def Let_def
    by (auto simp: into_event_ok intro!: collect_results_Ok)
qed


lemma insert_pending_eq_Ok: "insert_pending ev db = Ok db' \<Longrightarrow>
   \<exists>r. db_log db' = db_log db @ [r] \<and> lr_event r = ev \<and> lr_status r = Pending"
  by (auto simp: insert_pending_def split: if_splits)

lemma local_change_effect:
  assumes "record_local_change env uuid now_us bucket key c cls grp db = (Ok (), db')" and "0 < now_us"
  shows "\<exists>v. load_version db' (bucket, key) = Some \<lparr>kv_version = v, kv_deleted = (\<exists>s. c = Deleted s)\<rparr> \<and>
    now_us \<le> micros v \<and> (\<forall>kv. load_version db (bucket, key) = Some kv \<longrightarrow> kv_version kv < v) \<and>
    (\<exists>r. db_log db' = db_log db @ [r] \<and> lr_status r = Pending \<and> effective_version (lr_event r) = v) \<and>
    (\<forall>k. k \<noteq> (bucket, key) \<longrightarrow> load_version db' k = load_version db k)"
proof -
  define m where "m = (case load_version db (bucket, key) of None \<Rightarrow> now_us | Some kv \<Rightarrow> max now_us (micros (kv_version kv) + 1))"
  define db1 where "db1 = put_version now_us (bucket, key)
    \<lparr>kv_version = Version m (le_origin env), kv_deleted = (case c of Deleted _ \<Rightarrow> True | Written _ \<Rightarrow> False)\<rparr> db"
  obtain ev where ins: "insert_pending ev db1 = Ok db'" and ev: "ev_version ev = m" "ev_origin ev = le_origin env"
    using assms(1) unfolding record_local_change_def store_local_def m_def [symmetric] db1_def Let_def
    by (cases c) (auto simp: put_event_def delete_event_def split: result.splits)
  have m: "now_us \<le> m" "0 < m" using assms(2) by (auto simp: m_def split: option.splits)
  have later: "load_version db (bucket, key) = Some kv \<Longrightarrow> kv_version kv < Version m (le_origin env)" for kv
    by (auto simp: m_def less_version_iff max_def)
  have kv_deleted_eq: "(case c of Deleted _ \<Rightarrow> True | Written _ \<Rightarrow> False) = (\<exists>s. c = Deleted s)" by (cases c) auto
  have "effective_version ev = Version m (le_origin env)" using m ev by (simp add: effective_version_def)
  with m later load_insert_pending [OF ins] insert_pending_eq_Ok [OF ins] show ?thesis
    by (intro exI [of _ "Version m (le_origin env)"]) (auto simp: db1_def kv_deleted_eq)
qed

lemma retry_schedule:
  assumes "event_row db eid = Some r" and "lr_attempts r = 0" and "ts \<noteq> []" and "length ts \<le> max m 1"
  shows "\<exists>r'. event_row (fold (\<lambda>t. mark_failed t eid m) ts db) eid = Some r' \<and>
    (if length ts < max m 1
     then lr_status r' = Failed \<and> lr_next_retry_at r' = Some (last ts + 2 ^ min (length ts) 10)
     else lr_status r' = Dead_letter \<and> (\<forall>t. \<not> due t r'))"
proof (cases "length ts < max m 1")
  case True
  have "backoff (int (length ts)) = 2 ^ min (length ts) 10"
  proof -
    have "nat (min (int (length ts)) 10) = min (length ts) 10" by linarith
    with backoff_bounds [of "int (length ts)"] assms(3) show ?thesis by (cases ts) auto
  qed
  with event_row_repeated_failures [OF assms(1-3) True] True show ?thesis by auto
next
  case False
  with event_row_last_failure [OF assms(1,2)] assms(4) show ?thesis by (fastforce simp: due_def)
qed

section \<open>Properties\<close>

definition empty_db :: repl_db where
  "empty_db = \<lparr>db_versions = [], db_log = []\<rparr>"

definition sample_env :: repl_log_env where
  "sample_env = \<lparr>le_lib = toy_lib, le_portable = False, le_origin = ''a''\<rparr>"

definition sample_db :: repl_db where
  "sample_db = snd (enqueue_delete sample_env ''e1'' 5000000 ''b'' ''k'' ''hot'' ''default'' empty_db)"

lemma sample_db_eq:
  "sample_db = \<lparr>db_versions = [((''b'', ''k''), \<lparr>vr_state = \<lparr>kv_version = Version 5000000 ''a'', kv_deleted = True\<rparr>, vr_recorded_at = 5\<rparr>)],
     db_log = [\<lparr>lr_event = delete_event sample_env ''e1'' 5000000 ''b'' ''k'' ''hot'' ''default'' 5000000, lr_op = ''delete'',
       lr_status = Pending, lr_attempts = 0, lr_next_retry_at = None, lr_delivered_to = None, lr_applied_at = None\<rparr>]\<rparr>"
  by (simp add: sample_db_def enqueue_delete_def store_local_def load_version_def empty_db_def sample_env_def Let_def
      put_version_def insert_pending_def has_event_def op_as_str_def delete_event_def)

lemma sample_row: "event_row sample_db ''e1'' = Some (hd (db_log sample_db))"
  by (simp add: event_row_def sample_db_eq delete_event_def)

text \<open>C34: every version with an \<open>i64\<close> time is read back from the header it is sent in, whatever the origin's
  name holds (semicolons and spaces included).\<close>

theorem version_header_roundtrip:
  "- (2 ^ 63) \<le> micros v \<Longrightarrow> micros v < 2 ^ 63 \<Longrightarrow> from_header (to_header v) = Some v"
  by (rule header_roundtrip)

theorem version_header_roundtrip_witness: "from_header (to_header (Version (- 12) ''n;1'')) = Some (Version (- 12) ''n;1'')"
  by (rule version_header_roundtrip) simp_all



text \<open>C32: pruning in batches removes exactly the sent, applied and superseded events and the tombstones from before the
  retention time, however many batches that takes, and counts them; everything else keeps its place.\<close>

theorem prune_removes_finished:
  "prune_history now_s retention db =
     (\<lparr>pr_events = length (filter (finished_before (saturate_i64 (now_s - retention))) (db_log db)),
       pr_tombstones = length (filter (old_tombstone (saturate_i64 (now_s - retention))) (db_versions db))\<rparr>,
      \<lparr>db_versions = filter (\<lambda>r. \<not> old_tombstone (saturate_i64 (now_s - retention)) r) (db_versions db),
       db_log = filter (\<lambda>r. \<not> finished_before (saturate_i64 (now_s - retention)) r) (db_log db)\<rparr>)"
  by (rule prune_history_filters) (rule refl)

text \<open>C31: an event that keeps failing is retried after \<open>2 ^ min n 10\<close> seconds (2 to 1024) following its \<open>n\<close>-th failure, and
  is dead-lettered by exactly the configured number of failures (at least one), after which it is never due again.\<close>

theorem retries_back_off_and_end:
  assumes "event_row db eid = Some r" and "lr_attempts r = 0" and "ts \<noteq> []" and "length ts \<le> max m 1"
  shows "\<exists>r'. event_row (fold (\<lambda>t. mark_failed t eid m) ts db) eid = Some r' \<and>
    (if length ts < max m 1
     then lr_status r' = Failed \<and> lr_next_retry_at r' = Some (last ts + 2 ^ min (length ts) 10)
     else lr_status r' = Dead_letter \<and> (\<forall>t. \<not> due t r'))"
  by (rule retry_schedule [OF assms])

theorem retries_back_off_and_end_witness:
  "\<exists>r'. event_row (fold (\<lambda>t. mark_failed t ''e1'' 2) [10, 20] sample_db) ''e1'' = Some r' \<and> lr_status r' = Dead_letter"
  using retries_back_off_and_end [OF sample_row, of "[10, 20]" 2] by (auto simp: sample_db_eq)

text \<open>C33: the peers recorded for an event one by one are read back in that order, after those already there, provided
  their ids are non-empty and have no comma.\<close>

theorem delivered_to_roundtrip:
  assumes "event_row db eid = Some r" and "\<forall>p \<in> set ps. CHR '','' \<notin> set p \<and> p \<noteq> []"
  shows "\<exists>r'. event_row (fold (mark_delivered eid) ps db) eid = Some r' \<and>
    delivered_peers (lr_delivered_to r') = delivered_peers (lr_delivered_to r) @ ps"
  by (rule delivered_peers_fold [OF assms])

theorem delivered_to_roundtrip_witness:
  "\<exists>r'. event_row (fold (mark_delivered ''e1'') [''n2'', ''n3''] sample_db) ''e1'' = Some r' \<and>
    delivered_peers (lr_delivered_to r') = [''n2'', ''n3'']"
  using delivered_to_roundtrip [OF sample_row, of "[''n2'', ''n3'']"] by (auto simp: sample_db_eq delivered_peers_def)

text \<open>C30: whatever calls a node makes on its tables, in any order, keys and event ids stay unique and every row keeps the
  text of its operation, a count of attempts and a retry time when it has failed; so listing the due
  events never meets an unknown operation and gives the oldest due rows as they were written.\<close>

theorem reachable_tables_wf:
  assumes "db_reachable env db"
  shows "wf_db db \<and> fst (list_pending_deliveries t limit db) = Ok (map (\<lambda>r. \<lparr>pd_event = lr_event r,
      pd_delivered_to = delivered_peers (lr_delivered_to r)\<rparr>)
    (take limit (sort_key (\<lambda>r. ev_created_at (lr_event r)) (filter (due t) (db_log db)))))"
  using reachable_wf [OF assms] list_pending_wf by blast

theorem reachable_tables_wf_witness: "wf_db sample_db"
proof -
  have "db_reachable sample_env sample_db"
    unfolding sample_db_def empty_db_def by (rule reach_step [OF reach_empty step_enqueue_delete])
  from reachable_tables_wf [OF this] show ?thesis by blast
qed

end
