(* ===== verification/Spec2Isabelle.thy ===== *)
theory Spec2Isabelle
  imports Prelude Rust_Str Codec_Lib Blob_Format Dict_Store Block_Store Compressibility Block_Cache Blob_Encode Blob_Decode Blob_Roundtrip Http_Range Object_Names Replication_Log
begin

text \<open>
  Verification of Nebular OS, an S3-like object store written in Rust.
\<close>

end
